(* ===== verification/Prelude.thy ===== *)
theory Prelude
  imports Main "HOL-Library.Word" "HOL-Library.Sublist"
begin

text \<open>
  Shared vocabulary of the development: C characters and NUL-terminated buffers, the
  undefined behaviours a C statement can run into, machine-integer conversions, and the
  splitting of separator-separated lists (search paths, descriptor lists, capability
  lists, path components), which every component of the library relies on.
\<close>

named_theorems split_lemmas \<open>facts about splitting a string at separators\<close>
named_theorems buffer_lemmas \<open>facts about NUL-terminated buffers\<close>
named_theorems cint_lemmas \<open>facts about C integer conversions\<close>

section \<open>Undefined behaviour and failed assertions\<close>

text \<open>
  A C statement whose behaviour is undefined has no result.  The model gives the reason
  instead of a value, so that every such statement is a branch of its definition.
\<close>

datatype fault =
    Null_deref      \<comment> \<open>a null pointer is read or written through\<close>
  | Oob_read        \<comment> \<open>a read past the end of an object\<close>
  | Oob_write       \<comment> \<open>a write past the end of an object\<close>
  | Uninit_read     \<comment> \<open>a read of memory that was never written\<close>
  | Assert_fail     \<comment> \<open>a failed assertion\<close>
  | Fatal           \<comment> \<open>the loader ends the process with a message\<close>
  | Signed_overflow \<comment> \<open>a result that does not fit its signed type\<close>
  | Bad_shift       \<comment> \<open>a shift by the width of the type or more\<close>
  | Out_of_fuel     \<comment> \<open>the bound on a loop was too small; proved unreachable where used\<close>

type_synonym 'a res = "fault + 'a"

definition rbind :: "'a res \<Rightarrow> ('a \<Rightarrow> 'b res) \<Rightarrow> 'b res" where
  "rbind m f = (case m of Inl e \<Rightarrow> Inl e | Inr a \<Rightarrow> f a)"

lemma rbind_simps [simp]:
  "rbind (Inl e) f = Inl e"
  "rbind (Inr a) f = f a"
  by (simp_all add: rbind_def)

lemma rbind_eq_Inr_iff: "rbind m f = Inr b \<longleftrightarrow> (\<exists>a. m = Inr a \<and> f a = Inr b)"
  by (cases m) auto

lemma rbind_assoc: "rbind (rbind m f) g = rbind m (\<lambda>a. rbind (f a) g)"
  by (cases m) auto

section \<open>Characters and C strings\<close>

abbreviation NUL :: char where
  "NUL \<equiv> CHR 0x00"

abbreviation slash :: char where
  "slash \<equiv> CHR ''/''"

abbreviation colon :: char where
  "colon \<equiv> CHR '':''"

text \<open>
  A \<open>const char *\<close> that is only read up to its terminator is the list of the characters
  before the terminator.  \<open>cget s i\<close> is the C expression \<open>s[i]\<close> for an index up to and
  including the position of the terminator.
\<close>

fun cget :: "string \<Rightarrow> nat \<Rightarrow> char" where
  "cget [] i = NUL"
| "cget (c # cs) 0 = c"
| "cget (c # cs) (Suc i) = cget cs i"

lemma cget_numeral [simp]: "cget (c # cs) (numeral n) = cget cs (pred_numeral n)"
  by (simp add: numeral_eq_Suc)

lemma cget_one [simp]: "cget (c # cs) 1 = cget cs 0"
  by (simp add: One_nat_def)

lemma cget_nth: "cget s i = (if i < length s then s ! i else NUL)"
  by (induction s i rule: cget.induct) auto

lemma cget_append: "cget (s @ t) (length s + i) = cget t i"
  by (induction s) auto

lemma cget_append_length: "cget (s @ t) (length s) = cget t 0"
  using cget_append [of s t 0] by simp

text \<open>
  A \<open>char *\<close> whose memory behind the terminator matters is the list of all the characters
  from the pointer to the end of the object; \<open>cstr\<close> reads it as a string.
\<close>

definition cstr :: "char list \<Rightarrow> string" where
  "cstr b = takeWhile (\<lambda>c. c \<noteq> NUL) b"

definition cbuf :: "string \<Rightarrow> char list" where
  "cbuf s = s @ [NUL]"

definition nul_free :: "string \<Rightarrow> bool" where
  "nul_free s \<longleftrightarrow> NUL \<notin> set s"

lemma cstr_simps [simp]:
  "cstr [] = []"
  "cstr (c # b) = (if c = NUL then [] else c # cstr b)"
  by (simp_all add: cstr_def)

lemma nul_free_simps [simp]:
  "nul_free []"
  "nul_free (c # s) \<longleftrightarrow> c \<noteq> NUL \<and> nul_free s"
  "nul_free (s @ t) \<longleftrightarrow> nul_free s \<and> nul_free t"
  by (auto simp: nul_free_def)

lemma nul_free_subset: "set t \<subseteq> set s \<Longrightarrow> nul_free s \<Longrightarrow> nul_free t"
  by (auto simp: nul_free_def)

lemma nul_free_take [simp]: "nul_free s \<Longrightarrow> nul_free (take n s)"
  by (erule nul_free_subset [rotated]) (rule set_take_subset)

lemma nul_free_drop [simp]: "nul_free s \<Longrightarrow> nul_free (drop n s)"
  by (erule nul_free_subset [rotated]) (rule set_drop_subset)

lemma cstr_append_nul [buffer_lemmas, simp]: "nul_free s \<Longrightarrow> cstr (s @ NUL # b) = s"
  by (induction s) auto

lemma cstr_cbuf [buffer_lemmas, simp]: "nul_free s \<Longrightarrow> cstr (cbuf s) = s"
  by (simp add: cbuf_def)

lemma cstr_id [buffer_lemmas]: "nul_free s \<Longrightarrow> cstr s = s"
  by (induction s) auto

lemma nul_free_cstr [buffer_lemmas, simp]: "nul_free (cstr b)"
  by (induction b) auto

lemma length_cbuf [simp]: "length (cbuf s) = Suc (length s)"
  by (simp add: cbuf_def)

section \<open>C integer conversions\<close>

text \<open>
  Conversion to a signed integer of \<open>w\<close> bits, as the compiler does it: reduction modulo
  \<open>2 ^ w\<close> into the range of the type.
\<close>

definition to_signed :: "nat \<Rightarrow> int \<Rightarrow> int" where
  "to_signed w x = (x + 2 ^ (w - 1)) mod 2 ^ w - 2 ^ (w - 1)"

abbreviation c_int :: "int \<Rightarrow> int" where
  "c_int \<equiv> to_signed 32"

lemma c_int_id [cint_lemmas]: "- (2 ^ 31) \<le> x \<Longrightarrow> x < 2 ^ 31 \<Longrightarrow> c_int x = x"
  by (simp add: to_signed_def)

lemma c_int_range [cint_lemmas]: "- (2 ^ 31) \<le> c_int x \<and> c_int x < 2 ^ 31"
proof -
  have "0 \<le> (x + 2 ^ 31) mod 2 ^ 32" and "(x + 2 ^ 31) mod 2 ^ 32 < (2 ^ 32 :: int)"
    by simp_all
  then show ?thesis by (simp add: to_signed_def)
qed

section \<open>Splitting at separators\<close>

text \<open>
  \<open>split_on p s\<close> is the list of the fields of \<open>s\<close> between characters that satisfy \<open>p\<close>,
  empty fields included; \<open>tokens p s\<close> leaves the empty ones out.  They are the reference
  for the tokenizers of the library, each of which the source writes in its own way.
\<close>

fun split_on :: "(char \<Rightarrow> bool) \<Rightarrow> string \<Rightarrow> string list" where
  "split_on p [] = [[]]"
| "split_on p (c # cs) =
     (if p c then [] # split_on p cs
      else (c # hd (split_on p cs)) # tl (split_on p cs))"

definition tokens :: "(char \<Rightarrow> bool) \<Rightarrow> string \<Rightarrow> string list" where
  "tokens p s = filter (\<lambda>t. t \<noteq> []) (split_on p s)"

lemma split_on_nonempty [simp]: "split_on p s \<noteq> []"
  by (induction s) auto

lemma split_on_code [code]:
  "split_on p [] = [[]]"
  "split_on p (c # cs) =
     (case split_on p cs of [] \<Rightarrow> [] | f # fs \<Rightarrow> if p c then [] # f # fs else (c # f) # fs)"
  by (auto split: list.splits)

lemma split_on_no_sep [split_lemmas]: "(\<forall>c \<in> set s. \<not> p c) \<Longrightarrow> split_on p s = [s]"
  by (induction s) auto

lemma split_on_append [split_lemmas]:
  "(\<forall>c \<in> set s. \<not> p c) \<Longrightarrow> p d \<Longrightarrow> split_on p (s @ d # t) = s # split_on p t"
  by (induction s) auto

lemma split_on_fields [split_lemmas]: "f \<in> set (split_on p s) \<Longrightarrow> c \<in> set f \<Longrightarrow> \<not> p c"
proof (induction s arbitrary: f)
  case Nil
  then show ?case by simp
next
  case (Cons a s)
  show ?case
  proof (cases "p a")
    case True
    with Cons show ?thesis by auto
  next
    case False
    with Cons.prems consider "f = a # hd (split_on p s)" | "f \<in> set (tl (split_on p s))"
      by auto
    then show ?thesis
    proof cases
      case 1
      with Cons.IH [of "hd (split_on p s)"] Cons.prems False show ?thesis by auto
    next
      case 2
      then have "f \<in> set (split_on p s)" by (meson list.set_sel(2) split_on_nonempty)
      with Cons show ?thesis by auto
    qed
  qed
qed

lemma split_on_unfold:
  "split_on p s =
     (case dropWhile (\<lambda>c. \<not> p c) s of
        [] \<Rightarrow> [s]
      | d # t \<Rightarrow> takeWhile (\<lambda>c. \<not> p c) s # split_on p t)"
proof (induction s)
  case Nil
  then show ?case by simp
next
  case (Cons a s)
  then show ?case
    by (cases "dropWhile (\<lambda>c. \<not> p c) s") (auto simp del: dropWhile_eq_Nil_conv)
qed

lemma length_split_on: "length (split_on p s) = Suc (length (filter p s))"
  by (induction s) auto

lemma split_on_inj [split_lemmas]:
  "split_on (\<lambda>c. c = d) s = split_on (\<lambda>c. c = d) t \<Longrightarrow> s = t"
proof (induction s arbitrary: t)
  case Nil
  then show ?case by (cases t) (auto split: if_splits simp: eq_commute [of "[]"])
next
  case (Cons a s)
  then show ?case
  proof (cases t)
    case Nil
    with Cons.prems show ?thesis by (auto split: if_splits simp: eq_commute [of "[]"])
  next
    case (Cons b t')
    show ?thesis
    proof (cases "a = d \<or> b = d")
      case True
      with Cons Cons.prems Cons.IH [of t'] show ?thesis by (auto split: if_splits)
    next
      case False
      with Cons Cons.prems have "a = b"
        and "hd (split_on (\<lambda>c. c = d) s) = hd (split_on (\<lambda>c. c = d) t')"
        and "tl (split_on (\<lambda>c. c = d) s) = tl (split_on (\<lambda>c. c = d) t')"
        by auto
      then have "split_on (\<lambda>c. c = d) s = split_on (\<lambda>c. c = d) t'"
        by (metis list.collapse split_on_nonempty)
      with Cons.IH \<open>a = b\<close> Cons show ?thesis by simp
    qed
  qed
qed

lemma tokens_Nil [simp]: "tokens p [] = []"
  by (simp add: tokens_def)

lemma tokens_sep [simp]: "p d \<Longrightarrow> tokens p (d # s) = tokens p s"
  by (simp add: tokens_def)

lemma tokens_dropWhile [split_lemmas]: "tokens p (dropWhile p s) = tokens p s"
  by (induction s) auto

lemma tokens_all_sep [split_lemmas]: "dropWhile p s = [] \<Longrightarrow> tokens p s = []"
  by (metis tokens_Nil tokens_dropWhile)

lemma tokens_last [split_lemmas]:
  "(\<forall>c \<in> set t. \<not> p c) \<Longrightarrow> t \<noteq> [] \<Longrightarrow> tokens p t = [t]"
  by (simp add: tokens_def split_on_no_sep)

lemma tokens_step [split_lemmas]:
  "(\<forall>c \<in> set t. \<not> p c) \<Longrightarrow> t \<noteq> [] \<Longrightarrow> p d \<Longrightarrow> tokens p (t @ d # s) = t # tokens p s"
  by (simp add: tokens_def split_on_append)

lemma tokens_member: "t \<in> set (tokens p s) \<Longrightarrow> t \<noteq> [] \<and> (\<forall>c \<in> set t. \<not> p c)"
  by (auto simp: tokens_def dest: split_on_fields)

subsection \<open>The contract of a tokenizer\<close>

text \<open>
  A tokenizer hands out the non-empty fields of a text one at a time, from a state that
  stands for the rest of the text.  The loops over \<open>strtok\<close> and over \<open>_dl_hwcaps_split\<close>
  are both clients of this contract: the fields they see are \<open>tokens\<close>, and they end.
\<close>

locale tokenizer =
  fixes sep :: "char \<Rightarrow> bool"
    and next_token :: "'s \<Rightarrow> (string \<times> 's) option"
    and rest :: "'s \<Rightarrow> string"
  assumes next_None: "next_token s = None \<Longrightarrow> tokens sep (rest s) = []"
    and next_Some: "next_token s = Some (t, s') \<Longrightarrow> tokens sep (rest s) = t # tokens sep (rest s')"
    and next_shorter: "next_token s = Some (t, s') \<Longrightarrow> length (rest s') < length (rest s)"
begin

primrec collect :: "nat \<Rightarrow> 's \<Rightarrow> string list option" where
  "collect 0 s = None"
| "collect (Suc n) s =
     (case next_token s of
        None \<Rightarrow> Some []
      | Some (t, s') \<Rightarrow> map_option ((#) t) (collect n s'))"

lemma collect_tokens: "length (rest s) < n \<Longrightarrow> collect n s = Some (tokens sep (rest s))"
proof (induction n arbitrary: s)
  case 0
  then show ?case by simp
next
  case (Suc n)
  show ?case
  proof (cases "next_token s")
    case None
    then show ?thesis by (simp add: next_None)
  next
    case (Some r)
    obtain t s' where r: "r = (t, s')" by (cases r)
    from Some r Suc.prems have "length (rest s') < n"
      using next_shorter [of s t s'] by simp
    with Some r show ?thesis by (simp add: Suc.IH next_Some)
  qed
qed

lemma next_token_nonempty: "next_token s = Some (t, s') \<Longrightarrow> t \<noteq> [] \<and> (\<forall>c \<in> set t. \<not> sep c)"
proof -
  assume "next_token s = Some (t, s')"
  then have "t \<in> set (tokens sep (rest s))" by (simp add: next_Some)
  then show ?thesis by (rule tokens_member)
qed

end

end
