(* ===== verification/CString.thy ===== *)
theory CString
  imports Prelude
begin

text \<open>
  The string routines of \<open>string/\<close> and of the dynamic loader's own C library
  (\<open>elf/dl-minimal.c\<close>) that the components above rely on: scanning (\<open>strspn\<close>,
  \<open>strcspn\<close>, \<open>strchr\<close>, \<open>strrchr\<close>), comparing (\<open>memcmp\<close>) and tokenizing (\<open>strtok_r\<close>, \<open>strsep\<close>).
  The lemmas relate each tokenizer to the fields of the text.
\<close>

section \<open>Writing\<close>

text \<open>A copy of characters to position \<open>off\<close> of a buffer; past its end it is a fault.\<close>

definition put_chars :: "char list \<Rightarrow> nat \<Rightarrow> char list \<Rightarrow> char list res" where
  "put_chars s off buf =
     (if length buf < off + length s then Inl Oob_write
      else Inr (take off buf @ s @ drop (off + length s) buf))"

lemma put_chars_at [buffer_lemmas]:
  "length s \<le> length old \<Longrightarrow> put_chars s (length pre) (pre @ old) = Inr (pre @ s @ drop (length s) old)"
  by (simp add: put_chars_def)

lemma put_chars_length: "put_chars cs k b = Inr b' \<Longrightarrow> length b' = length b"
  by (auto simp: put_chars_def split: if_splits)

section \<open>Scanning\<close>

text \<open>The contract of \<open>strspn\<close> and \<open>strcspn\<close>: the length of the longest prefix inside,
  respectively outside, a set of characters.\<close>

definition strspn :: "string \<Rightarrow> string \<Rightarrow> nat" where
  "strspn s accept = length (takeWhile (\<lambda>c. c \<in> set accept) s)"

definition strcspn :: "string \<Rightarrow> string \<Rightarrow> nat" where
  "strcspn s reject = length (takeWhile (\<lambda>c. c \<notin> set reject) s)"

lemma drop_strspn: "drop (strspn s d) s = dropWhile (\<lambda>c. c \<in> set d) s"
  by (simp add: strspn_def dropWhile_eq_drop)

lemma drop_strcspn: "drop (strcspn s d) s = dropWhile (\<lambda>c. c \<notin> set d) s"
  by (simp add: strcspn_def dropWhile_eq_drop)

lemma take_strcspn: "take (strcspn s d) s = takeWhile (\<lambda>c. c \<notin> set d) s"
  by (simp add: strcspn_def flip: takeWhile_eq_take)

text \<open>The contract of \<open>memcmp\<close>: the sign of the first difference in \<open>n\<close> characters.\<close>

fun memcmp :: "string \<Rightarrow> string \<Rightarrow> nat \<Rightarrow> int" where
  "memcmp (a # as) (b # bs) (Suc n) = (if a = b then memcmp as bs n else int (of_char a) - int (of_char b))"
| "memcmp as bs n = 0"

text \<open>
  \<open>strchr\<close> on a buffer: the suffix that starts at the first occurrence of \<open>c\<close>, \<open>None\<close> when
  the terminator comes first; a buffer with no terminator is read past its end.
\<close>

fun strchr :: "char list \<Rightarrow> char \<Rightarrow> char list option res" where
  "strchr [] c = Inl Oob_read"
| "strchr (x # xs) c =
     (if x = c then Inr (Some (x # xs)) else if x = NUL then Inr None else strchr xs c)"

lemma strchr_length: "strchr b c = Inr (Some p) \<Longrightarrow> p \<noteq> [] \<and> length p \<le> length b"
  by (induction b) (auto split: if_splits)

lemma strchr_found [buffer_lemmas]:
  "c \<notin> set s \<Longrightarrow> nul_free s \<Longrightarrow> strchr (s @ c # b) c = Inr (Some (c # b))"
  by (induction s) auto

lemma strchr_not_found [buffer_lemmas]:
  "c \<notin> set s \<Longrightarrow> nul_free s \<Longrightarrow> c \<noteq> NUL \<Longrightarrow> strchr (s @ NUL # b) c = Inr None"
  by (induction s) auto

text \<open>\<open>strrchr\<close> calls \<open>strchr\<close> until it finds nothing more.\<close>

function strrchr_loop :: "char list option \<Rightarrow> char list \<Rightarrow> char \<Rightarrow> char list option res" where
  "strrchr_loop found s c =
     (case strchr s c of
        Inl e \<Rightarrow> Inl e
      | Inr None \<Rightarrow> Inr found
      | Inr (Some p) \<Rightarrow> strrchr_loop (Some p) (tl p) c)"
  by pat_completeness auto
termination
proof (relation "measure (\<lambda>(f, s, c). length s)")
  fix f s c o' p
  assume "strchr s c = Inr o'" and "o' = Some p"
  then have "p \<noteq> []" and "length p \<le> length s"
    using strchr_length by auto
  then show "((Some p, tl p, c), f, s, c) \<in> measure (\<lambda>(f, s, c). length s)"
    by (cases p) auto
qed simp

declare strrchr_loop.simps [simp del]

definition strrchr :: "char list \<Rightarrow> char \<Rightarrow> char list option res" where
  "strrchr s c = (if c = NUL then strchr s NUL else strrchr_loop None s c)"

lemma length_takeWhile_neq: "c \<in> set xs \<Longrightarrow> length (takeWhile (\<lambda>x. x \<noteq> c) xs) < length xs"
  by (induction xs) auto

lemma strrchr_loop_last:
  "nul_free s \<Longrightarrow> c \<noteq> NUL \<Longrightarrow>
   strrchr_loop f (s @ NUL # b) c =
     Inr (if c \<in> set s
          then Some (drop (length s - Suc (length (takeWhile (\<lambda>x. x \<noteq> c) (rev s)))) (s @ NUL # b))
          else f)"
proof (induction "length s" arbitrary: s f rule: less_induct)
  case less
  show ?case
  proof (cases "c \<in> set s")
    case False
    with less.prems show ?thesis
      by (simp add: strrchr_loop.simps strchr_not_found)
  next
    case True
    then obtain s1 s2 where s: "s = s1 @ c # s2" and s1: "c \<notin> set s1"
      by (meson split_list_first)
    have step: "strrchr_loop f (s @ NUL # b) c = strrchr_loop (Some (c # s2 @ NUL # b)) (s2 @ NUL # b) c"
      using less.prems s s1 by (simp add: strrchr_loop.simps [of f] strchr_found)
    have IH: "strrchr_loop (Some (c # s2 @ NUL # b)) (s2 @ NUL # b) c =
      Inr (if c \<in> set s2
          then Some (drop (length s2 - Suc (length (takeWhile (\<lambda>x. x \<noteq> c) (rev s2)))) (s2 @ NUL # b))
          else Some (c # s2 @ NUL # b))"
      using less.prems s by (intro less.hyps) auto
    show ?thesis
    proof (cases "c \<in> set s2")
      case True
      let ?k = "length (takeWhile (\<lambda>x. x \<noteq> c) (rev s2))"
      have "?k < length s2"
        using True length_takeWhile_neq [of c "rev s2"] by simp
      then have "length s - Suc ?k = length s1 + Suc (length s2 - Suc ?k)"
        using s by simp
      moreover have "takeWhile (\<lambda>x. x \<noteq> c) (rev s) = takeWhile (\<lambda>x. x \<noteq> c) (rev s2)"
        using True s by (simp add: takeWhile_append1 [of c])
      ultimately show ?thesis
        using step IH True s by (simp del: length_append)
    next
      case False
      then have "takeWhile (\<lambda>x. x \<noteq> c) (rev s) = rev s2"
        using s by (auto simp: takeWhile_append)
      with False step IH s show ?thesis by simp
    qed
  qed
qed

section \<open>Tokenizing\<close>

text \<open>
  \<open>strtok_r\<close> (string/strtok_r.c).  The pointers it takes and stores are the suffixes of
  the text they point at.
\<close>

definition strtok_r :: "string option \<Rightarrow> string \<Rightarrow> string \<Rightarrow> string option \<times> string" where
  "strtok_r s delim save_ptr =
     (let s = (case s of None \<Rightarrow> save_ptr | Some s \<Rightarrow> s) in
      if s = [] then (None, s)
      else
        let s = drop (strspn s delim) s in
        if s = [] then (None, s)
        else
          let end = drop (strcspn s delim) s in
          if end = [] then (Some s, end)
          else (Some (take (strcspn s delim) s), tl end))"

definition strtok_next :: "string \<Rightarrow> string \<Rightarrow> (string \<times> string) option" where
  "strtok_next delim save_ptr =
     (case strtok_r None delim save_ptr of
        (None, _) \<Rightarrow> None
      | (Some t, s) \<Rightarrow> Some (t, s))"

lemma strtok_next_alt:
  "strtok_next d s =
     (case dropWhile (\<lambda>c. c \<in> set d) s of
        [] \<Rightarrow> None
      | s' \<Rightarrow> Some (takeWhile (\<lambda>c. c \<notin> set d) s', drop 1 (dropWhile (\<lambda>c. c \<notin> set d) s')))"
proof (cases "dropWhile (\<lambda>c. c \<in> set d) s")
  case Nil
  then show ?thesis
    by (auto simp: strtok_next_def strtok_r_def Let_def drop_strspn simp del: dropWhile_eq_Nil_conv)
next
  case (Cons x r)
  have "takeWhile (\<lambda>c. c \<notin> set d) (x # r) = x # r" if "dropWhile (\<lambda>c. c \<notin> set d) (x # r) = []"
    using that by (metis append.right_neutral takeWhile_dropWhile_id)
  with Cons show ?thesis
    by (cases "dropWhile (\<lambda>c. c \<notin> set d) (x # r)")
      (auto simp del: dropWhile_eq_Nil_conv
        simp: drop_Suc strtok_next_def strtok_r_def Let_def drop_strspn drop_strcspn take_strcspn)
qed

lemma strtok_next_None: "strtok_next d s = None \<Longrightarrow> tokens (\<lambda>c. c \<in> set d) s = []"
  by (auto simp: strtok_next_alt tokens_all_sep split: list.splits simp del: dropWhile_eq_Nil_conv)

lemma strtok_next_Some:
  assumes "strtok_next d s = Some (t, s')"
  shows "tokens (\<lambda>c. c \<in> set d) s = t # tokens (\<lambda>c. c \<in> set d) s'"
    and "length s' < length s"
proof -
  let ?p = "\<lambda>c. c \<in> set d" and ?np = "\<lambda>c. c \<notin> set d"
  define u where "u = dropWhile ?p s"
  from assms have u: "u \<noteq> []" and t: "t = takeWhile ?np u" and s': "s' = drop 1 (dropWhile ?np u)"
    by (auto simp: strtok_next_alt u_def split: list.splits simp del: dropWhile_eq_Nil_conv)
  have hd: "?np (hd u)" using u hd_dropWhile [of ?p s] by (simp add: u_def)
  with u t have tne: "t \<noteq> []" by (cases u) auto
  have tns: "\<forall>c \<in> set t. \<not> ?p c" using t by (auto dest: set_takeWhileD)
  have tu: "tokens ?p u = t # tokens ?p s'"
  proof (cases "dropWhile ?np u")
    case Nil
    then have "u = t" using t by (metis append.right_neutral takeWhile_dropWhile_id)
    moreover have "s' = []" unfolding s' Nil by simp
    ultimately show ?thesis using tns tne by (simp add: tokens_last)
  next
    case (Cons x r)
    then have "?p x" using hd_dropWhile [of ?np u] by auto
    moreover have "u = t @ x # s'" using t s' Cons by (metis drop_0 drop_Suc_Cons One_nat_def takeWhile_dropWhile_id)
    ultimately show ?thesis using tns tne by (simp add: tokens_step)
  qed
  then show "tokens ?p s = t # tokens ?p s'" by (simp add: u_def tokens_dropWhile)
  have "length (dropWhile ?np u) < length u"
    using tne t by (metis length_greater_0_conv length_append less_add_same_cancel2 takeWhile_dropWhile_id)
  moreover have "length s' \<le> length (dropWhile ?np u)"
    unfolding s' length_drop by (rule diff_le_self)
  moreover have "length u \<le> length s"
    unfolding u_def by (rule length_dropWhile_le)
  ultimately show "length s' < length s" by linarith
qed

interpretation strtok: tokenizer "\<lambda>c. c \<in> set d" "strtok_next d" "\<lambda>s. s"
  for d
proof unfold_locales
  fix s
  show "strtok_next d s = None \<Longrightarrow> tokens (\<lambda>c. c \<in> set d) s = []"
    by (rule strtok_next_None)
next
  fix s t s'
  assume "strtok_next d s = Some (t, s')"
  then show "tokens (\<lambda>c. c \<in> set d) s = t # tokens (\<lambda>c. c \<in> set d) s'"
    and "length s' < length s"
    by (rule strtok_next_Some)+
qed

lemma strtok_r_Some: "strtok_r (Some s) d olds = strtok_r None d s"
  by (simp add: strtok_r_def)

lemma strtok_r_tokens:
  "case strtok_r None '':'' s of
     (None, _) \<Rightarrow> tokens (\<lambda>c. c = colon) s = []
   | (Some t, s') \<Rightarrow> tokens (\<lambda>c. c = colon) s = t # tokens (\<lambda>c. c = colon) s' \<and> length s' < length s"
  using strtok.next_None [of "'':''" s] strtok.next_Some [of "'':''" s] strtok.next_shorter [of "'':''" s]
  by (auto simp: strtok_next_def split: prod.splits option.splits)

text \<open>
  \<open>strsep\<close> of the loader (elf/dl-minimal.c): scan to the first delimiter and cut there;
  the stored pointer is \<open>None\<close> after the last field.  The delimiter list must not be
  empty.
\<close>

fun strsep_scan :: "string \<Rightarrow> string \<Rightarrow> string \<times> string option" where
  "strsep_scan delim [] = ([], None)"
| "strsep_scan delim (c # cs) =
     (if c \<in> set delim then ([], Some cs)
      else (case strsep_scan delim cs of (field, end) \<Rightarrow> (c # field, end)))"

definition strsep :: "string option \<Rightarrow> string \<Rightarrow> (string option \<times> string option) res" where
  "strsep stringp delim =
     (if delim = [] then Inl Assert_fail
      else Inr (case stringp of
          None \<Rightarrow> (None, None)
        | Some begin' \<Rightarrow> (case strsep_scan delim begin' of (field, end) \<Rightarrow> (Some field, end))))"

lemma strsep_scan_split:
  "split_on (\<lambda>c. c \<in> set d) s =
     (case strsep_scan d s of (f, None) \<Rightarrow> [f] | (f, Some r) \<Rightarrow> f # split_on (\<lambda>c. c \<in> set d) r)"
  by (induction s) (auto split: prod.splits option.splits)

lemma strsep_scan_length: "strsep_scan d s = (f, Some r) \<Longrightarrow> length r < length s"
  by (induction s arbitrary: f) (auto split: if_splits prod.splits simp: less_SucI)

end
