(* ===== verification/Numconv.thy ===== *)
theory Numconv
  imports CString
begin

text \<open>
  Numeric conversion: \<open>strtol\<close> (stdlib/strtol_l.c, the \<open>char\<close>, \<open>long\<close>, ungrouped instance on
  a 64-bit machine in the C locale), the loader's early \<open>_dl_strtoul\<close> (elf/dl-misc.c) and
  its \<open>_itoa\<close> (elf/dl-minimal.c).  Both parsers keep the 64-bit accumulator of the code.
  The lemmas give the value each returns for every digit string: \<open>strtol\<close> clamps to the
  range of \<open>long\<close> and reports \<open>ERANGE\<close>; \<open>_dl_strtoul\<close> gives up too early near the top of
  its range.
\<close>

section \<open>Character classes of the C locale\<close>

abbreviation ord :: "char \<Rightarrow> nat" where
  "ord c \<equiv> of_char c"

definition isspace :: "char \<Rightarrow> bool" where
  "isspace c \<longleftrightarrow> ord c = 32 \<or> (9 \<le> ord c \<and> ord c \<le> 13)"

definition isdigit :: "char \<Rightarrow> bool" where
  "isdigit c \<longleftrightarrow> 48 \<le> ord c \<and> ord c \<le> 57"

definition isalpha :: "char \<Rightarrow> bool" where
  "isalpha c \<longleftrightarrow> (65 \<le> ord c \<and> ord c \<le> 90) \<or> (97 \<le> ord c \<and> ord c \<le> 122)"

definition toupper :: "char \<Rightarrow> char" where
  "toupper c = (if 97 \<le> ord c \<and> ord c \<le> 122 then char_of (ord c - 32) else c)"

section \<open>strtol\<close>

datatype errno = EINVAL | ERANGE

record strtol_result =
  ret_val :: int
  endptr :: "string option"       \<comment> \<open>\<open>None\<close>: \<open>*endptr\<close> is left unset\<close>
  err :: "errno option"

text \<open>The value of a digit character, as the conversion loop computes it.\<close>

definition digit_value :: "char \<Rightarrow> nat option" where
  "digit_value c =
     (if 48 \<le> ord c \<and> ord c \<le> 57 then Some (ord c - 48)
      else if isalpha c then Some (ord (toupper c) - 65 + 10)
      else None)"

text \<open>\<open>cutoff_tab[base - 2]\<close> and \<open>cutlim_tab[base - 2]\<close>: quotient and remainder of
  \<open>ULONG_MAX\<close> by the base.\<close>

definition ULONG_MAX :: nat where
  "ULONG_MAX = 2 ^ 64 - 1"

definition cutoff :: "nat \<Rightarrow> 64 word" where
  "cutoff base = of_nat (ULONG_MAX div base)"

definition cutlim :: "nat \<Rightarrow> nat" where
  "cutlim base = ULONG_MAX mod base"

fun strtol_loop :: "nat \<Rightarrow> 64 word \<Rightarrow> bool \<Rightarrow> string \<Rightarrow> 64 word \<times> bool \<times> string" where
  "strtol_loop base i overflow [] = (i, overflow, [])"
| "strtol_loop base i overflow (c # s) =
     (case digit_value c of
        None \<Rightarrow> (i, overflow, c # s)
      | Some d \<Rightarrow>
          if base \<le> d then (i, overflow, c # s)
          else if cutoff base < i \<or> (i = cutoff base \<and> cutlim base < d)
          then strtol_loop base i True s
          else strtol_loop base (i * of_nat base + of_nat d) overflow s)"

definition strtol_noconv :: "string \<Rightarrow> string \<Rightarrow> strtol_result" where
  "strtol_noconv nptr save =
     (let off = length nptr - length save in
      \<lparr>ret_val = 0,
       endptr = Some (if 2 \<le> off \<and> toupper (nptr ! (off - 1)) = CHR ''X'' \<and> nptr ! (off - 2) = CHR ''0''
                      then drop (off - 1) nptr
                      else nptr),
       err = None\<rparr>)"

definition strtol_prefix :: "int \<Rightarrow> string \<Rightarrow> int \<times> string" where
  "strtol_prefix base s =
     (if cget s 0 = CHR ''0'' then
        if (base = 0 \<or> base = 16) \<and> toupper (cget s 1) = CHR ''X'' then (16, drop 2 s)
        else if base = 0 then (8, s)
        else (base, s)
      else if base = 0 then (10, s)
      else (base, s))"

definition strtol_finish :: "bool \<Rightarrow> 64 word \<Rightarrow> bool \<Rightarrow> string \<Rightarrow> strtol_result" where
  "strtol_finish negative i overflow s =
     (let overflow = (overflow \<or> i > (if negative then 2 ^ 63 else 2 ^ 63 - 1)) in
      if overflow
      then \<lparr>ret_val = (if negative then - (2 ^ 63) else 2 ^ 63 - 1), endptr = Some s, err = Some ERANGE\<rparr>
      else \<lparr>ret_val = sint (if negative then - i else i), endptr = Some s, err = None\<rparr>)"

definition strtol :: "string \<Rightarrow> int \<Rightarrow> strtol_result" where
  "strtol nptr base =
     (if base < 0 \<or> base = 1 \<or> base > 36
      then \<lparr>ret_val = 0, endptr = None, err = Some EINVAL\<rparr>
      else
        let s = dropWhile isspace nptr in
        if s = [] then strtol_noconv nptr nptr
        else
          let negative = (cget s 0 = CHR ''-'');
              s = (if cget s 0 = CHR ''-'' \<or> cget s 0 = CHR ''+'' then tl s else s);
              (base, save) = strtol_prefix base s;
              (i, overflow, s) = strtol_loop (nat base) 0 False save
          in if s = save then strtol_noconv nptr save
             else strtol_finish negative i overflow s)"

subsection \<open>The value of a digit string\<close>

definition digits_value :: "nat \<Rightarrow> nat \<Rightarrow> string \<Rightarrow> nat" where
  "digits_value base v ds = foldl (\<lambda>a c. a * base + the (digit_value c)) v ds"

definition is_digits :: "nat \<Rightarrow> string \<Rightarrow> bool" where
  "is_digits base ds \<longleftrightarrow> (\<forall>c \<in> set ds. \<exists>d. digit_value c = Some d \<and> d < base)"

definition stops_at :: "nat \<Rightarrow> string \<Rightarrow> bool" where
  "stops_at base rest \<longleftrightarrow>
     (case rest of [] \<Rightarrow> True | c # _ \<Rightarrow> (case digit_value c of None \<Rightarrow> True | Some d \<Rightarrow> base \<le> d))"

lemma digits_value_simps [simp]:
  "digits_value base v [] = v"
  "digits_value base v (c # ds) = digits_value base (v * base + the (digit_value c)) ds"
  by (simp_all add: digits_value_def)

lemma is_digits_Cons [simp]:
  "is_digits base (c # ds) \<longleftrightarrow> (\<exists>d. digit_value c = Some d \<and> d < base) \<and> is_digits base ds"
  "is_digits base []"
  by (auto simp: is_digits_def)

lemma digits_value_ge: "0 < base \<Longrightarrow> v \<le> digits_value base v ds"
proof (induction ds arbitrary: v)
  case Nil
  then show ?case by simp
next
  case (Cons c ds)
  have "v \<le> v * base + the (digit_value c)" using Cons.prems by (simp add: trans_le_add1)
  also have "\<dots> \<le> digits_value base (v * base + the (digit_value c)) ds" using Cons by blast
  finally show ?case by simp
qed

lemma ULONG_MAX_eq: "ULONG_MAX = 18446744073709551615"
  by (simp add: ULONG_MAX_def)

lemma unat64_less [simp]: "unat (i :: 64 word) < 2 ^ 64"
  using unsigned_less [of i, where ?'a = nat] by simp

lemma unat64_of_nat: "n < 2 ^ 64 \<Longrightarrow> unat (of_nat n :: 64 word) = n"
  by (simp add: unat_of_nat take_bit_nat_eq_self_iff)

lemma unat_cutoff: "0 < base \<Longrightarrow> unat (cutoff base) = ULONG_MAX div base"
proof -
  have "ULONG_MAX div base < 2 ^ 64"
    by (rule le_less_trans [OF div_le_dividend]) (simp add: ULONG_MAX_def)
  then show ?thesis by (simp add: cutoff_def unat64_of_nat)
qed

text \<open>The overflow test of the loop is exact.\<close>

lemma cutoff_exact:
  assumes "0 < base" "d < base"
  shows "cutoff base < i \<or> (i = cutoff base \<and> cutlim base < d) \<longleftrightarrow> ULONG_MAX < unat i * base + d"
proof -
  let ?q = "ULONG_MAX div base" and ?r = "ULONG_MAX mod base"
  have dm: "ULONG_MAX = ?q * base + ?r" by simp
  have r: "?r < base" using assms by simp
  have iff: "cutoff base < i \<longleftrightarrow> ?q < unat i" "i = cutoff base \<longleftrightarrow> unat i = ?q"
    using unat_cutoff [OF assms(1)] by (auto simp: word_less_nat_alt word_unat_eq_iff)
  consider "unat i < ?q" | "unat i = ?q" | "?q < unat i" by linarith
  then show ?thesis
  proof cases
    case 1
    then have "Suc (unat i) * base \<le> ?q * base" by (intro mult_le_mono1) simp
    then have "unat i * base + d < ?q * base" using assms(2) by simp
    then have "\<not> ULONG_MAX < unat i * base + d" using dm by linarith
    with 1 iff show ?thesis by simp
  next
    case 2
    then have "cutoff base < i \<or> (i = cutoff base \<and> cutlim base < d) \<longleftrightarrow> ?r < d"
      using iff by (simp add: cutlim_def)
    also have "\<dots> \<longleftrightarrow> ULONG_MAX < unat i * base + d"
      unfolding 2 using dm by linarith
    finally show ?thesis .
  next
    case 3
    then have "Suc ?q * base \<le> unat i * base" by (intro mult_le_mono1) simp
    then have "?q * base + base \<le> unat i * base" by simp
    then have "ULONG_MAX < unat i * base + d" using dm r by linarith
    with 3 iff show ?thesis by simp
  qed
qed

lemma unat_mult_add:
  "unat (i :: 64 word) * base + d \<le> ULONG_MAX \<Longrightarrow>
   unat (i * of_nat base + of_nat d) = unat i * base + d"
proof -
  assume "unat i * base + d \<le> ULONG_MAX"
  then have "unat i * base + d < 2 ^ 64" by (simp add: ULONG_MAX_def)
  then have "unat (of_nat (unat i * base + d) :: 64 word) = unat i * base + d"
    by (rule unat64_of_nat)
  then show ?thesis by simp
qed

lemma strtol_loop_digits:
  assumes "0 < base" "is_digits base ds" "stops_at base rest"
  shows "if digits_value base (unat i) ds \<le> ULONG_MAX
         then strtol_loop base i overflow (ds @ rest) =
           (of_nat (digits_value base (unat i) ds), overflow, rest)
         else \<exists>j. strtol_loop base i overflow (ds @ rest) = (j, True, rest)"
  using assms
proof (induction ds arbitrary: i overflow)
  case Nil
  have "unat i \<le> ULONG_MAX" using unat64_less [of i] by (simp add: ULONG_MAX_eq)
  with Nil show ?case
    by (cases rest) (auto simp: stops_at_def split: option.splits)
next
  case (Cons c ds)
  then obtain d where d: "digit_value c = Some d" "d < base" by auto
  show ?case
  proof (cases "ULONG_MAX < unat i * base + d")
    case True
    then have big: "ULONG_MAX < digits_value base (unat i * base + d) ds"
      using digits_value_ge [OF \<open>0 < base\<close>] less_le_trans by blast
    have "\<exists>j. strtol_loop base i True (ds @ rest) = (j, True, rest)"
      using Cons.IH [of i True] Cons.prems by (auto split: if_splits)
    moreover have "strtol_loop base i overflow ((c # ds) @ rest) = strtol_loop base i True (ds @ rest)"
      using True d cutoff_exact [OF \<open>0 < base\<close> \<open>d < base\<close>, of i] by auto
    ultimately show ?thesis using big d by simp
  next
    case False
    let ?i = "i * of_nat base + of_nat d"
    have "strtol_loop base i overflow ((c # ds) @ rest) = strtol_loop base ?i overflow (ds @ rest)"
      using False d cutoff_exact [OF \<open>0 < base\<close> \<open>d < base\<close>, of i] by auto
    moreover have "unat ?i = unat i * base + d"
      using False by (intro unat_mult_add) simp
    ultimately show ?thesis
      using Cons.IH [of ?i overflow] Cons.prems d by simp
  qed
qed

text \<open>What \<open>strtol\<close> is meant to return for a value \<open>v\<close> with a sign.\<close>

definition strtol_spec :: "bool \<Rightarrow> nat \<Rightarrow> string \<Rightarrow> strtol_result" where
  "strtol_spec negative v rest =
     (let x = (if negative then - int v else int v) in
      if - (2 ^ 63) \<le> x \<and> x < 2 ^ 63 then \<lparr>ret_val = x, endptr = Some rest, err = None\<rparr>
      else \<lparr>ret_val = (if negative then - (2 ^ 63) else 2 ^ 63 - 1), endptr = Some rest, err = Some ERANGE\<rparr>)"

lemma sint_of_nat64: "v < 2 ^ 63 \<Longrightarrow> sint (of_nat v :: 64 word) = int v"
  by (simp add: signed_of_nat signed_take_bit_int_eq_self_iff)

lemma sint_minus_of_nat64: "v \<le> 2 ^ 63 \<Longrightarrow> sint (- (of_nat v :: 64 word)) = - int v"
proof -
  assume v: "v \<le> 2 ^ 63"
  have "sint (- (of_nat v :: 64 word)) = sint (word_of_int (- int v) :: 64 word)" by simp
  also have "\<dots> = signed_take_bit 63 (- int v)" by (simp only: sint_sbintrunc') simp
  also have "\<dots> = - int v" using v by (simp add: signed_take_bit_int_eq_self_iff)
  finally show ?thesis .
qed

lemma strtol_finish_spec:
  assumes "v \<le> ULONG_MAX"
  shows "strtol_finish negative (of_nat v) False rest = strtol_spec negative v rest"
proof -
  have v: "unat (of_nat v :: 64 word) = v"
    using assms by (intro unat64_of_nat) (simp add: ULONG_MAX_def)
  have lim: "unat (2 ^ 63 :: 64 word) = 2 ^ 63" "unat (2 ^ 63 - 1 :: 64 word) = 2 ^ 63 - 1"
    by simp_all
  show ?thesis
    using v lim sint_of_nat64 [of v] sint_minus_of_nat64 [of v]
    by (auto simp: strtol_finish_def strtol_spec_def Let_def word_less_nat_alt not_less)
qed

lemma digit_not_space: "digit_value c = Some d \<Longrightarrow> \<not> isspace c"
  by (auto simp: digit_value_def isspace_def isalpha_def split: if_splits)

lemma digit_not_sign: "digit_value c = Some d \<Longrightarrow> c \<noteq> CHR ''-'' \<and> c \<noteq> CHR ''+''"
  by (auto simp: digit_value_def isalpha_def split: if_splits)

lemma dropWhile_space:
  assumes "\<forall>c \<in> set ws. isspace c" "s \<noteq> []" "\<not> isspace (hd s)"
  shows "dropWhile isspace (ws @ s) = s"
proof -
  have "dropWhile isspace (ws @ s) = dropWhile isspace s"
    using assms(1) by (intro dropWhile_append2) auto
  then show ?thesis using assms(2,3) by (cases s) auto
qed

lemma strtol_after_sign:
  assumes base: "2 \<le> base" "base \<le> 36"
    and ds: "ds \<noteq> []" "is_digits base ds" "stops_at base rest"
    and hex: "base = 16 \<Longrightarrow> cget ds 0 = CHR ''0'' \<Longrightarrow> toupper (cget (ds @ rest) 1) \<noteq> CHR ''X''"
  obtains i overflow where
    "strtol_prefix (int base) (ds @ rest) = (int base, ds @ rest)"
    "strtol_loop base 0 False (ds @ rest) = (i, overflow, rest)"
    "strtol_finish negative i overflow rest = strtol_spec negative (digits_value base 0 ds) rest"
proof -
  obtain c ds' where c: "ds = c # ds'" using ds(1) by (cases ds) auto
  have pre: "strtol_prefix (int base) (ds @ rest) = (int base, ds @ rest)"
    using base hex c by (auto simp: strtol_prefix_def)
  let ?v = "digits_value base 0 ds"
  have loop: "if ?v \<le> ULONG_MAX then strtol_loop base 0 False (ds @ rest) = (of_nat ?v, False, rest)
      else \<exists>j. strtol_loop base 0 False (ds @ rest) = (j, True, rest)"
    using strtol_loop_digits [OF _ ds(2,3), of 0 False] base by simp
  show thesis
  proof (cases "?v \<le> ULONG_MAX")
    case True
    show thesis
      by (rule that [of "of_nat ?v" False]) (use True loop pre in \<open>simp_all add: strtol_finish_spec\<close>)
  next
    case False
    with loop obtain j where j: "strtol_loop base 0 False (ds @ rest) = (j, True, rest)" by auto
    have "strtol_finish negative j True rest = strtol_spec negative ?v rest"
      using False by (auto simp: strtol_finish_def strtol_spec_def ULONG_MAX_def)
    with j pre that show thesis by blast
  qed
qed

lemma strtol_correct:
  assumes base: "2 \<le> base" "base \<le> 36"
    and ws: "\<forall>c \<in> set ws. isspace c"
    and sign: "sign \<in> {[], ''-'', ''+''}"
    and ds: "ds \<noteq> []" "is_digits base ds" "stops_at base rest"
    and hex: "base = 16 \<Longrightarrow> cget ds 0 = CHR ''0'' \<Longrightarrow> toupper (cget (ds @ rest) 1) \<noteq> CHR ''X''"
  shows "strtol (ws @ sign @ ds @ rest) (int base) =
    strtol_spec (sign = ''-'') (digits_value base 0 ds) rest"
proof -
  obtain c ds' where c: "ds = c # ds'" using ds(1) by (cases ds) auto
  with ds(2) obtain d where d: "digit_value c = Some d" by auto
  have nosp: "\<not> isspace (hd (sign @ ds @ rest))"
    using sign digit_not_space [OF d] c by (auto simp: isspace_def)
  have skip: "dropWhile isspace (ws @ sign @ ds @ rest) = sign @ ds @ rest"
    using ws nosp c by (intro dropWhile_space) auto
  have signs: "cget (sign @ ds @ rest) 0 = CHR ''-'' \<longleftrightarrow> sign = ''-''"
    "(if cget (sign @ ds @ rest) 0 = CHR ''-'' \<or> cget (sign @ ds @ rest) 0 = CHR ''+''
      then tl (sign @ ds @ rest) else sign @ ds @ rest) = ds @ rest"
    using sign c digit_not_sign [OF d] by auto
  obtain i overflow where body:
    "strtol_prefix (int base) (ds @ rest) = (int base, ds @ rest)"
    "strtol_loop base 0 False (ds @ rest) = (i, overflow, rest)"
    "strtol_finish (sign = ''-'') i overflow rest =
       strtol_spec (sign = ''-'') (digits_value base 0 ds) rest"
    using strtol_after_sign [OF base ds hex] by blast
  have "sign @ ds @ rest \<noteq> []" "rest \<noteq> ds @ rest" using c by auto
  then show ?thesis
    unfolding strtol_def Let_def skip signs(2)
    unfolding signs(1) using base body by simp
qed

section \<open>The loader's early parser\<close>

definition UINT64_MAX :: "64 word" where
  "UINT64_MAX = - 1"

definition dl_digval :: "nat \<Rightarrow> nat \<Rightarrow> char \<Rightarrow> nat option" where
  "dl_digval base max_digit c =
     (if 48 \<le> ord c \<and> ord c \<le> 48 + max_digit then Some (ord c - 48)
      else if base = 16 then
        if 97 \<le> ord c \<and> ord c \<le> 102 then Some (ord c - 97 + 10)
        else if 65 \<le> ord c \<and> ord c \<le> 70 then Some (ord c - 65 + 10)
        else None
      else None)"

text \<open>The loop returns \<open>UINT64_MAX\<close> at once, before the sign is applied, when its bounds
  check fires; the boolean says whether it did.\<close>

fun dl_strtoul_loop :: "nat \<Rightarrow> nat \<Rightarrow> 64 word \<Rightarrow> string \<Rightarrow> 64 word \<times> bool \<times> string" where
  "dl_strtoul_loop base max_digit result [] = (result, False, [])"
| "dl_strtoul_loop base max_digit result (c # nptr) =
     (case dl_digval base max_digit c of
        None \<Rightarrow> (result, False, c # nptr)
      | Some digval \<Rightarrow>
          if (UINT64_MAX - of_nat digval) div of_nat base \<le> result
          then (UINT64_MAX, True, c # nptr)
          else dl_strtoul_loop base max_digit (result * of_nat base + of_nat digval) nptr)"

definition dl_strtoul :: "string \<Rightarrow> 64 word \<times> string" where
  "dl_strtoul nptr =
     (let nptr = dropWhile (\<lambda>c. c = CHR '' '' \<or> c = CHR 0x09) nptr;
          positive = (cget nptr 0 \<noteq> CHR ''-'');
          nptr = (if cget nptr 0 = CHR ''-'' \<or> cget nptr 0 = CHR ''+'' then tl nptr else nptr)
      in
      if \<not> (48 \<le> ord (cget nptr 0) \<and> ord (cget nptr 0) \<le> 57) then (0, nptr)
      else
        let (base, max_digit, nptr) =
              (if cget nptr 0 = CHR ''0'' then
                 if cget nptr 1 = CHR ''x'' \<or> cget nptr 1 = CHR ''X'' then (16, 9, drop 2 nptr)
                 else (8, 7, nptr)
               else (10, 9, nptr));
            (result, saturated, nptr) = dl_strtoul_loop base max_digit 0 nptr
        in if saturated then (result, nptr)
           else (if positive then result else - result, nptr))"

lemma dl_digval_value:
  "dl_digval 8 7 c = Some d \<longleftrightarrow> digit_value c = Some d \<and> d < 8"
  "dl_digval 10 9 c = Some d \<longleftrightarrow> digit_value c = Some d \<and> d < 10"
  "dl_digval 16 9 c = Some d \<longleftrightarrow> digit_value c = Some d \<and> d < 16"
  by (auto simp: dl_digval_def digit_value_def isalpha_def toupper_def of_char_of)

text \<open>The bounds check fires exactly when fewer than \<open>base\<close> values are left above the new one.\<close>

lemma dl_strtoul_check:
  assumes "0 < base" "base \<le> 16" "d < base"
  shows "(UINT64_MAX - of_nat d) div of_nat base \<le> (r :: 64 word) \<longleftrightarrow>
    ULONG_MAX < unat r * base + d + base"
proof -
  have u: "unat (of_nat d :: 64 word) = d" "unat (of_nat base :: 64 word) = base"
    using assms by (auto intro!: unat64_of_nat)
  have m: "unat UINT64_MAX = ULONG_MAX"
    by (simp add: UINT64_MAX_def ULONG_MAX_def unsigned_minus_1_eq_mask mask_eq_exp_minus_1)
  have "of_nat d \<le> UINT64_MAX"
    using u m assms by (simp add: word_le_nat_alt ULONG_MAX_eq)
  then have "unat (UINT64_MAX - of_nat d) = ULONG_MAX - d"
    using u m by (simp add: unat_sub)
  then have q: "unat ((UINT64_MAX - of_nat d) div of_nat base) = (ULONG_MAX - d) div base"
    using u by (simp add: unat_div)
  have "(ULONG_MAX - d) div base \<le> unat r \<longleftrightarrow> ULONG_MAX - d < Suc (unat r) * base"
    using assms by (simp add: less_mult_imp_div_less div_less_iff_less_mult flip: less_Suc_eq_le)
  also have "\<dots> \<longleftrightarrow> ULONG_MAX < unat r * base + d + base"
    using assms by (auto simp: ULONG_MAX_eq)
  finally show ?thesis using q by (simp add: word_le_nat_alt)
qed

lemma dl_strtoul_loop_digits:
  assumes base: "(base, m) \<in> {(8, 7), (10, 9), (16, 9)}"
    and ds: "is_digits base ds" "stops_at base rest"
    and start: "unat r + base \<le> ULONG_MAX"
  shows "if digits_value base (unat r) ds + base \<le> ULONG_MAX
         then dl_strtoul_loop base m r (ds @ rest) = (of_nat (digits_value base (unat r) ds), False, rest)
         else \<exists>e. dl_strtoul_loop base m r (ds @ rest) = (UINT64_MAX, True, e)"
  using ds start
proof (induction ds arbitrary: r)
  case Nil
  have "dl_strtoul_loop base m r rest = (r, False, rest)"
  proof (cases rest)
    case (Cons c cs)
    have "dl_digval base m c = None"
      using Nil.prems(2) base Cons
      by (cases "dl_digval base m c") (auto simp: stops_at_def dl_digval_value split: option.splits)
    then show ?thesis by (simp add: Cons)
  qed simp
  with Nil.prems show ?case by simp
next
  case (Cons c ds)
  then obtain d where d: "digit_value c = Some d" "d < base" by auto
  then have dv: "dl_digval base m c = Some d" using base by (auto simp: dl_digval_value)
  have b: "0 < base" "base \<le> 16" using base by auto
  note check = dl_strtoul_check [OF b d(2), of r]
  show ?case
  proof (cases "unat r * base + d + base \<le> ULONG_MAX")
    case True
    let ?r = "r * of_nat base + of_nat d"
    have u: "unat ?r = unat r * base + d" using True by (intro unat_mult_add) simp
    with Cons.IH [of ?r] Cons.prems True d dv check show ?thesis by simp
  next
    case False
    then have "ULONG_MAX < digits_value base (unat r * base + d) ds + base"
      using digits_value_ge [OF b(1), of "unat r * base + d" ds] by linarith
    with False d dv check show ?thesis by simp
  qed
qed

section \<open>Printing a number\<close>

text \<open>
  \<open>_itoa\<close> of elf/dl-minimal.c writes the digits right to left.  A base of 0 divides by
  zero, base 1 never reaches zero and runs off the front of the buffer, and a digit of 16 or
  more is read past the end of \<open>_itoa_lower_digits\<close>.
\<close>

definition itoa_lower_digits :: string where
  "itoa_lower_digits = ''0123456789abcdef''"

function itoa_loop :: "nat \<Rightarrow> nat \<Rightarrow> string \<Rightarrow> string res" where
  "itoa_loop base val buflim =
     (if base < 2 then Inl Oob_write
      else if 16 \<le> val mod base then Inl Oob_read
      else
        let buflim = itoa_lower_digits ! (val mod base) # buflim in
        if val div base \<noteq> 0 then itoa_loop base (val div base) buflim else Inr buflim)"
  by pat_completeness auto
termination
  by (relation "measure (\<lambda>(base, val, buflim). val)") (auto simp: div_eq_0_iff)

declare itoa_loop.simps [simp del]

definition itoa :: "nat \<Rightarrow> nat \<Rightarrow> bool \<Rightarrow> string res" where
  "itoa val base upper_case = (if upper_case then Inl Assert_fail else itoa_loop base val [])"

lemma digit_value_lower: "k < 16 \<Longrightarrow> digit_value (itoa_lower_digits ! k) = Some k"
proof -
  assume "k < 16"
  moreover have "list_all (\<lambda>k. digit_value (itoa_lower_digits ! k) = Some k) [0..<16]"
    by code_simp
  ultimately show ?thesis by (auto simp: list_all_iff)
qed

lemma digits_value_append:
  "digits_value base v (xs @ ys) = digits_value base (digits_value base v xs) ys"
  by (simp add: digits_value_def)

lemma itoa_loop_digits:
  assumes "2 \<le> base" "base \<le> 16"
  shows "\<exists>ds. itoa_loop base v buf = Inr (ds @ buf) \<and> ds \<noteq> [] \<and> is_digits base ds \<and>
    digits_value base 0 ds = v \<and> (v \<noteq> 0 \<longrightarrow> hd ds \<noteq> CHR ''0'')"
  using assms
proof (induction base v buf rule: itoa_loop.induct)
  case (1 base v buf)
  let ?c = "itoa_lower_digits ! (v mod base)"
  have c: "digit_value ?c = Some (v mod base)" and lt: "v mod base < base"
    using 1(2,3) by (auto intro!: digit_value_lower less_le_trans [OF mod_less_divisor])
  have ok: "\<not> base < 2" "\<not> 16 \<le> v mod base"
    using 1(2) less_le_trans [OF lt 1(3)] by auto
  show ?case
  proof (cases "v div base = 0")
    case True
    have "?c \<noteq> CHR ''0''" if "v \<noteq> 0"
    proof
      assume "?c = CHR ''0''"
      then have "v mod base = 0" using c by (simp add: digit_value_def)
      with True that show False by (metis add.left_neutral mod_mult_div_eq mult_0_right)
    qed
    with True ok c lt show ?thesis
      by (intro exI [of _ "[?c]"]) (auto simp: itoa_loop.simps [of base v] div_eq_0_iff)
  next
    case False
    then obtain ds where ds: "itoa_loop base (v div base) (?c # buf) = Inr (ds @ ?c # buf)"
      "ds \<noteq> []" "is_digits base ds" "digits_value base 0 ds = v div base" "hd ds \<noteq> CHR ''0''"
      using "1.IH" ok 1(2,3) by auto
    have "itoa_loop base v buf = Inr ((ds @ [?c]) @ buf)"
      using ds(1) ok False by (simp add: itoa_loop.simps [of base v])
    moreover have "is_digits base (ds @ [?c])" using ds(3) c lt by (auto simp: is_digits_def)
    moreover have "digits_value base 0 (ds @ [?c]) = v"
      using ds(4) c by (simp add: digits_value_append)
    ultimately show ?thesis using ds(2,5) by (intro exI [of _ "ds @ [?c]"]) simp
  qed
qed

lemma itoa_decimal:
  obtains ds where "itoa v 10 False = Inr ds" "ds \<noteq> []" "is_digits 10 ds" "digits_value 10 0 ds = v"
    "v \<noteq> 0 \<Longrightarrow> hd ds \<noteq> CHR ''0''"
proof -
  have "\<exists>ds. itoa v 10 False = Inr ds \<and> ds \<noteq> [] \<and> is_digits 10 ds \<and> digits_value 10 0 ds = v \<and>
      (v \<noteq> 0 \<longrightarrow> hd ds \<noteq> CHR ''0'')"
    using itoa_loop_digits [of 10 v "[]"] by (simp add: itoa_def)
  then show thesis using that by blast
qed

lemma dl_strtoul_decimal_digits:
  assumes "ds \<noteq> []" "is_digits 10 ds" "hd ds \<noteq> CHR ''0''" "stops_at 10 rest"
  shows "if digits_value 10 0 ds \<le> 2 ^ 64 - 1 - 10
         then dl_strtoul (ds @ rest) = (of_nat (digits_value 10 0 ds), rest)
         else fst (dl_strtoul (ds @ rest)) = UINT64_MAX"
proof -
  obtain c ds' where c: "ds = c # ds'" using assms(1) by (cases ds) auto
  with assms(2) obtain d where d: "digit_value c = Some d" "d < 10" by auto
  have r: "48 \<le> ord c" "ord c \<le> 57"
    using d by (auto simp: digit_value_def isalpha_def toupper_def of_char_of split: if_splits)
  have ns: "c \<noteq> CHR '' ''" "c \<noteq> CHR 0x09" "c \<noteq> CHR ''-''" "c \<noteq> CHR ''+''"
    using r by auto
  have top: "dl_strtoul (ds @ rest) =
      (case dl_strtoul_loop 10 9 0 (ds @ rest) of (res, sat, e) \<Rightarrow> (res, e))"
    using r ns c assms(3) by (simp add: dl_strtoul_def split: prod.splits)
  have "if digits_value 10 (unat (0 :: 64 word)) ds + 10 \<le> ULONG_MAX
      then dl_strtoul_loop 10 9 0 (ds @ rest) = (of_nat (digits_value 10 (unat (0 :: 64 word)) ds), False, rest)
      else \<exists>e. dl_strtoul_loop 10 9 0 (ds @ rest) = (UINT64_MAX, True, e)"
    by (rule dl_strtoul_loop_digits) (use assms in \<open>simp_all add: ULONG_MAX_eq\<close>)
  then show ?thesis using top by (auto simp: ULONG_MAX_eq split: if_splits)
qed

section \<open>What the parsers return\<close>

text \<open>C39: \<open>strtol\<close> on white space, a sign, digits of the base and then something that is not a
  digit returns the number the digits denote, with the sign, clamped to the range of
  \<open>long\<close>; it reports \<open>ERANGE\<close> exactly when it clamped, and \<open>*endptr\<close> is what follows the
  digits.\<close>

theorem strtol_value:
  assumes "2 \<le> base" "base \<le> 36" "\<forall>c \<in> set ws. isspace c" "sign \<in> {[], ''-'', ''+''}"
    and "ds \<noteq> []" "is_digits base ds" "stops_at base rest"
    and "base = 16 \<Longrightarrow> cget ds 0 = CHR ''0'' \<Longrightarrow> toupper (cget (ds @ rest) 1) \<noteq> CHR ''X''"
  shows "strtol (ws @ sign @ ds @ rest) (int base) =
    strtol_spec (sign = ''-'') (digits_value base 0 ds) rest"
  using assms by (rule strtol_correct)

theorem strtol_value_witness:
  "strtol ('' '' @ ''-'' @ ''9223372036854775809'' @ '':4'') (int 10) =
    \<lparr>ret_val = - 9223372036854775808, endptr = Some '':4'', err = Some ERANGE\<rparr>"
proof -
  have "strtol ('' '' @ ''-'' @ ''9223372036854775809'' @ '':4'') (int 10) =
      strtol_spec (''-'' = ''-'') (digits_value 10 0 ''9223372036854775809'') '':4''"
    by (rule strtol_value) (simp_all add: isspace_def digit_value_def isalpha_def stops_at_def)
  also have "\<dots> = \<lparr>ret_val = - 9223372036854775808, endptr = Some '':4'', err = Some ERANGE\<rparr>"
    by (simp add: strtol_spec_def digit_value_def)
  finally show ?thesis .
qed

text \<open>\<open>_dl_strtoul\<close> on a decimal number (no leading zero) returns its value as long as it is
  at most \<open>UINT64_MAX - 10\<close>; from there on it returns \<open>UINT64_MAX\<close>, also for the ten largest
  numbers that still fit.\<close>

theorem dl_strtoul_decimal:
  assumes "ds \<noteq> []" "is_digits 10 ds" "hd ds \<noteq> CHR ''0''" "stops_at 10 rest"
  shows "if digits_value 10 0 ds \<le> 2 ^ 64 - 1 - 10
         then dl_strtoul (ds @ rest) = (of_nat (digits_value 10 0 ds), rest)
         else fst (dl_strtoul (ds @ rest)) = UINT64_MAX"
  using assms by (rule dl_strtoul_decimal_digits)

theorem dl_strtoul_decimal_witness:
  "fst (dl_strtoul ''18446744073709551606'') = UINT64_MAX \<and> dl_strtoul ''42:'' = (42, '':'')"
proof
  have "fst (dl_strtoul (''18446744073709551606'' @ [])) = UINT64_MAX"
    using dl_strtoul_decimal [of "''18446744073709551606''" "[]"]
    by (simp add: digit_value_def stops_at_def del: append_Nil2)
  then show "fst (dl_strtoul ''18446744073709551606'') = UINT64_MAX" by simp
  have "dl_strtoul (''42'' @ '':'') = (42, '':'')"
    using dl_strtoul_decimal [of "''42''" "'':''"]
    by (simp add: digit_value_def stops_at_def isalpha_def)
  then show "dl_strtoul ''42:'' = (42, '':'')" by simp
qed

text \<open>C40: printing a number with \<open>_itoa\<close> in base 10 succeeds, and both parsers read it back:
  \<open>strtol\<close> for every value of type \<open>long\<close>, \<open>_dl_strtoul\<close> up to the bound of its check.\<close>

theorem itoa_roundtrip:
  "\<exists>ds. itoa v 10 False = Inr ds \<and>
     (v < 2 ^ 63 \<longrightarrow> strtol ds 10 = \<lparr>ret_val = int v, endptr = Some [], err = None\<rparr>) \<and>
     (v \<le> 2 ^ 64 - 11 \<longrightarrow> dl_strtoul ds = (of_nat v, []))"
proof -
  obtain ds where ds: "itoa v 10 False = Inr ds" "ds \<noteq> []" "is_digits 10 ds" "digits_value 10 0 ds = v"
    "v \<noteq> 0 \<Longrightarrow> hd ds \<noteq> CHR ''0''"
    using itoa_decimal by blast
  have stop: "stops_at 10 []" by (simp add: stops_at_def)
  have "strtol ([] @ [] @ ds @ []) (int 10) = strtol_spec ([] = ''-'') (digits_value 10 0 ds) []"
    by (rule strtol_correct) (use ds stop in simp_all)
  then have 1: "v < 2 ^ 63 \<longrightarrow> strtol ds 10 = \<lparr>ret_val = int v, endptr = Some [], err = None\<rparr>"
    using ds(4) by (simp add: strtol_spec_def)
  have 2: "dl_strtoul ds = (of_nat v, [])" if "v \<le> 2 ^ 64 - 11"
  proof (cases "v = 0")
    case True
    then have "ds = ''0''"
      using ds(1) by (simp add: itoa_def itoa_loop.simps itoa_lower_digits_def)
    with True show ?thesis by (simp add: dl_strtoul_def dl_digval_def UINT64_MAX_def)
  next
    case False
    have "dl_strtoul (ds @ []) = (of_nat (digits_value 10 0 ds), [])"
      using dl_strtoul_decimal_digits [OF ds(2,3) ds(5) [OF False] stop] ds(4) that by simp
    with ds(4) show ?thesis by simp
  qed
  from ds(1) 1 2 show ?thesis by blast
qed

theorem itoa_roundtrip_witness:
  "\<exists>ds. itoa 4096 10 False = Inr ds \<and> dl_strtoul ds = (4096, []) \<and> ret_val (strtol ds 10) = 4096"
  using itoa_roundtrip [of 4096] by auto

end
