(* ===== verification/World.thy ===== *)
theory World
  imports Numconv
begin

unbundle bit_operations_syntax

text \<open>
  What a library call sees of the process: its environment, the outcomes of its
  allocations and the system calls it makes.  The kernel is a parameter: its answer to
  a system call is any function of the calls made before it.  The error-and-state monad
  in which the stateful components are written is defined here, with \<open>getenv\<close>
  (stdlib/getenv.c) and \<open>strdup\<close> (string/strdup.c).
\<close>

section \<open>The process and the kernel\<close>

type_synonym flags = "32 word"

datatype syscall =
    Sys_open string flags nat
  | Sys_openat int "string option" flags "nat option"   \<comment> \<open>\<open>None\<close>: a null path, no mode given\<close>
  | Sys_write int string
  | Sys_close int

record kernel =
  k_ret :: "syscall list \<Rightarrow> syscall \<Rightarrow> int"
  k_cwd :: "syscall list \<Rightarrow> string option"

record world =
  environ :: "string list"
  allocs :: "bool list"         \<comment> \<open>outcomes of the next allocations; they succeed after the last\<close>
  sys_trace :: "syscall list"   \<comment> \<open>the system calls made so far, oldest first\<close>

section \<open>The monad\<close>

type_synonym 'a comp = "world \<Rightarrow> ('a \<times> world) res"

definition mret :: "'a \<Rightarrow> 'a comp" where
  "mret a w = Inr (a, w)"

definition mfail :: "fault \<Rightarrow> 'a comp" where
  "mfail e w = Inl e"

definition mlift :: "'a res \<Rightarrow> 'a comp" where
  "mlift r w = (case r of Inl e \<Rightarrow> Inl e | Inr a \<Rightarrow> Inr (a, w))"

definition mbind :: "'a comp \<Rightarrow> ('a \<Rightarrow> 'b comp) \<Rightarrow> 'b comp" where
  "mbind m f w = (case m w of Inl e \<Rightarrow> Inl e | Inr (a, w') \<Rightarrow> f a w')"

lemma monad_simps [simp]:
  "mret a w = Inr (a, w)"
  "mfail e w = Inl e"
  "mlift (Inr a) w = Inr (a, w)"
  "mlift (Inl e) w = Inl e"
  by (simp_all add: mret_def mfail_def mlift_def)

lemma mbind_Inr [simp]: "m w = Inr (a, w') \<Longrightarrow> mbind m f w = f a w'"
  by (simp add: mbind_def)

lemma mbind_Inl [simp]: "m w = Inl e \<Longrightarrow> mbind m f w = Inl e"
  by (simp add: mbind_def)

lemma mbind_eq_Inr_iff: "mbind m f w = Inr r \<longleftrightarrow> (\<exists>a w'. m w = Inr (a, w') \<and> f a w' = Inr r)"
  by (auto simp: mbind_def split: sum.splits)

section \<open>Effects\<close>

text \<open>The next allocation: its outcome.\<close>

definition alloc :: "bool comp" where
  "alloc w = (case allocs w of [] \<Rightarrow> Inr (True, w) | b # bs \<Rightarrow> Inr (b, w\<lparr>allocs := bs\<rparr>))"

definition sys :: "kernel \<Rightarrow> syscall \<Rightarrow> int comp" where
  "sys K c w = Inr (k_ret K (sys_trace w) c, w\<lparr>sys_trace := sys_trace w @ [c]\<rparr>)"

text \<open>\<open>getcwd (buf, bufsize)\<close>: the directory, if the kernel gives one that fits with its terminator.\<close>

definition getcwd :: "kernel \<Rightarrow> nat \<Rightarrow> string option comp" where
  "getcwd K bufsize w =
     Inr (case k_cwd K (sys_trace w) of
            None \<Rightarrow> None
          | Some d \<Rightarrow> if Suc (length d) \<le> bufsize then Some d else None, w)"

text \<open>
  \<open>getenv\<close>: the first entry that starts with the name and an equals sign.  The code
  compares the first two bytes of each entry at once, and treats names of one character
  apart.
\<close>

definition getenv_matches :: "string \<Rightarrow> string \<Rightarrow> string option" where
  "getenv_matches name ep =
     (if cget name 1 = NUL then
        if cget ep 0 = cget name 0 \<and> cget ep 1 = CHR ''='' then Some (drop 2 ep) else None
      else
        let len = length name - 2; name' = drop 2 name in
        if cget ep 0 = cget name 0 \<and> cget ep 1 = cget name 1
           \<and> take len (drop 2 ep) = take len name' \<and> cget ep (len + 2) = CHR ''=''
        then Some (drop (len + 3) ep) else None)"

fun getenv_scan :: "string \<Rightarrow> string list \<Rightarrow> string option" where
  "getenv_scan name [] = None"
| "getenv_scan name (ep # eps) =
     (case getenv_matches name ep of None \<Rightarrow> getenv_scan name eps | Some v \<Rightarrow> Some v)"

definition getenv :: "string list \<Rightarrow> string \<Rightarrow> string option" where
  "getenv env name = (if name = [] then None else getenv_scan name env)"

definition mgetenv :: "string \<Rightarrow> string option comp" where
  "mgetenv name w = Inr (getenv (environ w) name, w)"

definition strdup :: "string \<Rightarrow> string option comp" where
  "strdup s = mbind alloc (\<lambda>ok. mret (if ok then Some s else None))"

section \<open>Facts\<close>

definition no_alloc_failure :: "world \<Rightarrow> bool" where
  "no_alloc_failure w \<longleftrightarrow> allocs w = []"

lemma alloc_ok [simp]: "no_alloc_failure w \<Longrightarrow> alloc w = Inr (True, w)"
  by (simp add: alloc_def no_alloc_failure_def)

lemma strdup_ok [simp]: "no_alloc_failure w \<Longrightarrow> strdup s w = Inr (Some s, w)"
  by (simp add: strdup_def)

lemma mgetenv_run [simp]: "mgetenv name w = Inr (getenv (environ w) name, w)"
  by (simp add: mgetenv_def)

lemma sys_run [simp]: "sys K c w = Inr (k_ret K (sys_trace w) c, w\<lparr>sys_trace := sys_trace w @ [c]\<rparr>)"
  by (simp add: sys_def)

lemma no_alloc_failure_trace [simp]: "no_alloc_failure (w\<lparr>sys_trace := t\<rparr>) = no_alloc_failure w"
  by (simp add: no_alloc_failure_def)

text \<open>The bytewise comparison of \<open>getenv\<close> is the search for the prefix \<open>name=\<close>.\<close>

lemma getenv_matches_prefix:
  assumes "name \<noteq> []" "nul_free name" "nul_free ep"
  shows "getenv_matches name ep =
    (if prefix (name @ ''='') ep then Some (drop (Suc (length name)) ep) else None)"
proof (cases "cget name 1 = NUL")
  case True
  then obtain a where "name = [a]"
    using assms(1,2) by (cases name; cases "tl name") auto
  with assms show ?thesis
    by (cases ep; cases "tl ep") (auto simp: getenv_matches_def numeral_2_eq_2)
next
  case False
  then obtain a b n where name: "name = a # b # n"
    using assms(1) by (cases name; cases "tl name") auto
  show ?thesis
  proof (cases ep)
    case Nil
    with name assms show ?thesis by (simp add: getenv_matches_def)
  next
    case (Cons x ep')
    show ?thesis
    proof (cases ep')
      case Nil
      with Cons name assms show ?thesis by (auto simp: getenv_matches_def)
    next
      case (Cons y r)
      have "take (length n) r = n \<and> cget r (length n) = CHR ''='' \<longleftrightarrow> prefix (n @ ''='') r"
      proof (cases "take (length n) r = n")
        case True
        then obtain r' where "r = n @ r'" by (metis append_take_drop_id)
        then show ?thesis by (cases r') (auto simp: cget_append_length cget_nth)
      next
        case False
        then show ?thesis by (auto simp: prefix_def)
      qed
      with \<open>ep = x # ep'\<close> Cons name assms(2) show ?thesis
        by (auto simp: getenv_matches_def numeral_3_eq_3 numeral_2_eq_2)
    qed
  qed
qed

end
