(* ===== verification/Preopen.thy ===== *)
theory Preopen
  imports World
begin

unbundle bit_operations_syntax

text \<open>
  The preopen mechanism of sysdeps/unix/sysv/linux/open64.c, function by function: an
  \<open>open\<close> first looks for the path among files and directories that were opened for the
  process beforehand and are named in \<open>PREOPEN_*\<close> environment variables, and only then
  asks the kernel.  Null pointers, reads past a terminator, the fixed-size buffers and the
  failure of every allocation are branches of the definitions.
\<close>

section \<open>Constants\<close>

definition MAX_LIST_LEN :: nat where "MAX_LIST_LEN = 128"
definition MAX_PATH_LEN :: nat where "MAX_PATH_LEN = 256"
definition PATH_MAX :: nat where "PATH_MAX = 4096"
definition LOG_BUFFER :: nat where "LOG_BUFFER = 4096"

definition O_WRONLY :: flags where "O_WRONLY = 0x1"
definition O_CREAT :: flags where "O_CREAT = 0x40"
definition O_APPEND :: flags where "O_APPEND = 0x400"
definition O_LARGEFILE :: flags where "O_LARGEFILE = 0"
definition O_DIRECTORY :: flags where "O_DIRECTORY = 0x10000"
definition O_TMPFILE :: flags where "O_TMPFILE = 0x410000"

definition AT_FDCWD :: int where "AT_FDCWD = - 100"

definition open_needs_mode :: "flags \<Rightarrow> bool" where
  "open_needs_mode oflag \<longleftrightarrow> oflag AND O_CREAT \<noteq> 0 \<or> oflag AND O_TMPFILE = O_TMPFILE"

section \<open>Logging\<close>

text \<open>\<open>get_debug_fd\<close>: a descriptor given as a number, or a log file to open.\<close>

definition get_debug_fd :: "kernel \<Rightarrow> int comp" where
  "get_debug_fd K =
     mbind (mgetenv ''PREOPEN_DEBUG_FD'') (\<lambda>fd_str.
       case (case fd_str of
               None \<Rightarrow> None
             | Some s \<Rightarrow>
                 let fd = strtol s 10 in
                 if endptr fd = Some [] \<and> 0 < ret_val fd then Some (c_int (ret_val fd)) else None) of
         Some fd \<Rightarrow> mret fd
       | None \<Rightarrow>
           mbind (mgetenv ''PREOPEN_DEBUG_FILE'') (\<lambda>debug_log_path.
             case debug_log_path of
               None \<Rightarrow> mret (- 1)
             | Some p \<Rightarrow> sys K (Sys_open p (O_WRONLY OR O_APPEND OR O_CREAT) 438)))"

text \<open>\<open>memcpy (buffer + len, s, n)\<close> into the fixed buffer of \<open>debug_log\<close>, after which \<open>len\<close>
  grows by \<open>n\<close>: the part of the buffer written so far.\<close>

definition log_put :: "string \<Rightarrow> string \<Rightarrow> string res" where
  "log_put s buffer = (if LOG_BUFFER < length buffer + length s then Inl Oob_write else Inr (buffer @ s))"

definition debug_log :: "kernel \<Rightarrow> int \<Rightarrow> string \<Rightarrow> string \<Rightarrow> int \<Rightarrow> unit comp" where
  "debug_log K log_fd pre filepath fd =
     (if log_fd \<le> 0 then mret ()
      else
        mbind (mlift (rbind (log_put pre [])
                     (\<lambda>b. rbind (log_put '': '' b)
                     (\<lambda>b. rbind (log_put filepath b)
                     (\<lambda>b. rbind (log_put (if 0 < fd then '' success'' else '' failed'') b)
                     (\<lambda>b. log_put [CHR 0x0A] b))))))
          (\<lambda>buffer. mbind (sys K (Sys_write log_fd buffer)) (\<lambda>_. mret ())))"

section \<open>Path manipulation\<close>

text \<open>\<open>while (len > 0 && result[len - 1] == '/') result[--len] = '\0'\<close>\<close>

fun strip_slashes :: "nat \<Rightarrow> char list \<Rightarrow> char list" where
  "strip_slashes 0 result = result"
| "strip_slashes (Suc len) result =
     (if result ! len = slash then strip_slashes len (result[len := NUL]) else result)"

definition remove_last_component :: "char list option \<Rightarrow> char list option comp" where
  "remove_last_component path =
     (case path of
        None \<Rightarrow> mret None
      | Some p \<Rightarrow>
          mbind (strdup (cstr p)) (\<lambda>dup.
            case dup of
              None \<Rightarrow> mret None
            | Some d \<Rightarrow>
                let result = strip_slashes (length d) (cbuf d) in
                mbind (mlift (strrchr result slash)) (\<lambda>last_slash.
                  case last_slash of
                    Some l \<Rightarrow>
                      let at = length result - length l; result = result[at := NUL] in
                      mret (Some (if at = 0 then result[1 := NUL] else result))
                  | None \<Rightarrow> mret (Some (result[0 := NUL])))))"

text \<open>The result is a zeroed buffer of \<open>PATH_MAX\<close> bytes; the model keeps the string in it and
  its terminator.\<close>

definition get_absolute_path :: "kernel \<Rightarrow> string \<Rightarrow> char list option comp" where
  "get_absolute_path K path =
     mbind alloc (\<lambda>ok.
       if \<not> ok then mret None
       else if cget path 0 = slash then mret (Some (cbuf (take (PATH_MAX - 1) path)))
       else
         mbind (getcwd K PATH_MAX) (\<lambda>cwd.
           case cwd of
             None \<Rightarrow> mret None
           | Some cwd \<Rightarrow>
               let path_to_append = (if take 2 path = ''./'' then drop 2 path else path) in
               if PATH_MAX < length cwd + length path_to_append + 2 then mret None
               else
                 let abs_path = cwd @ ''/'' @ path_to_append in
                 mret (Some (cbuf (if 1 < length abs_path \<and> last abs_path = slash
                                   then butlast abs_path else abs_path)))))"

section \<open>Lists from the environment\<close>

text \<open>
  \<open>get_string_list\<close>: the fields of a colon-separated list, copied one by one into an array
  of \<open>MAX_LIST_LEN\<close> pointers.  The loop stops after \<open>MAX_LIST_LEN\<close> fields; the null pointer
  that ends the list is then written behind the array.  The first argument of the loop is
  \<open>MAX_LIST_LEN - cnt\<close>.
\<close>

primrec string_list_loop :: "nat \<Rightarrow> string list \<Rightarrow> string option \<Rightarrow> string \<Rightarrow> string list option comp" where
  "string_list_loop 0 result_list token olds = mret (Some result_list)"
| "string_list_loop (Suc n) result_list token olds =
     (case token of
        None \<Rightarrow> mret (Some result_list)
      | Some t \<Rightarrow>
          mbind (strdup t) (\<lambda>dup.
            case dup of
              None \<Rightarrow> mret None
            | Some d \<Rightarrow>
                (case strtok_r None '':'' olds of
                   (token, olds) \<Rightarrow> string_list_loop n (result_list @ [d]) token olds)))"

definition get_string_list :: "string option \<Rightarrow> string option list option comp" where
  "get_string_list env_str =
     mbind alloc (\<lambda>ok.
       if \<not> ok then mret None
       else
         mbind (case env_str of
                  None \<Rightarrow> mret (Some [])
                | Some s \<Rightarrow>
                    (case strtok_r (Some s) '':'' [] of
                       (token, olds) \<Rightarrow> string_list_loop MAX_LIST_LEN [] token olds))
           (\<lambda>result_list.
             case result_list of
               None \<Rightarrow> mret None
             | Some l \<Rightarrow>
                 if MAX_LIST_LEN \<le> length l then mfail Oob_write
                 else mret (Some (map Some l @ [None]))))"

section \<open>Matching paths\<close>

primrec skip_components :: "nat \<Rightarrow> char list \<Rightarrow> char list option res" where
  "skip_components 0 start = Inr (Some start)"
| "skip_components (Suc n) start =
     rbind (strchr start slash) (\<lambda>p.
       case p of None \<Rightarrow> Inr None | Some p \<Rightarrow> skip_components n (tl p))"

definition get_path_component :: "char list option \<Rightarrow> nat \<Rightarrow> string option comp" where
  "get_path_component path n =
     mbind alloc (\<lambda>ok.
       case path of
         None \<Rightarrow> mret None
       | Some p \<Rightarrow>
           mbind (mlift (skip_components n (tl p))) (\<lambda>start.
             case start of
               None \<Rightarrow> mret None
             | Some start \<Rightarrow>
                 mbind (mlift (strchr start slash)) (\<lambda>end.
                   let comp = (case end of
                                 None \<Rightarrow> cstr start
                               | Some e \<Rightarrow> take (length start - length e) start) in
                   if MAX_PATH_LEN \<le> length comp then mret None
                   else if \<not> ok then mfail Null_deref
                   else mret (Some comp))))"

text \<open>The loop over the components of one pair of paths; it ends because the file path does.\<close>

primrec match_components ::
  "nat \<Rightarrow> char list option \<Rightarrow> char list option \<Rightarrow> nat \<Rightarrow> bool comp" where
  "match_components 0 file_path preopen_path depth = mfail Out_of_fuel"
| "match_components (Suc fuel) file_path preopen_path depth =
     mbind (get_path_component file_path depth) (\<lambda>file_component.
     mbind (get_path_component preopen_path depth) (\<lambda>preopen_component.
       if file_component = None \<and> preopen_component = None then mret True
       else if (file_component = None) \<noteq> (preopen_component = None) then mret False
       else if file_component \<noteq> preopen_component then mret False
       else match_components fuel file_path preopen_path (Suc depth)))"

definition match_fuel :: "char list option \<Rightarrow> nat" where
  "match_fuel path = Suc (case path of None \<Rightarrow> 0 | Some p \<Rightarrow> Suc (length p))"

text \<open>\<open>for (int i = 0; i < path_count; i++)\<close>; the first argument is \<open>path_count - i\<close>.\<close>

primrec find_matching_from ::
  "nat \<Rightarrow> nat \<Rightarrow> char list option \<Rightarrow> string option list option \<Rightarrow> int comp" where
  "find_matching_from 0 i file_path preopen_paths = mret (- 1)"
| "find_matching_from (Suc n) i file_path preopen_paths =
     (case preopen_paths of
        None \<Rightarrow> mfail Null_deref
      | Some paths \<Rightarrow>
          if length paths \<le> i then mfail Uninit_read
          else
            mbind (match_components (match_fuel file_path) file_path (map_option cbuf (paths ! i)) 0)
              (\<lambda>match. if match then mret (int i)
                        else find_matching_from n (Suc i) file_path preopen_paths))"

definition find_matching_preopen_path ::
  "char list option \<Rightarrow> string option list option \<Rightarrow> nat \<Rightarrow> int comp" where
  "find_matching_preopen_path file_path preopen_paths path_count =
     find_matching_from path_count 0 file_path preopen_paths"

section \<open>Opening\<close>

text \<open>\<open>strtol\<close> on one field of a descriptor list, as \<open>int\<close>; \<open>-1\<close> unless all of it is a number.\<close>

definition parse_fd :: "string \<Rightarrow> int" where
  "parse_fd s =
     (let fd = strtol s 10 in if endptr fd \<noteq> Some [] then - 1 else c_int (ret_val fd))"

definition read_fds :: "string option list option \<Rightarrow> int list res" where
  "read_fds fds_list =
     (case fds_list of
        None \<Rightarrow> Inl Null_deref
      | Some l \<Rightarrow> Inr (map (\<lambda>x. parse_fd (the x)) (takeWhile (\<lambda>x. x \<noteq> None) l)))"

definition preopen_file :: "kernel \<Rightarrow> string \<Rightarrow> flags \<Rightarrow> nat \<Rightarrow> int comp" where
  "preopen_file K file oflag mode =
     mbind (mgetenv ''PREOPEN_FILES'') (\<lambda>buff.
       case buff of
         None \<Rightarrow> mret (- 1)
       | Some b \<Rightarrow>
           mbind (strdup b) (\<lambda>preopen_files_str.
           mbind (get_string_list preopen_files_str) (\<lambda>preopen_files.
           mbind (mgetenv ''PREOPEN_FILE_FDS'') (\<lambda>buff.
             case buff of
               None \<Rightarrow> mret (- 1)
             | Some b \<Rightarrow>
                 mbind (strdup b) (\<lambda>preopen_file_fds_str.
                 mbind (get_string_list preopen_file_fds_str) (\<lambda>preopen_file_fds_list.
                 mbind (mlift (read_fds preopen_file_fds_list)) (\<lambda>preopen_file_fds.
                 mbind (if cget file 0 \<noteq> slash then get_absolute_path K file
                        else mret (Some (cbuf file))) (\<lambda>abs_file.
                 mbind (find_matching_preopen_path abs_file preopen_files (length preopen_file_fds))
                   (\<lambda>path_index.
                     if 0 \<le> path_index then mret (preopen_file_fds ! nat path_index)
                     else mret (- 1))))))))))"

definition preopen_from_dir :: "kernel \<Rightarrow> string \<Rightarrow> flags \<Rightarrow> nat \<Rightarrow> int comp" where
  "preopen_from_dir K file oflag mode =
     mbind (mgetenv ''PREOPEN_PATHS'') (\<lambda>buff.
       case buff of
         None \<Rightarrow> mret (- 1)
       | Some b \<Rightarrow>
           mbind (strdup b) (\<lambda>preopen_paths_str.
           mbind (get_string_list preopen_paths_str) (\<lambda>preopen_paths.
           mbind (mgetenv ''PREOPEN_PATH_FDS'') (\<lambda>buff.
             case buff of
               None \<Rightarrow> mret (- 1)
             | Some b \<Rightarrow>
                 mbind (strdup b) (\<lambda>preopen_path_fds_str.
                 mbind (get_string_list preopen_path_fds_str) (\<lambda>preopen_path_fds_list.
                 mbind (mlift (read_fds preopen_path_fds_list)) (\<lambda>preopen_path_fds.
                 mbind (if cget file 0 \<noteq> slash then get_absolute_path K file
                        else mret (Some (cbuf file))) (\<lambda>abs_path.
                 mbind (if oflag AND O_DIRECTORY = 0 then remove_last_component abs_path
                        else mret abs_path) (\<lambda>abs_path.
                 mbind (find_matching_preopen_path abs_path preopen_paths (length preopen_path_fds))
                   (\<lambda>path_index.
                     if 0 \<le> path_index then
                       mbind (sys K (Sys_openat (preopen_path_fds ! nat path_index) (map_option cstr abs_path)
                                oflag (if oflag AND O_CREAT \<noteq> 0 then Some mode else None)))
                         (\<lambda>fd. if fd \<noteq> - 1 then mret fd else mret (- 1))
                     else mret (- 1)))))))))))"

definition preopen :: "kernel \<Rightarrow> string \<Rightarrow> flags \<Rightarrow> nat \<Rightarrow> int comp" where
  "preopen K file oflag mode =
     mbind (preopen_file K file oflag mode) (\<lambda>preopen_fd.
       if 0 < preopen_fd then mret preopen_fd
       else
         mbind (preopen_from_dir K file oflag mode) (\<lambda>preopen_fd.
           if 0 < preopen_fd then mret preopen_fd else mret (- 1)))"

definition libc_open64 :: "kernel \<Rightarrow> string \<Rightarrow> flags \<Rightarrow> nat \<Rightarrow> int comp" where
  "libc_open64 K file oflag mode_arg =
     (let mode = (if open_needs_mode oflag then mode_arg else 0) in
      mbind (get_debug_fd K) (\<lambda>log_fd.
      mbind (preopen K file oflag mode) (\<lambda>fd.
      mbind (debug_log K log_fd ''preopen'' file fd) (\<lambda>_.
        if 0 < fd then mret fd
        else
          mbind (sys K (Sys_openat AT_FDCWD (Some file) (oflag OR O_LARGEFILE) (Some mode))) (\<lambda>fd.
          mbind (debug_log K log_fd ''open'' file fd) (\<lambda>_.
          mbind (sys K (Sys_close log_fd)) (\<lambda>_.
            mret fd)))))))"

section \<open>The lists\<close>

abbreviation colon_fields :: "string \<Rightarrow> string list" where
  "colon_fields s \<equiv> tokens (\<lambda>c. c = colon) s"

lemma string_list_loop_fields:
  "no_alloc_failure w \<Longrightarrow>
   string_list_loop n acc token olds w =
     Inr (Some (acc @ take n (case token of None \<Rightarrow> [] | Some t \<Rightarrow> t # colon_fields olds)), w)"
proof (induction n arbitrary: acc token olds)
  case 0
  then show ?case by simp
next
  case (Suc n)
  obtain token' olds' where next': "strtok_r None '':'' olds = (token', olds')" by fastforce
  have "(case token' of None \<Rightarrow> [] | Some t \<Rightarrow> t # colon_fields olds') = colon_fields olds"
    using strtok_r_tokens [of olds] by (simp add: next' split: option.splits)
  with Suc next' show ?case by (cases token) simp_all
qed

lemma get_string_list_fields:
  assumes "no_alloc_failure w"
  shows "get_string_list (Some s) w =
    (if length (colon_fields s) < MAX_LIST_LEN
     then Inr (Some (map Some (colon_fields s) @ [None]), w) else Inl Oob_write)"
proof -
  obtain token olds where start: "strtok_r None '':'' s = (token, olds)" by fastforce
  have "(case token of None \<Rightarrow> [] | Some t \<Rightarrow> t # colon_fields olds) = colon_fields s"
    using strtok_r_tokens [of s] by (simp add: start split: option.splits)
  then show ?thesis
    using assms start
    by (simp add: get_string_list_def strtok_r_Some string_list_loop_fields)
qed

lemma read_fds_fields: "read_fds (Some (map Some l @ [None])) = Inr (map parse_fd l)"
proof -
  have "takeWhile (\<lambda>x. x \<noteq> None) (map Some l @ [None]) = map Some l"
    by (induction l) auto
  then show ?thesis by (simp add: read_fds_def comp_def)
qed

lemma parse_fd_decimal:
  assumes "ds \<noteq> []" "is_digits 10 ds" "digits_value 10 0 ds < 2 ^ 31"
  shows "parse_fd ds = int (digits_value 10 0 ds)"
proof -
  have "strtol ([] @ [] @ ds @ []) (int 10) = strtol_spec ([] = ''-'') (digits_value 10 0 ds) []"
    by (rule strtol_correct) (use assms(1,2) in \<open>simp_all add: stops_at_def\<close>)
  then show ?thesis
    using assms(3) by (simp add: parse_fd_def strtol_spec_def to_signed_def)
qed

section \<open>The components of a path\<close>

text \<open>
  A path pointer is read from its second character on.  It is readable when its memory
  holds a terminator there; its components are the fields between slashes, up to the
  first one that does not fit the component buffer.
\<close>

definition readable :: "char list \<Rightarrow> bool" where
  "readable p \<longleftrightarrow> NUL \<in> set (tl p)"

definition path_fields :: "char list \<Rightarrow> string list" where
  "path_fields p = split_on (\<lambda>c. c = slash) (cstr (tl p))"

definition path_comps :: "char list option \<Rightarrow> string list" where
  "path_comps path =
     (case path of
        None \<Rightarrow> []
      | Some p \<Rightarrow> takeWhile (\<lambda>c. length c < MAX_PATH_LEN) (path_fields p))"

lemma nul_buffer: "NUL \<in> set b \<Longrightarrow> \<exists>j. b = cstr b @ NUL # j"
  by (induction b) auto

lemma strchr_field:
  assumes "nul_free s"
  shows "strchr (s @ NUL # j) slash =
    Inr (case dropWhile (\<lambda>c. c \<noteq> slash) s of [] \<Rightarrow> None | t \<Rightarrow> Some (t @ NUL # j))"
  using assms by (induction s) (auto split: list.splits)

lemma skip_components_fields:
  assumes "nul_free s"
  shows "\<exists>r. skip_components n (s @ NUL # j) = Inr r \<and>
    (if n < length (split_on (\<lambda>c. c = slash) s)
     then \<exists>t. r = Some (t @ NUL # j) \<and> nul_free t \<and>
       split_on (\<lambda>c. c = slash) t = drop n (split_on (\<lambda>c. c = slash) s)
     else r = None)"
  using assms
proof (induction n arbitrary: s)
  case 0
  then show ?case by simp
next
  case (Suc n)
  show ?case
  proof (cases "dropWhile (\<lambda>c. c \<noteq> slash) s")
    case Nil
    then show ?thesis using Suc.prems
      by (simp add: strchr_field split_on_unfold [of _ s] del: dropWhile_eq_Nil_conv split_on.simps)
  next
    case (Cons d t)
    then have "split_on (\<lambda>c. c = slash) s = takeWhile (\<lambda>c. c \<noteq> slash) s # split_on (\<lambda>c. c = slash) t"
      by (subst split_on_unfold) simp
    moreover have "nul_free t"
      using Suc.prems Cons by (metis nul_free_simps(2,3) takeWhile_dropWhile_id)
    ultimately show ?thesis
      using Suc.IH [of t] Suc.prems Cons
      by (cases "n < length (split_on (\<lambda>c. c = slash) t)") (auto simp: strchr_field)
  qed
qed

lemma first_field:
  assumes "nul_free t"
  shows "(case (case dropWhile (\<lambda>c. c \<noteq> slash) t of [] \<Rightarrow> None | e \<Rightarrow> Some (e @ NUL # j)) of
            None \<Rightarrow> cstr (t @ NUL # j)
          | Some e \<Rightarrow> take (length (t @ NUL # j) - length e) (t @ NUL # j)) =
    hd (split_on (\<lambda>c. c = slash) t)"
proof (cases "dropWhile (\<lambda>c. c \<noteq> slash) t")
  case Nil
  then show ?thesis using assms
    by (simp add: split_on_unfold [of _ t] del: dropWhile_eq_Nil_conv split_on.simps)
next
  case (Cons d e)
  have t: "t = takeWhile (\<lambda>c. c \<noteq> slash) t @ d # e"
    using Cons by (metis takeWhile_dropWhile_id)
  then have "length (t @ NUL # j) - length (d # e @ NUL # j) = length (takeWhile (\<lambda>c. c \<noteq> slash) t)"
    by (metis add_diff_cancel_right' append.assoc append_Cons length_append)
  then show ?thesis using Cons t
    by (simp add: split_on_unfold [of _ t] del: split_on.simps) (metis append_eq_conv_conj)
qed

lemma get_path_component_None [simp]:
  "no_alloc_failure w \<Longrightarrow> get_path_component None n w = Inr (None, w)"
  by (simp add: get_path_component_def)

lemma get_path_component_field:
  assumes "no_alloc_failure w" "readable p"
  shows "get_path_component (Some p) n w =
    Inr (if n < length (path_fields p) \<and> length (path_fields p ! n) < MAX_PATH_LEN
         then Some (path_fields p ! n) else None, w)"
proof -
  obtain j where j: "tl p = cstr (tl p) @ NUL # j"
    using assms(2) nul_buffer unfolding readable_def by blast
  obtain r where r: "skip_components n (tl p) = Inr r"
    and fld: "if n < length (path_fields p)
      then \<exists>t. r = Some (t @ NUL # j) \<and> nul_free t \<and> split_on (\<lambda>c. c = slash) t = drop n (path_fields p)
      else r = None"
    using skip_components_fields [OF nul_free_cstr, of n "tl p" j] j unfolding path_fields_def by auto
  show ?thesis
  proof (cases "n < length (path_fields p)")
    case False
    with fld r assms(1) show ?thesis by (simp add: get_path_component_def)
  next
    case True
    with fld obtain t where t: "r = Some (t @ NUL # j)" "nul_free t"
      "split_on (\<lambda>c. c = slash) t = drop n (path_fields p)" by auto
    have "hd (split_on (\<lambda>c. c = slash) t) = path_fields p ! n"
      using t(3) True by (simp add: hd_drop_conv_nth)
    with True t r assms(1) first_field [OF t(2), of j] strchr_field [OF t(2), of j] show ?thesis
      by (simp add: get_path_component_def Let_def)
  qed
qed

section \<open>Matching\<close>

lemma match_components_correct:
  assumes "no_alloc_failure w"
    and "\<And>p. file = Some p \<Longrightarrow> readable p" "\<And>p. pre = Some p \<Longrightarrow> readable p"
    and "(case file of None \<Rightarrow> 0 | Some p \<Rightarrow> length (path_fields p) - d) < fuel"
  shows "match_components fuel file pre d w =
    Inr (takeWhile (\<lambda>c. length c < MAX_PATH_LEN) (drop d (case file of None \<Rightarrow> [] | Some p \<Rightarrow> path_fields p)) =
         takeWhile (\<lambda>c. length c < MAX_PATH_LEN) (drop d (case pre of None \<Rightarrow> [] | Some p \<Rightarrow> path_fields p)), w)"
  using assms(4)
proof (induction fuel arbitrary: d)
  case 0
  then show ?case by simp
next
  case (Suc fuel)
  have comp: "get_path_component q d w =
      Inr (case q of None \<Rightarrow> None | Some p \<Rightarrow>
        if d < length (path_fields p) \<and> length (path_fields p ! d) < MAX_PATH_LEN
        then Some (path_fields p ! d) else None, w)"
    if "\<And>p. q = Some p \<Longrightarrow> readable p" for q
    using assms(1) that by (cases q) (simp_all add: get_path_component_field)
  have tw: "takeWhile P (drop d l) =
      (if d < length l \<and> P (l ! d) then l ! d # takeWhile P (drop (Suc d) l) else [])" for P and l :: "string list"
    by (cases "d < length l") (simp_all add: Cons_nth_drop_Suc [symmetric])
  show ?case
    using Suc.IH [of "Suc d"] Suc.prems
    by (cases "file"; cases "pre")
      (auto simp: comp [OF assms(2)] comp [OF assms(3)] tw)
qed

lemma readable_cbuf [simp]: "readable (cbuf s) \<longleftrightarrow> s \<noteq> []"
  by (cases s) (auto simp: readable_def cbuf_def)

lemma length_path_fields: "length (path_fields p) \<le> Suc (length p)"
proof -
  have "length (filter (\<lambda>c. c = slash) (cstr (tl p))) \<le> length (cstr (tl p))"
    by (rule length_filter_le)
  also have "\<dots> \<le> length (tl p)" unfolding cstr_def by (rule length_takeWhile_le)
  finally show ?thesis by (simp add: path_fields_def length_split_on)
qed

lemma match_path:
  assumes "no_alloc_failure w"
    and "\<And>p. file = Some p \<Longrightarrow> readable p" "\<And>p. pre = Some p \<Longrightarrow> readable p"
  shows "match_components (match_fuel file) file pre 0 w = Inr (path_comps file = path_comps pre, w)"
proof -
  have "(case file of None \<Rightarrow> 0 | Some p \<Rightarrow> length (path_fields p) - 0) < match_fuel file"
    using length_path_fields by (auto simp: match_fuel_def less_Suc_eq_le split: option.splits)
  from match_components_correct [OF assms this] show ?thesis
    by (auto simp: path_comps_def split: option.splits)
qed

lemma find_matching_from_correct:
  assumes "no_alloc_failure w"
    and "\<And>p. file = Some p \<Longrightarrow> readable p"
    and "\<And>s. Some s \<in> set paths \<Longrightarrow> s \<noteq> []"
    and "i + n \<le> length paths"
  shows "find_matching_from n i file (Some paths) w =
    Inr (case find (\<lambda>k. path_comps file = path_comps (map_option cbuf (paths ! k))) [i..<i + n] of
           None \<Rightarrow> - 1 | Some k \<Rightarrow> int k, w)"
  using assms(4)
proof (induction n arbitrary: i)
  case 0
  then show ?case by simp
next
  case (Suc n)
  have i: "i < length paths" using Suc.prems by simp
  have "readable p" if "map_option cbuf (paths ! i) = Some p" for p
    using assms(3) [of "the (paths ! i)"] i that nth_mem [OF i] by (cases "paths ! i") auto
  from match_path [of w "file" "map_option cbuf (paths ! i)", OF assms(1,2) this] i Suc.IH [of "Suc i"] Suc.prems show ?case
    by (simp add: upt_conv_Cons del: upt_Suc)
qed

text \<open>\<open>match_index paths n p\<close>: the first of the first \<open>n\<close> listed paths with the components of \<open>p\<close>.\<close>

definition match_index :: "string list \<Rightarrow> nat \<Rightarrow> char list option \<Rightarrow> nat option" where
  "match_index paths n p = find (\<lambda>k. path_comps p = path_comps (Some (cbuf (paths ! k)))) [0..<n]"

lemma find_upt_Some: "find P [0..<n] = Some k \<longleftrightarrow> k < n \<and> P k \<and> (\<forall>j < k. \<not> P j)"
proof
  assume "k < n \<and> P k \<and> (\<forall>j < k. \<not> P j)"
  then show "find P [0..<n] = Some k"
    by (auto simp: find_Some_iff intro!: exI [of _ k])
qed (auto simp: find_Some_iff)

lemma match_index_Some:
  "match_index paths n p = Some k \<longleftrightarrow>
     k < n \<and> path_comps p = path_comps (Some (cbuf (paths ! k))) \<and>
     (\<forall>j < k. path_comps p \<noteq> path_comps (Some (cbuf (paths ! j))))"
  by (simp add: match_index_def find_upt_Some)


lemma find_map_list: "find P (map f xs) = map_option f (find (P \<circ> f) xs)"
  by (induction xs) auto

lemma find_cong_list: "(\<And>x. x \<in> set xs \<Longrightarrow> P x = Q x) \<Longrightarrow> find P xs = find Q xs"
  by (induction xs) auto

lemma find_matching_correct:
  assumes "no_alloc_failure w"
    and "\<And>p. file = Some p \<Longrightarrow> readable p"
    and "\<And>s. s \<in> set paths \<Longrightarrow> s \<noteq> []"
    and "n \<le> length paths"
  shows "find_matching_preopen_path file (Some (map Some paths @ [None])) n w =
    Inr (case match_index paths n file of None \<Rightarrow> - 1 | Some k \<Rightarrow> int k, w)"
proof -
  let ?ps = "map Some paths @ [None]"
  have "find_matching_from n 0 file (Some ?ps) w =
      Inr (case find (\<lambda>k. path_comps file = path_comps (map_option cbuf (?ps ! k))) [0..<0 + n] of
           None \<Rightarrow> - 1 | Some k \<Rightarrow> int k, w)"
    by (rule find_matching_from_correct) (use assms in auto)
  moreover have "find (\<lambda>k. path_comps file = path_comps (map_option cbuf (?ps ! k))) [0..<0 + n] =
      match_index paths n file"
    unfolding match_index_def using assms(4) by (auto intro!: find_cong_list simp: nth_append)
  ultimately show ?thesis by (simp add: find_matching_preopen_path_def)
qed

section \<open>Absolute paths and parent directories\<close>

text \<open>The path the lookup works on: the argument itself when it is absolute, otherwise the
  argument below the working directory.\<close>

definition below_cwd :: "string \<Rightarrow> string \<Rightarrow> string" where
  "below_cwd cwd file =
     (let a = cwd @ ''/'' @ (if take 2 file = ''./'' then drop 2 file else file)
      in if 1 < length a \<and> last a = slash then butlast a else a)"

definition resolve :: "kernel \<Rightarrow> syscall list \<Rightarrow> string \<Rightarrow> string option" where
  "resolve K tr file =
     (if cget file 0 = slash then Some file
      else
        case k_cwd K tr of
          None \<Rightarrow> None
        | Some cwd \<Rightarrow>
            if PATH_MAX < length cwd + length (if take 2 file = ''./'' then drop 2 file else file) + 2
            then None else Some (below_cwd cwd file))"

lemma get_absolute_path_resolve:
  assumes "no_alloc_failure w" "cget file 0 \<noteq> slash"
  shows "get_absolute_path K file w = Inr (map_option cbuf (resolve K (sys_trace w) file), w)"
proof (cases "k_cwd K (sys_trace w)")
  case None
  with assms show ?thesis by (simp add: get_absolute_path_def resolve_def getcwd_def)
next
  case (Some cwd)
  have "below_cwd cwd file = (if 1 < length a \<and> last a = slash then butlast a else a)"
    if "a = cwd @ ''/'' @ (if take 2 file = ''./'' then drop 2 file else file)" for a
    using that by (simp add: below_cwd_def Let_def)
  with Some assms show ?thesis
    by (simp add: get_absolute_path_def resolve_def getcwd_def Let_def)
qed

lemma below_cwd_not_Nil: "below_cwd cwd file \<noteq> []"
proof -
  have "butlast a \<noteq> []" if "1 < length a" for a :: string
    using that by (cases a) auto
  then show ?thesis by (simp add: below_cwd_def Let_def)
qed

lemma nul_free_butlast: "nul_free a \<Longrightarrow> nul_free (butlast a)"
  unfolding nul_free_def by (meson in_set_butlastD)

lemma below_cwd_nul_free:
  assumes "nul_free cwd" "nul_free file"
  shows "nul_free (below_cwd cwd file)"
proof -
  define a where "a = cwd @ ''/'' @ (if take 2 file = ''./'' then drop 2 file else file)"
  have "nul_free a" using assms nul_free_drop [OF assms(2)] by (simp add: a_def)
  with nul_free_butlast [OF this] show ?thesis unfolding below_cwd_def a_def [symmetric] Let_def by simp
qed

lemma resolve_not_Nil: "resolve K tr file = Some s \<Longrightarrow> s \<noteq> []"
  by (cases "file") (auto simp: resolve_def below_cwd_not_Nil split: if_splits option.splits)

definition cwd_ok :: "kernel \<Rightarrow> bool" where
  "cwd_ok K \<longleftrightarrow> (\<forall>tr d. k_cwd K tr = Some d \<longrightarrow> nul_free d)"

lemma resolve_nul_free: "resolve K tr file = Some s \<Longrightarrow> nul_free file \<Longrightarrow> cwd_ok K \<Longrightarrow> nul_free s"
  by (auto simp: resolve_def cwd_ok_def below_cwd_nul_free split: if_splits option.splits)

lemma strchr_total: "NUL \<in> set b \<Longrightarrow> strchr b c \<noteq> Inl e"
  by (induction b) auto

lemma strchr_tail: "NUL \<in> set b \<Longrightarrow> c \<noteq> NUL \<Longrightarrow> strchr b c = Inr (Some p) \<Longrightarrow> NUL \<in> set (tl p)"
  by (induction b) (auto split: if_splits)

lemma strrchr_loop_total:
  "NUL \<in> set b \<Longrightarrow> c \<noteq> NUL \<Longrightarrow> \<exists>r. strrchr_loop f b c = Inr r"
proof (induction f b c rule: strrchr_loop.induct)
  case (1 f b c)
  show ?case
  proof (cases "strchr b c")
    case (Inl e)
    with strchr_total [OF 1(2)] show ?thesis by simp
  next
    case (Inr r)
    with 1 strchr_tail [OF 1(2,3)] show ?thesis
      by (cases r) (simp_all add: strrchr_loop.simps [of f b c])
  qed
qed

lemma length_strip_slashes [simp]: "length (strip_slashes n b) = length b"
  by (induction n b rule: strip_slashes.induct) auto

lemma strip_slashes_last: "n < length b \<Longrightarrow> last b = NUL \<Longrightarrow> last (strip_slashes n b) = NUL"
proof (induction n b rule: strip_slashes.induct)
  case (2 len b)
  have "last (b[len := NUL]) = NUL"
    using 2 by (cases "b = []") (simp_all add: last_conv_nth nth_list_update)
  with 2 show ?case by simp
qed simp

lemma strip_slashes_id: "s \<noteq> [] \<Longrightarrow> last s \<noteq> slash \<Longrightarrow> strip_slashes (length s) (cbuf s) = cbuf s"
  by (cases s rule: rev_cases) (simp_all add: cbuf_def nth_append)

lemma last_list_update_NUL: "b \<noteq> [] \<Longrightarrow> last b = NUL \<Longrightarrow> last (b[i := NUL]) = NUL"
  by (cases "i < length b") (simp_all add: last_conv_nth nth_list_update list_update_beyond)

lemma remove_last_component_readable:
  assumes "no_alloc_failure w" "s \<noteq> []" "nul_free s"
  shows "\<exists>b. remove_last_component (Some (cbuf s)) w = Inr (Some b, w) \<and> readable b"
proof -
  let ?b = "strip_slashes (length s) (cbuf s)"
  have len: "length ?b = Suc (length s)" by simp
  then have ne: "?b \<noteq> []" by (metis length_0_conv nat.simps(3))
  have last: "last ?b = NUL"
    by (rule strip_slashes_last) (simp_all add: cbuf_def)
  then have "NUL \<in> set ?b" using ne by (metis last_in_set)
  then obtain r where r: "strrchr ?b slash = Inr r"
    using strrchr_loop_total [of ?b slash None] by (auto simp: strrchr_def)
  have fin: "readable c" if "length c = Suc (length s)" "last c = NUL" for c
  proof (cases c)
    case Nil
    with that(1) show ?thesis by simp
  next
    case (Cons x xs)
    with that assms(2) have "xs \<noteq> []" by auto
    with Cons that show ?thesis by (simp add: readable_def) (metis last_in_set)
  qed
  show ?thesis
    using assms r len last ne
    by (cases r) (auto simp: remove_last_component_def Let_def intro!: fin last_list_update_NUL)
qed

lemma remove_last_component_run:
  assumes "no_alloc_failure w" "nul_free s"
    and "strip_slashes (length s) (cbuf s) = b" "strrchr b slash = Inr (Some l)"
    and "length b - length l = at"
  shows "remove_last_component (Some (cbuf s)) w =
    Inr (Some (if at = 0 then b[0 := NUL, 1 := NUL] else b[at := NUL]), w)"
  using assms by (auto simp: remove_last_component_def Let_def)

text \<open>The parent directory of \<open>dir/name\<close> is \<open>dir\<close>, which for an entry of the root directory is
  the empty string.\<close>

lemma remove_last_component_parent:
  assumes "no_alloc_failure w" "nul_free (dir @ slash # name)" "name \<noteq> []" "slash \<notin> set name"
  shows "\<exists>b. remove_last_component (Some (cbuf (dir @ slash # name))) w = Inr (Some b, w) \<and>
    cstr b = dir \<and> readable b \<and> cstr (tl b) = tl dir"
proof -
  let ?s = "dir @ slash # name"
  have "last ?s \<noteq> slash" using assms(3,4) by (metis last_append last_ConsR last_in_set list.distinct(1))
  then have strip: "strip_slashes (length ?s) (cbuf ?s) = cbuf ?s"
    by (intro strip_slashes_id) simp_all
  have nm: "takeWhile (\<lambda>x. x \<noteq> slash) (rev ?s) = rev name"
    using assms(4) by (auto simp: takeWhile_append)
  have "strrchr (cbuf ?s) slash = Inr (Some (slash # name @ [NUL]))"
    using strrchr_loop_last [of ?s slash None "[]", unfolded nm] assms(2) by (simp add: strrchr_def cbuf_def)
  moreover have "length (cbuf ?s) - length (slash # name @ [NUL]) = length dir"
    by (simp add: cbuf_def)
  ultimately have run: "remove_last_component (Some (cbuf ?s)) w =
      Inr (Some (if length dir = 0 then (cbuf ?s)[0 := NUL, 1 := NUL] else (cbuf ?s)[length dir := NUL]), w)"
    using assms(1,2) strip by (intro remove_last_component_run)
  have upd: "(cbuf ?s)[length dir := NUL] = dir @ NUL # name @ [NUL]"
    by (simp add: cbuf_def)
  show ?thesis
  proof (cases dir)
    case Nil
    then show ?thesis using run upd assms(3)
      by (cases name) (auto simp: readable_def cbuf_def)
  next
    case (Cons c d)
    then show ?thesis using run upd assms(2) by (auto simp: readable_def)
  qed
qed

section \<open>What an open does\<close>

text \<open>
  A listed path, or the path of a file, in the form the mechanism is meant for: absolute,
  and with components that fit the component buffer.  For these paths the comparison by
  components is the comparison of the strings.
\<close>

definition plain_path :: "string \<Rightarrow> bool" where
  "plain_path p \<longleftrightarrow> cget p 0 = slash \<and> nul_free p \<and>
     (\<forall>c \<in> set (split_on (\<lambda>c. c = slash) (tl p)). length c < MAX_PATH_LEN)"

lemma plain_path_comps: "plain_path p \<Longrightarrow> path_comps (Some (cbuf p)) = split_on (\<lambda>c. c = slash) (tl p)"
  by (cases p) (auto simp: plain_path_def path_comps_def path_fields_def cbuf_def takeWhile_eq_all_conv)

lemma plain_path_eq:
  assumes "plain_path p" "plain_path q"
  shows "path_comps (Some (cbuf p)) = path_comps (Some (cbuf q)) \<longleftrightarrow> p = q"
proof -
  have "p = slash # tl p" "q = slash # tl q"
    using assms by (cases p; cases q; simp add: plain_path_def)+
  then have "p = q \<longleftrightarrow> tl p = tl q" by metis
  moreover have "tl p = tl q \<longleftrightarrow> split_on (\<lambda>c. c = slash) (tl p) = split_on (\<lambda>c. c = slash) (tl q)"
    using split_on_inj [of slash "tl p" "tl q"] by metis
  ultimately show ?thesis by (simp only: plain_path_comps [OF assms(1)] plain_path_comps [OF assms(2)])
qed

lemma plain_path_not_Nil: "plain_path p \<Longrightarrow> path_comps (Some (cbuf p)) \<noteq> []"
  by (simp add: plain_path_comps)

text \<open>The list of paths and the list of descriptors, paired up.\<close>

definition preopened :: "string list \<Rightarrow> string \<Rightarrow> string \<Rightarrow> (string \<times> int) list" where
  "preopened env paths_var fds_var =
     (case (getenv env paths_var, getenv env fds_var) of
        (Some ps, Some fs) \<Rightarrow> zip (colon_fields ps) (map parse_fd (colon_fields fs))
      | _ \<Rightarrow> [])"

text \<open>A configuration with fewer than \<open>MAX_LIST_LEN\<close> paths and no more descriptors than paths.\<close>

definition lists_ok :: "string list \<Rightarrow> string \<Rightarrow> string \<Rightarrow> bool" where
  "lists_ok env paths_var fds_var \<longleftrightarrow>
     (\<forall>ps. getenv env paths_var = Some ps \<longrightarrow>
        length (colon_fields ps) < MAX_LIST_LEN \<and>
        (\<forall>fs. getenv env fds_var = Some fs \<longrightarrow> length (colon_fields fs) \<le> length (colon_fields ps)))"

definition paths_plain :: "string list \<Rightarrow> string \<Rightarrow> bool" where
  "paths_plain env paths_var \<longleftrightarrow>
     (\<forall>ps. getenv env paths_var = Some ps \<longrightarrow> (\<forall>p \<in> set (colon_fields ps). plain_path p))"

lemma match_index_map_of:
  assumes "\<And>p. p \<in> set paths \<Longrightarrow> plain_path p" "plain_path f" "length fds \<le> length paths"
  shows "map_option (\<lambda>k. fds ! k) (match_index paths (length fds) (Some (cbuf f))) = map_of (zip paths fds) f"
proof -
  have eq: "path_comps (Some (cbuf f)) = path_comps (Some (cbuf (paths ! k))) \<longleftrightarrow> f = paths ! k"
    if "k < length fds" for k
    using assms that by (intro plain_path_eq) auto
  then have "match_index paths (length fds) (Some (cbuf f)) = find (\<lambda>k. f = paths ! k) [0..<length fds]"
    unfolding match_index_def by (intro find_cong_list) auto
  moreover have "map_option (\<lambda>k. fds ! k) (find (\<lambda>k. f = paths ! k) [0..<length fds]) = map_of (zip paths fds) f"
    using assms(3)
  proof (induction fds arbitrary: paths)
    case Nil
    then show ?case by simp
  next
    case (Cons fd fds)
    then obtain p ps where paths: "paths = p # ps" by (cases paths) auto
    have "[0..<length (fd # fds)] = 0 # map Suc [0..<length fds]"
      by (simp add: map_Suc_upt upt_conv_Cons del: upt_Suc)
    then have "find (\<lambda>k. f = paths ! k) [0..<length (fd # fds)] =
        (if f = p then Some 0 else map_option Suc (find (\<lambda>k. f = ps ! k) [0..<length fds]))"
      by (simp add: paths find_map_list comp_def)
    with Cons paths show ?case
      by (auto simp: option.map_comp comp_def)
  qed
  ultimately show ?thesis by simp
qed


text \<open>The part \<open>preopen_file\<close> and \<open>preopen_from_dir\<close> have in common: the path they resolve.\<close>

lemma resolve_run:
  assumes "no_alloc_failure w"
  shows "(if cget file 0 \<noteq> slash then get_absolute_path K file else mret (Some (cbuf file))) w =
    Inr (map_option cbuf (resolve K (sys_trace w) file), w)"
  using assms by (simp add: get_absolute_path_resolve) (simp add: resolve_def)

lemma preopen_file_match:
  assumes "no_alloc_failure w" "lists_ok (environ w) ''PREOPEN_FILES'' ''PREOPEN_FILE_FDS''"
  shows "preopen_file K file oflag mode w =
    Inr (case (getenv (environ w) ''PREOPEN_FILES'', getenv (environ w) ''PREOPEN_FILE_FDS'') of
        (Some ps, Some fs) \<Rightarrow>
          let fds = map parse_fd (colon_fields fs) in
          (case match_index (colon_fields ps) (length fds) (map_option cbuf (resolve K (sys_trace w) file)) of
             None \<Rightarrow> - 1
           | Some k \<Rightarrow> fds ! k)
      | _ \<Rightarrow> - 1, w)"
proof (cases "getenv (environ w) ''PREOPEN_FILES''")
  case None
  then show ?thesis by (simp add: preopen_file_def)
next
  case ps: (Some ps)
  then have len: "length (colon_fields ps) < MAX_LIST_LEN" using assms(2) by (simp add: lists_ok_def)
  show ?thesis
  proof (cases "getenv (environ w) ''PREOPEN_FILE_FDS''")
    case None
    with ps len assms(1) show ?thesis by (simp add: preopen_file_def get_string_list_fields)
  next
    case fs: (Some fs)
    have le: "length (colon_fields fs) \<le> length (colon_fields ps)"
      using ps fs assms(2) by (simp add: lists_ok_def)
    have "find_matching_preopen_path (map_option cbuf (resolve K (sys_trace w) file))
        (Some (map Some (colon_fields ps) @ [None])) (length (colon_fields fs)) w =
      Inr (case match_index (colon_fields ps) (length (colon_fields fs))
             (map_option cbuf (resolve K (sys_trace w) file)) of
             None \<Rightarrow> - 1 | Some k \<Rightarrow> int k, w)"
      using assms(1) le by (intro find_matching_correct) (auto dest: resolve_not_Nil tokens_member)
    with ps fs len le assms(1) show ?thesis
      by (simp add: preopen_file_def get_string_list_fields read_fds_fields resolve_run
        split: option.splits)
  qed
qed

lemma preopen_from_dir_match:
  assumes "no_alloc_failure w" "lists_ok (environ w) ''PREOPEN_PATHS'' ''PREOPEN_PATH_FDS''"
    and "(if oflag AND O_DIRECTORY = 0
          then remove_last_component (map_option cbuf (resolve K (sys_trace w) file))
          else mret (map_option cbuf (resolve K (sys_trace w) file))) w = Inr (t, w)"
    and "\<And>p. t = Some p \<Longrightarrow> readable p"
  shows "preopen_from_dir K file oflag mode w =
    (case (getenv (environ w) ''PREOPEN_PATHS'', getenv (environ w) ''PREOPEN_PATH_FDS'') of
        (Some ps, Some fs) \<Rightarrow>
          let fds = map parse_fd (colon_fields fs) in
          (case match_index (colon_fields ps) (length fds) t of
             None \<Rightarrow> Inr (- 1, w)
           | Some k \<Rightarrow>
               sys K (Sys_openat (fds ! k) (map_option cstr t) oflag
                  (if oflag AND O_CREAT \<noteq> 0 then Some mode else None)) w)
      | _ \<Rightarrow> Inr (- 1, w))"
proof (cases "getenv (environ w) ''PREOPEN_PATHS''")
  case None
  then show ?thesis by (simp add: preopen_from_dir_def)
next
  case ps: (Some ps)
  then have len: "length (colon_fields ps) < MAX_LIST_LEN" using assms(2) by (simp add: lists_ok_def)
  show ?thesis
  proof (cases "getenv (environ w) ''PREOPEN_PATH_FDS''")
    case None
    with ps len assms(1) show ?thesis by (simp add: preopen_from_dir_def get_string_list_fields)
  next
    case fs: (Some fs)
    have le: "length (colon_fields fs) \<le> length (colon_fields ps)"
      using ps fs assms(2) by (simp add: lists_ok_def)
    have find: "find_matching_preopen_path t
        (Some (map Some (colon_fields ps) @ [None])) (length (colon_fields fs)) w =
      Inr (case match_index (colon_fields ps) (length (colon_fields fs)) t of
             None \<Rightarrow> - 1 | Some k \<Rightarrow> int k, w)"
      using assms(1,4) le by (intro find_matching_correct) (auto dest: tokens_member)
    have "preopen_from_dir K file oflag mode w =
        mbind (find_matching_preopen_path t (Some (map Some (colon_fields ps) @ [None]))
            (length (colon_fields fs)))
          (\<lambda>path_index.
             if 0 \<le> path_index then
               mbind (sys K (Sys_openat (map parse_fd (colon_fields fs) ! nat path_index)
                    (map_option cstr t) oflag (if oflag AND O_CREAT \<noteq> 0 then Some mode else None)))
                 (\<lambda>fd. if fd \<noteq> - 1 then mret fd else mret (- 1))
             else mret (- 1)) w"
      using ps fs len le assms(1,3)
      by (simp add: preopen_from_dir_def get_string_list_fields read_fds_fields resolve_run mbind_def)
    with find ps fs show ?thesis by (simp split: option.splits)
  qed
qed

lemma dir_target:
  assumes "no_alloc_failure w" "nul_free file" "cwd_ok K"
  shows "\<exists>t. (if oflag AND O_DIRECTORY = 0
          then remove_last_component (map_option cbuf (resolve K (sys_trace w) file))
          else mret (map_option cbuf (resolve K (sys_trace w) file))) w = Inr (t, w) \<and>
     (\<forall>p. t = Some p \<longrightarrow> readable p)"
proof (cases "resolve K (sys_trace w) file")
  case None
  then show ?thesis by (simp add: remove_last_component_def)
next
  case (Some s)
  then have "s \<noteq> []" "nul_free s" using resolve_not_Nil resolve_nul_free assms(2,3) by blast+
  with Some remove_last_component_readable [OF assms(1) this] show ?thesis by auto
qed

text \<open>With a configuration that fits the lists, \<open>preopen\<close> always returns.\<close>

lemma preopen_returns:
  assumes "no_alloc_failure w" "nul_free file" "cwd_ok K"
    and "lists_ok (environ w) ''PREOPEN_FILES'' ''PREOPEN_FILE_FDS''"
    and "lists_ok (environ w) ''PREOPEN_PATHS'' ''PREOPEN_PATH_FDS''"
  shows "\<exists>fd w'. preopen K file oflag mode w = Inr (fd, w')"
proof -
  obtain fd1 where 1: "preopen_file K file oflag mode w = Inr (fd1, w)"
    using preopen_file_match [OF assms(1,4)] by blast
  obtain t where t: "(if oflag AND O_DIRECTORY = 0
          then remove_last_component (map_option cbuf (resolve K (sys_trace w) file))
          else mret (map_option cbuf (resolve K (sys_trace w) file))) w = Inr (t, w)"
      "\<And>p. t = Some p \<Longrightarrow> readable p"
    using dir_target [OF assms(1-3), of oflag] by blast
  have "\<exists>fd2 w'. preopen_from_dir K file oflag mode w = Inr (fd2, w')"
    using preopen_from_dir_match [where mode = mode, OF assms(1,5) t]
    by (simp add: Let_def split: option.splits)
  then obtain fd2 w' where "preopen_from_dir K file oflag mode w = Inr (fd2, w')" by blast
  with 1 show ?thesis by (cases "0 < fd1"; cases "0 < fd2") (simp_all add: preopen_def)
qed

lemma debug_log_line:
  assumes "length pre + length file \<le> LOG_BUFFER - 11" "0 < log_fd"
  shows "debug_log K log_fd pre file fd w =
    Inr ((), w\<lparr>sys_trace := sys_trace w @
      [Sys_write log_fd (pre @ '': '' @ file @ (if 0 < fd then '' success'' else '' failed'') @ [CHR 0x0A])]\<rparr>)"
  using assms by (simp add: debug_log_def log_put_def LOG_BUFFER_def)

lemma debug_log_returns:
  assumes "length pre + length file \<le> LOG_BUFFER - 11"
  shows "\<exists>w'. debug_log K log_fd pre file fd w = Inr ((), w') \<and>
    environ w' = environ w \<and> allocs w' = allocs w"
  using debug_log_line [OF assms] by (cases "0 < log_fd") (simp_all add: debug_log_def)

lemma get_debug_fd_returns:
  "\<exists>fd w'. get_debug_fd K w = Inr (fd, w') \<and> environ w' = environ w \<and> allocs w' = allocs w"
  by (auto simp: get_debug_fd_def Let_def split: option.splits)

lemma no_debug_log [simp]: "log_fd \<le> 0 \<Longrightarrow> debug_log K log_fd pre file fd = mret ()"
  by (simp add: debug_log_def)

lemma get_debug_fd_none:
  assumes "getenv (environ w) ''PREOPEN_DEBUG_FD'' = None" "getenv (environ w) ''PREOPEN_DEBUG_FILE'' = None"
  shows "get_debug_fd K w = Inr (- 1, w)"
  using assms by (simp add: get_debug_fd_def)

lemma get_debug_fd_no_alloc:
  "get_debug_fd K w = Inr (fd, w') \<Longrightarrow> no_alloc_failure w' = no_alloc_failure w \<and> environ w' = environ w"
  using get_debug_fd_returns [of K w] by (auto simp: no_alloc_failure_def)

lemma find_matching_from_append:
  assumes "find_matching_from n i file (Some ps) w = Inr (- 1, w1)"
  shows "find_matching_from (n + m) i file (Some ps) w = find_matching_from m (i + n) file (Some ps) w1"
  using assms
proof (induction n arbitrary: i w)
  case 0
  then show ?case by simp
next
  case (Suc n)
  then obtain b w' where "match_components (match_fuel file) file (map_option cbuf (ps ! i)) 0 w = Inr (b, w')"
    by (auto simp: mbind_eq_Inr_iff split: if_splits)
  with Suc show ?case by (cases b) (auto split: if_splits)
qed

section \<open>Correctness of open\<close>


text \<open>With none of the variables set, \<open>open64\<close> is the kernel's \<open>openat\<close> on the path as it
  was given, followed by a \<open>close\<close> of descriptor \<open>-1\<close>.\<close>

theorem open64_without_preopens:
  assumes "getenv (environ w) ''PREOPEN_FILES'' = None" "getenv (environ w) ''PREOPEN_PATHS'' = None"
    and "getenv (environ w) ''PREOPEN_DEBUG_FD'' = None" "getenv (environ w) ''PREOPEN_DEBUG_FILE'' = None"
  shows "libc_open64 K file oflag mode w =
    (let call = Sys_openat AT_FDCWD (Some file) oflag (Some (if open_needs_mode oflag then mode else 0))
     in Inr (k_ret K (sys_trace w) call, w\<lparr>sys_trace := sys_trace w @ [call, Sys_close (- 1)]\<rparr>))"
  using assms
  by (simp add: libc_open64_def Let_def get_debug_fd_none preopen_def preopen_file_def
      preopen_from_dir_def O_LARGEFILE_def)

text \<open>An open of a file whose resolved path is paired with a positive descriptor returns that
  descriptor without a system call, when no log is configured.\<close>

theorem open64_preopened_file:
  assumes "no_alloc_failure w"
    and "lists_ok (environ w) ''PREOPEN_FILES'' ''PREOPEN_FILE_FDS''"
    and "getenv (environ w) ''PREOPEN_FILES'' = Some ps" "getenv (environ w) ''PREOPEN_FILE_FDS'' = Some fs"
    and "resolve K (sys_trace w) file = Some f" "k < length (colon_fields fs)" "colon_fields ps ! k = f"
    and "\<And>j. j < k \<Longrightarrow> path_comps (Some (cbuf (colon_fields ps ! j))) \<noteq> path_comps (Some (cbuf f))"
    and "0 < parse_fd (colon_fields fs ! k)"
    and "getenv (environ w) ''PREOPEN_DEBUG_FD'' = None" "getenv (environ w) ''PREOPEN_DEBUG_FILE'' = None"
  shows "libc_open64 K file oflag mode w = Inr (parse_fd (colon_fields fs ! k), w)"
proof -
  have "match_index (colon_fields ps) (length (colon_fields fs)) (Some (cbuf f)) = Some k"
    using assms(6-8) by (auto simp: match_index_Some dest: sym)
  then have "preopen_file K file oflag m w = Inr (parse_fd (colon_fields fs ! k), w)" for m
    using assms(3-6) by (simp add: preopen_file_match [OF assms(1,2)])
  with assms(9-) show ?thesis
    by (simp add: libc_open64_def Let_def get_debug_fd_none preopen_def)
qed

text \<open>C34: with lists that fit, and as long as no allocation fails, an open of a path of at most 4077 bytes returns: no null
  pointer, no read or write outside a buffer, and the comparison of paths ends.  A failed allocation is excluded because the
  code goes on with the null pointer.\<close>

theorem open64_safe:
  assumes "no_alloc_failure w" "nul_free file" "length file \<le> 4077" "cwd_ok K"
    and "lists_ok (environ w) ''PREOPEN_FILES'' ''PREOPEN_FILE_FDS''"
    and "lists_ok (environ w) ''PREOPEN_PATHS'' ''PREOPEN_PATH_FDS''"
  shows "\<exists>fd w'. libc_open64 K file oflag mode w = Inr (fd, w')"
proof -
  define md where "md = (if open_needs_mode oflag then mode else 0)"
  obtain log_fd w1 where 1: "get_debug_fd K w = Inr (log_fd, w1)"
    and w1: "no_alloc_failure w1" "environ w1 = environ w"
    using get_debug_fd_returns [of K w] get_debug_fd_no_alloc [of K w] assms(1) by metis
  obtain fd2 w2 where 2: "preopen K file oflag md w1 = Inr (fd2, w2)"
    using preopen_returns [OF w1(1) assms(2,4)] assms(5,6) w1(2) by metis
  obtain w3 where 3: "debug_log K log_fd ''preopen'' file fd2 w2 = Inr ((), w3)"
    using debug_log_returns [of "''preopen''" "file" K log_fd fd2 w2] assms(3) by (auto simp: LOG_BUFFER_def)
  let ?c = "Sys_openat AT_FDCWD (Some file) (oflag OR O_LARGEFILE) (Some md)"
  obtain w4 where 4: "debug_log K log_fd ''open'' file (k_ret K (sys_trace w3) ?c)
      (w3\<lparr>sys_trace := sys_trace w3 @ [?c]\<rparr>) = Inr ((), w4)"
    using debug_log_returns [of "''open''" "file" K log_fd "k_ret K (sys_trace w3) ?c"] assms(3)
    by (fastforce simp: LOG_BUFFER_def)
  from 1 2 3 4 show ?thesis
    unfolding libc_open64_def Let_def md_def [symmetric] by (cases "0 < fd2") simp_all
qed

text \<open>C35: for a file \<open>dir/name\<close> the directory search looks up \<open>dir\<close>, and on a hit it asks the
  kernel to open \<open>dir\<close> itself, below the descriptor of \<open>dir\<close>; \<open>name\<close> is not passed on.\<close>

theorem preopen_from_dir_opens_parent:
  assumes "no_alloc_failure w" "lists_ok (environ w) ''PREOPEN_PATHS'' ''PREOPEN_PATH_FDS''"
    and "paths_plain (environ w) ''PREOPEN_PATHS''"
    and "oflag AND O_DIRECTORY = 0" "resolve K (sys_trace w) file = Some (dir @ slash # name)"
    and "plain_path dir" "nul_free name" "name \<noteq> []" "slash \<notin> set name"
  shows "preopen_from_dir K file oflag mode w =
    (case map_of (preopened (environ w) ''PREOPEN_PATHS'' ''PREOPEN_PATH_FDS'') dir of
       None \<Rightarrow> Inr (- 1, w)
     | Some fd \<Rightarrow>
         sys K (Sys_openat fd (Some dir) oflag (if oflag AND O_CREAT \<noteq> 0 then Some mode else None)) w)"
proof -
  have nf: "nul_free dir" using assms(6) by (simp add: plain_path_def)
  with assms(7) have "nul_free (dir @ slash # name)" by simp
  then obtain b where b: "remove_last_component (Some (cbuf (dir @ slash # name))) w = Inr (Some b, w)"
      "cstr b = dir" "readable b" "cstr (tl b) = tl dir"
    using remove_last_component_parent [OF assms(1) _ assms(8,9)] by blast
  have "cstr (tl (cbuf dir)) = tl dir" using assms(6) nf by (cases dir) (auto simp: cbuf_def plain_path_def)
  with b(4) have comps: "path_comps (Some b) = path_comps (Some (cbuf dir))"
    by (simp add: path_comps_def path_fields_def)
  have target: "(if oflag AND O_DIRECTORY = 0
          then remove_last_component (map_option cbuf (resolve K (sys_trace w) file))
          else mret (map_option cbuf (resolve K (sys_trace w) file))) w = Inr (Some b, w)"
    using assms(4,5) b(1) by simp
  have idx: "match_index qs n (Some b) = match_index qs n (Some (cbuf dir))" for qs n
    by (simp add: match_index_def comps)
  have rd: "\<And>p. Some b = Some p \<Longrightarrow> readable p" using b(3) by simp
  have run: "preopen_from_dir K file oflag mode w =
    (case (getenv (environ w) ''PREOPEN_PATHS'', getenv (environ w) ''PREOPEN_PATH_FDS'') of
        (Some ps, Some fs) \<Rightarrow>
          let fds = map parse_fd (colon_fields fs) in
          (case match_index (colon_fields ps) (length fds) (Some (cbuf dir)) of
             None \<Rightarrow> Inr (- 1, w)
           | Some k \<Rightarrow> sys K (Sys_openat (fds ! k) (Some dir) oflag
                  (if oflag AND O_CREAT \<noteq> 0 then Some mode else None)) w)
      | _ \<Rightarrow> Inr (- 1, w))"
    by (rule preopen_from_dir_match [where mode = mode, OF assms(1,2) target rd, unfolded idx option.map b(2)])
  show ?thesis
  proof (cases "getenv (environ w) ''PREOPEN_PATHS'' = None \<or> getenv (environ w) ''PREOPEN_PATH_FDS'' = None")
    case True
    then show ?thesis unfolding run by (auto simp: preopened_def split: option.splits)
  next
    case False
    then obtain ps fs where e: "getenv (environ w) ''PREOPEN_PATHS'' = Some ps"
      "getenv (environ w) ''PREOPEN_PATH_FDS'' = Some fs" by auto
    have "map_option (\<lambda>k. map parse_fd (colon_fields fs) ! k)
        (match_index (colon_fields ps) (length (map parse_fd (colon_fields fs))) (Some (cbuf dir))) =
      map_of (zip (colon_fields ps) (map parse_fd (colon_fields fs))) dir"
      using assms(2,3,6) e by (intro match_index_map_of) (auto simp: paths_plain_def lists_ok_def)
    then show ?thesis unfolding run e preopened_def by (auto simp: Let_def split: option.splits)
  qed
qed

text \<open>C36: with 128 or more paths in \<open>PREOPEN_FILES\<close> every open writes behind the array of the list.\<close>

theorem open64_list_overflow:
  assumes "no_alloc_failure w" "getenv (environ w) ''PREOPEN_FILES'' = Some ps"
    and "MAX_LIST_LEN \<le> length (colon_fields ps)"
  shows "libc_open64 K file oflag mode w = Inl Oob_write"
proof -
  obtain log_fd w1 where 1: "get_debug_fd K w = Inr (log_fd, w1)"
    and w1: "no_alloc_failure w1" "environ w1 = environ w"
    using get_debug_fd_returns [of K w] get_debug_fd_no_alloc [of K w] assms(1) by metis
  have "preopen_file K file oflag m w1 = Inl Oob_write" for m
    using assms(2,3) w1 by (simp add: preopen_file_def get_string_list_fields)
  with 1 show ?thesis by (simp add: libc_open64_def preopen_def)
qed

text \<open>When the lists give more descriptors than paths, by two or more, a file that matches
  none of the paths makes the search read an array element that was never written.\<close>

theorem preopen_file_uninitialised:
  assumes "no_alloc_failure w"
    and "getenv (environ w) ''PREOPEN_FILES'' = Some ps" "getenv (environ w) ''PREOPEN_FILE_FDS'' = Some fs"
    and "Suc (length (colon_fields ps)) < length (colon_fields fs)" "length (colon_fields fs) < MAX_LIST_LEN"
    and "resolve K (sys_trace w) file = Some f" "plain_path f"
    and "\<forall>p \<in> set (colon_fields ps). path_comps (Some (cbuf p)) \<noteq> path_comps (Some (cbuf f))"
  shows "preopen_file K file oflag mode w = Inl Uninit_read"
proof -
  let ?ps = "map Some (colon_fields ps) @ [None]" and ?n = "Suc (length (colon_fields ps))"
  have "path_comps (Some (cbuf f)) \<noteq> path_comps (map_option cbuf (?ps ! k))" if "k < ?n" for k
  proof (cases "k < length (colon_fields ps)")
    case True
    then show ?thesis using assms(8) nth_mem [OF True] by (metis length_map nth_append nth_map option.map(2))
  next
    case False
    then have "?ps ! k = None" using that by (simp add: nth_append)
    then show ?thesis using plain_path_not_Nil [OF assms(7)] by (simp add: path_comps_def [of None])
  qed
  then have "find (\<lambda>k. path_comps (Some (cbuf f)) = path_comps (map_option cbuf (?ps ! k))) [0..<0 + ?n] = None"
    unfolding find_None_iff by (metis add_0 atLeastLessThan_iff set_upt)
  moreover have "f \<noteq> []" using assms(7) by (auto simp: plain_path_def)
  ultimately have 1: "find_matching_from ?n 0 (Some (cbuf f)) (Some ?ps) w = Inr (- 1, w)"
    using find_matching_from_correct [of w "Some (cbuf f)" ?ps 0 ?n] assms(1)
    by (auto dest: tokens_member)
  obtain m where m: "length (colon_fields fs) = ?n + Suc m"
    using less_imp_Suc_add [OF assms(4)] by auto
  have "find_matching_preopen_path (Some (cbuf f)) (Some ?ps) (?n + Suc m) w = Inl Uninit_read"
    unfolding find_matching_preopen_path_def find_matching_from_append [OF 1] by simp
  then have "find_matching_preopen_path (Some (cbuf f)) (Some ?ps) (length (colon_fields fs)) w = Inl Uninit_read"
    by (simp only: m)
  with assms(1-6) show ?thesis
    by (simp add: preopen_file_def get_string_list_fields read_fds_fields resolve_run)
qed

text \<open>An open that a preopened file answers leaves the log file open: the calls are the open of
  the log and one line written to it, and no close.\<close>

theorem open64_leaves_log_open:
  assumes "getenv (environ w) ''PREOPEN_DEBUG_FD'' = None" "getenv (environ w) ''PREOPEN_DEBUG_FILE'' = Some log"
    and "open_log = Sys_open log (O_WRONLY OR O_APPEND OR O_CREAT) 438"
    and "log_fd = k_ret K (sys_trace w) open_log" "0 < log_fd" "length file \<le> 4077"
    and "w1 = w\<lparr>sys_trace := sys_trace w @ [open_log]\<rparr>"
    and "preopen_file K file oflag (if open_needs_mode oflag then mode else 0) w1 = Inr (fd, w1)" "0 < fd"
  shows "libc_open64 K file oflag mode w =
    Inr (fd, w\<lparr>sys_trace := sys_trace w @
      [open_log, Sys_write log_fd (''preopen: '' @ file @ '' success'' @ [CHR 0x0A])]\<rparr>)"
proof -
  have log: "get_debug_fd K w = Inr (log_fd, w1)"
    using assms(1-4,7) by (simp add: get_debug_fd_def)
  moreover have "debug_log K log_fd ''preopen'' file fd w1 =
      Inr ((), w1\<lparr>sys_trace := sys_trace w1 @
        [Sys_write log_fd (''preopen'' @ '': '' @ file @ '' success'' @ [CHR 0x0A])]\<rparr>)"
    using debug_log_line [of "''preopen''" "file" log_fd K fd w1] assms(5,6,9) by (simp add: LOG_BUFFER_def)
  moreover have "preopen K file oflag (if open_needs_mode oflag then mode else 0) w1 = Inr (fd, w1)"
    using assms(8,9) by (simp only: preopen_def mbind_Inr if_True monad_simps)
  ultimately have "libc_open64 K file oflag mode w = Inr (fd, w1\<lparr>sys_trace := sys_trace w1 @
        [Sys_write log_fd (''preopen'' @ '': '' @ file @ '' success'' @ [CHR 0x0A])]\<rparr>)"
    using assms(9) by (simp only: libc_open64_def Let_def mbind_Inr if_True monad_simps)
  then show ?thesis by (simp add: assms(7))
qed

section \<open>Concrete runs\<close>

definition demo_kernel :: kernel where
  "demo_kernel = \<lparr>k_ret = (\<lambda>tr c. 9), k_cwd = (\<lambda>tr. Some ''/srv'')\<rparr>"

definition demo_world :: world where
  "demo_world = \<lparr>environ = [''PREOPEN_FILES=/etc/hosts:/srv/data'', ''PREOPEN_FILE_FDS=5:6'',
       ''PREOPEN_PATHS=/var/lib'', ''PREOPEN_PATH_FDS=7''], allocs = [], sys_trace = []\<rparr>"

lemma demo_env:
  "environ demo_world = [''PREOPEN_FILES=/etc/hosts:/srv/data'', ''PREOPEN_FILE_FDS=5:6'',
       ''PREOPEN_PATHS=/var/lib'', ''PREOPEN_PATH_FDS=7'']"
  "sys_trace demo_world = []" "no_alloc_failure demo_world"
  by (simp_all add: demo_world_def no_alloc_failure_def)

lemma demo_getenv:
  "getenv (environ demo_world) ''PREOPEN_FILES'' = Some ''/etc/hosts:/srv/data''"
  "getenv (environ demo_world) ''PREOPEN_FILE_FDS'' = Some ''5:6''"
  "getenv (environ demo_world) ''PREOPEN_PATHS'' = Some ''/var/lib''"
  "getenv (environ demo_world) ''PREOPEN_PATH_FDS'' = Some ''7''"
  "getenv (environ demo_world) ''PREOPEN_DEBUG_FD'' = None"
  "getenv (environ demo_world) ''PREOPEN_DEBUG_FILE'' = None"
  unfolding demo_env by code_simp+

lemma demo_fields:
  "colon_fields ''/etc/hosts:/srv/data'' = [''/etc/hosts'', ''/srv/data'']"
  "colon_fields ''5:6'' = [''5'', ''6'']"
  "colon_fields ''/var/lib'' = [''/var/lib'']"
  "colon_fields ''7'' = [''7'']"
  by code_simp+

lemma demo_fds: "parse_fd ''5'' = 5" "parse_fd ''6'' = 6" "parse_fd ''7'' = 7"
  by (simp_all add: parse_fd_decimal digit_value_def)

lemma demo_plain: "plain_path ''/etc/hosts''" "plain_path ''/srv/data''" "plain_path ''/var/lib''"
  by code_simp+

lemma demo_resolve:
  "resolve demo_kernel [] ''data'' = Some ''/srv/data''"
  "resolve demo_kernel [] ''/var/lib/x'' = Some (''/var/lib'' @ slash # ''x'')"
  unfolding demo_kernel_def by code_simp+

lemma demo_lists:
  "lists_ok (environ demo_world) ''PREOPEN_FILES'' ''PREOPEN_FILE_FDS''"
  "lists_ok (environ demo_world) ''PREOPEN_PATHS'' ''PREOPEN_PATH_FDS''"
  "paths_plain (environ demo_world) ''PREOPEN_FILES''"
  "paths_plain (environ demo_world) ''PREOPEN_PATHS''"
  by (simp_all add: lists_ok_def paths_plain_def demo_getenv demo_fields demo_plain MAX_LIST_LEN_def)

lemma demo_preopened:
  "preopened (environ demo_world) ''PREOPEN_FILES'' ''PREOPEN_FILE_FDS'' = [(''/etc/hosts'', 5), (''/srv/data'', 6)]"
  "preopened (environ demo_world) ''PREOPEN_PATHS'' ''PREOPEN_PATH_FDS'' = [(''/var/lib'', 7)]"
  by (simp_all add: preopened_def demo_getenv demo_fields demo_fds)

lemmas demo = demo_env(2,3) demo_getenv demo_fields demo_fds demo_plain demo_resolve demo_lists demo_preopened


lemma demo_plain_env:
  "getenv [''HOME=/''] ''PREOPEN_FILES'' = None" "getenv [''HOME=/''] ''PREOPEN_PATHS'' = None"
  "getenv [''HOME=/''] ''PREOPEN_DEBUG_FD'' = None" "getenv [''HOME=/''] ''PREOPEN_DEBUG_FILE'' = None"
  by code_simp+

theorem open64_without_preopens_witness:
  "libc_open64 demo_kernel ''x'' 0 0 \<lparr>environ = [''HOME=/''], allocs = [], sys_trace = []\<rparr> =
   Inr (9, \<lparr>environ = [''HOME=/''], allocs = [],
     sys_trace = [Sys_openat AT_FDCWD (Some ''x'') 0 (Some 0), Sys_close (- 1)]\<rparr>)"
  using open64_without_preopens [of "\<lparr>environ = [''HOME=/''], allocs = [], sys_trace = []\<rparr>"
      demo_kernel "''x''" 0 0]
  by (simp add: demo_plain_env demo_kernel_def)

theorem open64_preopened_file_witness:
  "libc_open64 demo_kernel ''data'' 0 0 demo_world = Inr (6, demo_world)"
proof -
  have "path_comps (Some (cbuf ''/etc/hosts'')) \<noteq> path_comps (Some (cbuf ''/srv/data''))"
    using plain_path_eq [OF demo_plain(1,2)] by simp
  then show ?thesis
    using open64_preopened_file [of demo_world "''/etc/hosts:/srv/data''" "''5:6''" demo_kernel
        "''data''" "''/srv/data''" 1 0 0]
    by (simp add: demo)
qed

theorem open64_safe_witness:
  "\<exists>fd w'. libc_open64 demo_kernel ''/var/lib/x'' 0 0 demo_world = Inr (fd, w')"
  using open64_safe [of demo_world "''/var/lib/x''" demo_kernel 0 0]
  by (simp add: demo cwd_ok_def) (simp add: demo_kernel_def)

theorem preopen_from_dir_opens_parent_witness:
  "preopen_from_dir demo_kernel ''/var/lib/x'' 0 0 demo_world =
   Inr (9, demo_world\<lparr>sys_trace := [Sys_openat 7 (Some ''/var/lib'') 0 None]\<rparr>)"
proof -
  have "resolve demo_kernel (sys_trace demo_world) ''/var/lib/x'' = Some (''/var/lib'' @ slash # ''x'')"
    by (simp only: demo_env(2) demo_resolve(2))
  from preopen_from_dir_opens_parent [OF demo_env(3) demo_lists(2,4) _ this demo_plain(3), of 0 0]
  have "preopen_from_dir demo_kernel ''/var/lib/x'' 0 0 demo_world =
      sys demo_kernel (Sys_openat 7 (Some ''/var/lib'') 0 None) demo_world"
    unfolding demo_preopened by simp
  then show ?thesis by (simp add: demo_kernel_def demo_env(2))
qed

lemma demo_ret: "k_ret demo_kernel tr c = 9"
  by (simp add: demo_kernel_def)

definition long_world :: world where
  "long_world =
     \<lparr>environ = [''PREOPEN_FILES='' @ concat (replicate 128 ''/:'')], allocs = [], sys_trace = []\<rparr>"

lemma long_list: "length (colon_fields (concat (replicate n ''/:''))) = n"
  by (induction n) (simp_all add: tokens_def)

lemma long_getenv: "getenv (environ long_world) ''PREOPEN_FILES'' = Some (concat (replicate 128 ''/:''))"
  by (simp add: long_world_def getenv_def getenv_matches_def)

theorem open64_list_overflow_witness:
  "libc_open64 demo_kernel ''/x'' 0 0 long_world = Inl Oob_write"
  by (rule open64_list_overflow [OF _ long_getenv])
    (simp_all only: long_list MAX_LIST_LEN_def no_alloc_failure_def long_world_def world.simps order.refl)

definition short_world :: world where
  "short_world =
     \<lparr>environ = [''PREOPEN_FILES=/a'', ''PREOPEN_FILE_FDS=3:4:5'', ''PREOPEN_DEBUG_FILE=/l''],
      allocs = [], sys_trace = []\<rparr>"

lemma short_env:
  "environ short_world = [''PREOPEN_FILES=/a'', ''PREOPEN_FILE_FDS=3:4:5'', ''PREOPEN_DEBUG_FILE=/l'']"
  "sys_trace short_world = []" "no_alloc_failure short_world"
  by (simp_all add: short_world_def no_alloc_failure_def)

lemma short_getenv:
  "getenv (environ short_world) ''PREOPEN_FILES'' = Some ''/a''"
  "getenv (environ short_world) ''PREOPEN_FILE_FDS'' = Some ''3:4:5''"
  "getenv (environ short_world) ''PREOPEN_DEBUG_FD'' = None"
  "getenv (environ short_world) ''PREOPEN_DEBUG_FILE'' = Some ''/l''"
  unfolding short_env by code_simp+

lemma short_fields:
  "colon_fields ''/a'' = [''/a'']" "colon_fields ''3:4:5'' = [''3'', ''4'', ''5'']"
  by code_simp+

lemma short_plain: "plain_path ''/a''" "plain_path ''/b''"
  by code_simp+

theorem preopen_file_uninitialised_witness:
  "preopen_file demo_kernel ''/b'' 0 0 short_world = Inl Uninit_read"
proof (rule preopen_file_uninitialised [OF short_env(3) short_getenv(1,2) _ _ _ short_plain(2)])
  show "\<forall>p \<in> set (colon_fields ''/a''). path_comps (Some (cbuf p)) \<noteq> path_comps (Some (cbuf ''/b''))"
    using plain_path_eq [OF short_plain] by (simp add: short_fields)
qed (simp_all add: short_fields MAX_LIST_LEN_def resolve_def)

definition logged_world :: world where
  "logged_world =
     \<lparr>environ = [''PREOPEN_FILES=/a'', ''PREOPEN_FILE_FDS=3'', ''PREOPEN_DEBUG_FILE=/l''],
      allocs = [], sys_trace = []\<rparr>"

lemma logged_env:
  "environ logged_world = [''PREOPEN_FILES=/a'', ''PREOPEN_FILE_FDS=3'', ''PREOPEN_DEBUG_FILE=/l'']"
  "sys_trace logged_world = []" "no_alloc_failure logged_world"
  by (simp_all add: logged_world_def no_alloc_failure_def)

lemma logged_getenv:
  "getenv (environ logged_world) ''PREOPEN_FILES'' = Some ''/a''"
  "getenv (environ logged_world) ''PREOPEN_FILE_FDS'' = Some ''3''"
  "getenv (environ logged_world) ''PREOPEN_DEBUG_FD'' = None"
  "getenv (environ logged_world) ''PREOPEN_DEBUG_FILE'' = Some ''/l''"
  unfolding logged_env by code_simp+

lemma logged_fields: "colon_fields ''3'' = [''3'']" "parse_fd ''3'' = 3"
  by (simp_all add: parse_fd_decimal digit_value_def tokens_def)

lemma logged_preopen:
  assumes "environ w = environ logged_world" "no_alloc_failure w"
  shows "preopen_file demo_kernel ''/a'' oflag mode w = Inr (3, w)"
proof -
  have "match_index [''/a''] 1 (Some (cbuf ''/a'')) = Some 0" by (simp add: match_index_Some)
  moreover have "lists_ok (environ w) ''PREOPEN_FILES'' ''PREOPEN_FILE_FDS''"
    by (simp add: assms(1) lists_ok_def logged_getenv short_fields logged_fields MAX_LIST_LEN_def)
  ultimately show ?thesis
    using preopen_file_match [of w demo_kernel "''/a''" oflag mode] assms
    by (simp add: logged_getenv short_fields logged_fields resolve_def)
qed

theorem open64_leaves_log_open_witness:
  "libc_open64 demo_kernel ''/a'' 0 0 logged_world =
   Inr (3, logged_world\<lparr>sys_trace :=
     [Sys_open ''/l'' (O_WRONLY OR O_APPEND OR O_CREAT) 438, Sys_write 9 (''preopen: /a success'' @ [CHR 0x0A])]\<rparr>)"
  using open64_leaves_log_open [OF logged_getenv(3,4) refl refl _ _ refl, of demo_kernel "''/a''" 0 0 3]
  by (simp add: logged_preopen logged_env demo_ret)

end
