(* ===== verification/SortMaps.thy ===== *)
theory SortMaps
  imports Prelude "HOL-Library.Multiset"
begin

text \<open>
  The order in which the loader initializes and finishes objects: elf/dl-sort-maps.c.
  Link maps are addresses of a store that gives the fields the sort reads; \<open>l_visited\<close>,
  the only field it writes, is a set of addresses.  The recursion of \<open>dfs_traversal\<close> and the
  loop of the older algorithm take fuel, which is shown to be enough.  Lemmas: both algorithms
  return a permutation of their input, and the depth-first sort puts every object before those
  it depends on, except along a cycle.
\<close>

section \<open>Objects\<close>

type_synonym addr = nat

record sort_map =
  l_initfini :: "addr list option"   \<comment> \<open>null-terminated in the code\<close>
  l_reldeps :: "addr list option"    \<comment> \<open>the first \<open>act\<close> entries\<close>
  l_main_map :: bool
  l_real :: addr
  l_idx :: int

type_synonym store = "addr \<Rightarrow> sort_map"

section \<open>The original algorithm\<close>

text \<open>Does the object at \<open>k\<close> make \<open>thisp\<close> move behind it?\<close>

definition moves_behind :: "store \<Rightarrow> bool \<Rightarrow> addr \<Rightarrow> addr \<Rightarrow> bool" where
  "moves_behind G for_fini mk thisp \<longleftrightarrow>
     (case l_initfini (G mk) of None \<Rightarrow> False | Some deps \<Rightarrow> thisp \<in> set deps) \<or>
     (for_fini \<and>
      (case l_reldeps (G mk) of
         None \<Rightarrow> False
       | Some rels \<Rightarrow>
           thisp \<in> set rels \<and>
           \<not> (case l_initfini (G thisp) of None \<Rightarrow> False | Some deps \<Rightarrow> mk \<in> set deps)))"

text \<open>\<open>k = nmaps - 1; while (k > i) ... --k\<close>; the first argument is \<open>k - i\<close>.\<close>

primrec last_dependent :: "nat \<Rightarrow> store \<Rightarrow> bool \<Rightarrow> addr list \<Rightarrow> nat \<Rightarrow> nat option" where
  "last_dependent 0 G for_fini maps i = None"
| "last_dependent (Suc d) G for_fini maps i =
     (if moves_behind G for_fini (maps ! (i + Suc d)) (maps ! i) then Some (i + Suc d)
      else last_dependent d G for_fini maps i)"

text \<open>\<open>memmove (&a[i], &a[i + 1], k - i)\<close> followed by storing the old \<open>a[i]\<close> at \<open>k\<close>.\<close>

definition move_back :: "nat \<Rightarrow> nat \<Rightarrow> 'a list \<Rightarrow> 'a list" where
  "move_back i k a = take i a @ take (k - i) (drop (Suc i) a) @ [a ! i] @ drop (Suc k) a"

definition clear_from :: "nat \<Rightarrow> nat list \<Rightarrow> nat list" where
  "clear_from i seen = take i seen @ replicate (length seen - i) 0"

primrec original_loop ::
  "nat \<Rightarrow> store \<Rightarrow> bool \<Rightarrow> addr list \<Rightarrow> nat list \<Rightarrow> nat \<Rightarrow> addr list res" where
  "original_loop 0 G for_fini maps seen i = Inl Out_of_fuel"
| "original_loop (Suc fuel) G for_fini maps seen i =
     (let nmaps = length maps;
          seen = seen[i := (seen ! i + 1) mod 2 ^ 16];
          thisp = maps ! i;
          skip = (if Suc i = nmaps then Inr maps
                  else original_loop fuel G for_fini maps (clear_from (Suc i) seen) (Suc i))
      in
      if for_fini \<and> (thisp \<noteq> l_real (G thisp) \<or> l_idx (G thisp) = - 1) then skip
      else
        case last_dependent (nmaps - 1 - i) G for_fini maps i of
          None \<Rightarrow> skip
        | Some k \<Rightarrow>
            let maps = move_back i k maps in
            if nmaps - i < seen ! Suc i
            then original_loop fuel G for_fini maps (clear_from (Suc i) seen) (Suc i)
            else original_loop fuel G for_fini maps (move_back i k seen) i)"

definition original_fuel :: "nat \<Rightarrow> nat" where
  "original_fuel n = Suc n * (Suc n * Suc (Suc n))"

text \<open>
  \<open>nmaps -= skip\<close> is unsigned: if more objects are skipped than there are, \<open>nmaps\<close> wraps around to almost \<open>2 ^ 32\<close>, and the
  array of that many counters does not fit the stack.
\<close>

definition dl_sort_maps_original :: "store \<Rightarrow> addr list \<Rightarrow> nat \<Rightarrow> bool \<Rightarrow> addr list res" where
  "dl_sort_maps_original G maps skip for_fini =
     (let rest = drop skip maps; nmaps = length rest in
      if length maps < skip then Inl Oob_write
      else if nmaps \<le> 1 then Inr maps
      else
        rbind (original_loop (original_fuel nmaps) G for_fini rest (replicate nmaps 0) 0)
          (\<lambda>rest. Inr (take skip maps @ rest)))"

section \<open>The depth-first algorithm\<close>

text \<open>
  \<open>rpo\<close> is what has been written below the end of the result array, \<open>room\<close> the number of
  elements still free in front of it.
\<close>

record dfs_state =
  l_visited :: "addr set"
  rpo :: "addr list"
  room :: nat
  do_reldeps :: bool

definition put_rpo :: "addr \<Rightarrow> dfs_state \<Rightarrow> dfs_state res" where
  "put_rpo m st =
     (if room st = 0 then Inl Oob_write
      else Inr (st\<lparr>room := room st - 1, rpo := m # rpo st\<rparr>))"

fun dfs_traversal :: "nat \<Rightarrow> store \<Rightarrow> bool \<Rightarrow> addr \<Rightarrow> dfs_state \<Rightarrow> dfs_state res"
  and dfs_deps :: "nat \<Rightarrow> store \<Rightarrow> bool \<Rightarrow> addr list \<Rightarrow> dfs_state \<Rightarrow> dfs_state res" where
  "dfs_traversal 0 G reldeps m st = Inl Out_of_fuel"
| "dfs_traversal (Suc fuel) G reldeps m st =
     (if m \<in> l_visited st then Inr st
      else
        rbind
          (case l_initfini (G m) of
             None \<Rightarrow> Inr (st\<lparr>l_visited := insert m (l_visited st)\<rparr>)
           | Some deps \<Rightarrow> dfs_deps fuel G reldeps deps (st\<lparr>l_visited := insert m (l_visited st)\<rparr>))
        (\<lambda>st. rbind
          (case l_reldeps (G m) of
             None \<Rightarrow> Inr st
           | Some rels \<Rightarrow>
               if reldeps then dfs_deps fuel G reldeps (rev rels) (st\<lparr>do_reldeps := True\<rparr>)
               else Inr st)
          (put_rpo m)))"
| "dfs_deps fuel G reldeps [] st = Inr st"
| "dfs_deps fuel G reldeps (dep # deps) st =
     (if dep \<notin> l_visited st \<and> \<not> l_main_map (G dep)
      then rbind (dfs_traversal fuel G reldeps dep st) (dfs_deps fuel G reldeps deps)
      else dfs_deps fuel G reldeps deps st)"

text \<open>The loop over the maps, given back to front; it stops as soon as the array is full.\<close>

primrec dfs_maps :: "nat \<Rightarrow> store \<Rightarrow> bool \<Rightarrow> addr list \<Rightarrow> dfs_state \<Rightarrow> dfs_state res" where
  "dfs_maps fuel G reldeps [] st = (if room st = 0 then Inr st else Inl Assert_fail)"
| "dfs_maps fuel G reldeps (m # maps) st =
     rbind (dfs_traversal fuel G reldeps m st)
       (\<lambda>st. if room st = 0 then Inr st else dfs_maps fuel G reldeps maps st)"

definition dl_sort_maps_dfs ::
  "store \<Rightarrow> addr list \<Rightarrow> bool \<Rightarrow> addr set \<Rightarrow> (addr list \<times> addr set) res" where
  "dl_sort_maps_dfs G maps for_fini visited =
     (let nmaps = length maps; fuel = Suc nmaps in
      rbind (dfs_maps fuel G for_fini (rev maps)
          \<lparr>l_visited = visited - set maps, rpo = [], room = nmaps, do_reldeps = False\<rparr>)
        (\<lambda>st.
          if do_reldeps st then
            rbind (dfs_maps fuel G False (rev (rpo st))
                \<lparr>l_visited = l_visited st - set (rpo st), rpo = [], room = nmaps, do_reldeps = False\<rparr>)
              (\<lambda>st. Inr (rpo st, l_visited st))
          else Inr (rpo st, l_visited st)))"

section \<open>Selection\<close>

datatype dso_sort_algorithm = Sort_original | Sort_dfs

definition dl_sort_maps_init :: "int \<Rightarrow> dso_sort_algorithm" where
  "dl_sort_maps_init algorithm = (if algorithm = 1 then Sort_original else Sort_dfs)"

definition dl_sort_maps ::
  "dso_sort_algorithm \<Rightarrow> store \<Rightarrow> addr list \<Rightarrow> nat \<Rightarrow> bool \<Rightarrow> addr set \<Rightarrow> (addr list \<times> addr set) res" where
  "dl_sort_maps algo G maps skip for_fini visited =
     (case algo of
        Sort_original \<Rightarrow> rbind (dl_sort_maps_original G maps skip for_fini) (\<lambda>maps. Inr (maps, visited))
      | Sort_dfs \<Rightarrow> dl_sort_maps_dfs G maps for_fini visited)"

section \<open>What a traversal does\<close>

text \<open>The dependencies a traversal follows.\<close>

definition deps_of :: "store \<Rightarrow> bool \<Rightarrow> addr \<Rightarrow> addr list" where
  "deps_of G reldeps x =
     (case l_initfini (G x) of None \<Rightarrow> [] | Some deps \<Rightarrow> deps) @
     (if reldeps then case l_reldeps (G x) of None \<Rightarrow> [] | Some rels \<Rightarrow> rev rels else [])"

definition edge :: "store \<Rightarrow> bool \<Rightarrow> addr \<Rightarrow> addr \<Rightarrow> bool" where
  "edge G reldeps x y \<longleftrightarrow> y \<in> set (deps_of G reldeps x) \<and> \<not> l_main_map (G y)"

definition before :: "'a list \<Rightarrow> 'a \<Rightarrow> 'a \<Rightarrow> bool" where
  "before xs x y \<longleftrightarrow> (\<exists>us vs. xs = us @ vs \<and> x \<in> set us \<and> y \<in> set vs)"

definition inside :: "store \<Rightarrow> bool \<Rightarrow> addr set \<Rightarrow> addr \<Rightarrow> addr \<Rightarrow> bool" where
  "inside G r S x y \<longleftrightarrow> edge G r x y \<and> x \<in> S \<and> y \<in> S"

text \<open>Every edge inside the list that is not part of a cycle of the list points forward.\<close>

definition forward :: "store \<Rightarrow> bool \<Rightarrow> addr list \<Rightarrow> bool" where
  "forward G r xs \<longleftrightarrow>
     (\<forall>x \<in> set xs. \<forall>y \<in> set xs. edge G r x y \<longrightarrow> \<not> (inside G r (set xs))\<^sup>*\<^sup>* y x \<longrightarrow> before xs x y)"

text \<open>From \<open>st\<close> to \<open>st'\<close> the list \<open>new\<close> was placed, starting from \<open>roots\<close>.\<close>

definition placed :: "store \<Rightarrow> bool \<Rightarrow> addr set \<Rightarrow> dfs_state \<Rightarrow> addr list \<Rightarrow> dfs_state \<Rightarrow> bool" where
  "placed G r roots st new st' \<longleftrightarrow>
     rpo st' = new @ rpo st \<and> room st' + length new = room st \<and>
     l_visited st' = l_visited st \<union> set new \<and> set new \<inter> l_visited st = {} \<and> distinct new \<and>
     (\<forall>x \<in> set new. \<exists>q \<in> roots \<inter> set new. (inside G r (set new))\<^sup>*\<^sup>* q x) \<and>
     (\<forall>x \<in> set new. \<forall>y. edge G r x y \<longrightarrow> y \<in> l_visited st') \<and>
     (do_reldeps st' \<longleftrightarrow> do_reldeps st \<or> (r \<and> (\<exists>x \<in> set new. l_reldeps (G x) \<noteq> None))) \<and>
     forward G r new"

lemma before_append:
  "x \<in> set us \<Longrightarrow> y \<in> set vs \<Longrightarrow> before (us @ vs) x y"
  "before us x y \<Longrightarrow> before (us @ vs) x y"
  "before vs x y \<Longrightarrow> before (us @ vs) x y"
  unfolding before_def
proof -
  assume "\<exists>as bs. us = as @ bs \<and> x \<in> set as \<and> y \<in> set bs"
  then obtain as bs where "us = as @ bs" "x \<in> set as" "y \<in> set bs" by blast
  then show "\<exists>as bs. us @ vs = as @ bs \<and> x \<in> set as \<and> y \<in> set bs"
    by (intro exI [of _ as] exI [of _ "bs @ vs"]) simp
next
  assume "\<exists>as bs. vs = as @ bs \<and> x \<in> set as \<and> y \<in> set bs"
  then obtain as bs where "vs = as @ bs" "x \<in> set as" "y \<in> set bs" by blast
  then show "\<exists>as bs. us @ vs = as @ bs \<and> x \<in> set as \<and> y \<in> set bs"
    by (intro exI [of _ "us @ as"] exI [of _ bs]) simp
qed blast

lemma placedD:
  assumes "placed G r roots st new st'"
  shows "rpo st' = new @ rpo st" "room st' + length new = room st"
    "l_visited st' = l_visited st \<union> set new" "set new \<inter> l_visited st = {}" "distinct new"
    "\<And>x. x \<in> set new \<Longrightarrow> \<exists>q \<in> roots \<inter> set new. (inside G r (set new))\<^sup>*\<^sup>* q x"
    "\<And>x y. x \<in> set new \<Longrightarrow> edge G r x y \<Longrightarrow> y \<in> l_visited st'"
    "do_reldeps st' \<longleftrightarrow> do_reldeps st \<or> (r \<and> (\<exists>x \<in> set new. l_reldeps (G x) \<noteq> None))"
    "forward G r new"
  using assms unfolding placed_def by blast+

lemma placed_refl: "placed G r {} st [] st"
  by (simp add: placed_def forward_def)

lemma placed_roots: "placed G r roots st new st' \<Longrightarrow> roots \<subseteq> roots' \<Longrightarrow> placed G r roots' st new st'"
  unfolding placed_def by blast

lemma inside_mono: "S \<subseteq> T \<Longrightarrow> (inside G r S)\<^sup>*\<^sup>* x y \<Longrightarrow> (inside G r T)\<^sup>*\<^sup>* x y"
  by (rule rtranclp_mono [THEN predicate2D, rotated]) (auto simp: inside_def)

lemma placed_trans:
  assumes 1: "placed G r roots1 st new1 st1" and 2: "placed G r roots2 st1 new2 st2"
  shows "placed G r (roots1 \<union> roots2) st (new2 @ new1) st2"
proof -
  have vis: "l_visited st1 = l_visited st \<union> set new1" "set new2 \<inter> l_visited st1 = {}"
    and closed: "\<And>x y. x \<in> set new1 \<Longrightarrow> edge G r x y \<Longrightarrow> y \<in> l_visited st1"
    and fw: "forward G r new1" "forward G r new2"
    using placedD(3,7,9) [OF 1] placedD(4,9) [OF 2] by blast+
  have "forward G r (new2 @ new1)"
    unfolding forward_def
  proof (intro ballI impI)
    fix x y
    assume x: "x \<in> set (new2 @ new1)" and y: "y \<in> set (new2 @ new1)"
      and e: "edge G r x y" "\<not> (inside G r (set (new2 @ new1)))\<^sup>*\<^sup>* y x"
    have e2: "\<not> (inside G r (set new1))\<^sup>*\<^sup>* y x" "\<not> (inside G r (set new2))\<^sup>*\<^sup>* y x"
      using e(2) inside_mono [of "set new1" "set (new2 @ new1)" G r y x]
        inside_mono [of "set new2" "set (new2 @ new1)" G r y x] by auto
    consider "x \<in> set new2" "y \<in> set new2" | "x \<in> set new2" "y \<in> set new1"
      | "x \<in> set new1" "y \<in> set new1" | "x \<in> set new1" "y \<in> set new2"
      using x y by auto
    then show "before (new2 @ new1) x y"
    proof cases
      case 4
      with closed e(1) vis(2) show ?thesis by blast
    qed (use fw e(1) e2 in \<open>auto simp: forward_def intro: before_append\<close>)
  qed
  moreover have "y \<in> l_visited st2" if "x \<in> set (new2 @ new1)" "edge G r x y" for x y
    using that placedD(7) [OF 2] placedD(7) [OF 1] placedD(3) [OF 2] by (metis Un_iff set_append)
  moreover have "\<exists>q \<in> (roots1 \<union> roots2) \<inter> set (new2 @ new1). (inside G r (set (new2 @ new1)))\<^sup>*\<^sup>* q x"
    if x: "x \<in> set (new2 @ new1)" for x
  proof -
    consider "x \<in> set new1" | "x \<in> set new2" using x by auto
    then show ?thesis
    proof cases
      case 1
      then obtain q where "q \<in> roots1 \<inter> set new1" "(inside G r (set new1))\<^sup>*\<^sup>* q x"
        using placedD(6) [OF \<open>placed G r roots1 st new1 st1\<close>] by blast
      then show ?thesis using inside_mono [of "set new1" "set (new2 @ new1)" G r q x] by auto
    next
      case 2
      then obtain q where "q \<in> roots2 \<inter> set new2" "(inside G r (set new2))\<^sup>*\<^sup>* q x"
        using placedD(6) [OF \<open>placed G r roots2 st1 new2 st2\<close>] by blast
      then show ?thesis using inside_mono [of "set new2" "set (new2 @ new1)" G r q x] by auto
    qed
  qed
  moreover have "distinct (new2 @ new1)"
    using placedD(4,5) [OF 2] placedD(5) [OF 1] vis(1) by auto
  moreover have "set (new2 @ new1) \<inter> l_visited st = {}"
    using placedD(4) [OF 2] placedD(4) [OF 1] vis(1) by auto
  moreover have "l_visited st2 = l_visited st \<union> set (new2 @ new1)"
    using placedD(3) [OF 2] vis(1) by auto
  moreover have "do_reldeps st2 \<longleftrightarrow> do_reldeps st \<or> (r \<and> (\<exists>x \<in> set (new2 @ new1). l_reldeps (G x) \<noteq> None))"
    unfolding placedD(8) [OF 2] placedD(8) [OF 1] by auto
  moreover have "rpo st2 = (new2 @ new1) @ rpo st" "room st2 + length (new2 @ new1) = room st"
    using placedD(1,2) [OF 2] placedD(1,2) [OF 1] by simp_all
  ultimately show ?thesis unfolding placed_def by blast
qed

lemma placed_flag:
  "placed G r roots st new st' \<Longrightarrow>
   placed G r roots (st\<lparr>do_reldeps := do_reldeps st \<or> b\<rparr>) new (st'\<lparr>do_reldeps := do_reldeps st' \<or> b\<rparr>)"
  unfolding placed_def by auto

lemma no_flag: "(st :: dfs_state)\<lparr>do_reldeps := do_reldeps st\<rparr> = st"
  by simp

definition enter :: "store \<Rightarrow> bool \<Rightarrow> addr \<Rightarrow> dfs_state \<Rightarrow> dfs_state" where
  "enter G r m st =
     st\<lparr>l_visited := insert m (l_visited st),
        do_reldeps := do_reldeps st \<or> (r \<and> l_reldeps (G m) \<noteq> None)\<rparr>"

lemma placed_node:
  assumes new: "placed G r roots (enter G r m st) new st2"
    and roots: "\<And>d. d \<in> roots \<Longrightarrow> edge G r m d"
    and m: "m \<notin> l_visited st"
    and all: "\<And>d. edge G r m d \<Longrightarrow> d \<in> l_visited st2"
    and put: "put_rpo m st2 = Inr st3"
  shows "placed G r {m} st (m # new) st3"
proof -
  note D = placedD [OF new]
  have st3: "rpo st3 = m # rpo st2" "Suc (room st3) = room st2" "l_visited st3 = l_visited st2"
    "do_reldeps st3 = do_reldeps st2"
    using put by (auto simp: put_rpo_def split: if_splits)
  have reach: "(inside G r (set (m # new)))\<^sup>*\<^sup>* m x" if x: "x \<in> set new" for x
  proof -
    obtain q where q: "q \<in> roots" "q \<in> set new" "(inside G r (set new))\<^sup>*\<^sup>* q x"
      using D(6) [OF x] by blast
    have "(inside G r (set (m # new)))\<^sup>*\<^sup>* q x" by (rule inside_mono [OF _ q(3)]) auto
    moreover have "inside G r (set (m # new)) m q" using roots [OF q(1)] q(2) by (simp add: inside_def)
    ultimately show ?thesis by (rule converse_rtranclp_into_rtranclp [rotated])
  qed
  have "forward G r (m # new)"
    unfolding forward_def
  proof (intro ballI impI)
    fix x y
    assume x: "x \<in> set (m # new)" and y: "y \<in> set (m # new)"
      and e: "edge G r x y" "\<not> (inside G r (set (m # new)))\<^sup>*\<^sup>* y x"
    have e2: "\<not> (inside G r (set new))\<^sup>*\<^sup>* y x"
      using e(2) inside_mono [of "set new" "set (m # new)" G r y x] by auto
    have "y \<noteq> m"
      using x e(2) reach by auto
    then have y': "y \<in> set new" using y by simp
    show "before (m # new) x y"
    proof (cases "x = m")
      case True
      then show ?thesis using before_append(1) [of x "[m]" y new] y' by simp
    next
      case False
      then have "before new x y" using x y' e(1) e2 D(9) by (simp add: forward_def)
      then show ?thesis using before_append(3) [of new x y "[m]"] by simp
    qed
  qed
  moreover have "y \<in> l_visited st3" if "x \<in> set (m # new)" "edge G r x y" for x y
    using that all D(7) st3(3) by auto
  moreover have "\<exists>q \<in> {m} \<inter> set (m # new). (inside G r (set (m # new)))\<^sup>*\<^sup>* q x" if "x \<in> set (m # new)" for x
    using that reach by auto
  moreover have "distinct (m # new)" "set (m # new) \<inter> l_visited st = {}"
    using D(4,5) m by (auto simp: enter_def)
  moreover have "l_visited st3 = l_visited st \<union> set (m # new)"
    using D(3) st3(3) by (auto simp: enter_def)
  moreover have "do_reldeps st3 \<longleftrightarrow> do_reldeps st \<or> (r \<and> (\<exists>x \<in> set (m # new). l_reldeps (G x) \<noteq> None))"
    using D(8) st3(4) by (auto simp: enter_def)
  moreover have "rpo st3 = (m # new) @ rpo st" "room st3 + length (m # new) = room st"
    using D(1,2) st3(1,2) by (simp_all add: enter_def)
  ultimately show ?thesis unfolding placed_def by blast
qed

abbreviation dep_roots :: "store \<Rightarrow> addr list \<Rightarrow> addr set" where
  "dep_roots G deps \<equiv> {d \<in> set deps. \<not> l_main_map (G d)}"

lemma dfs_placed:
  "dfs_traversal n G r m st = Inr st' \<Longrightarrow>
     \<exists>new. placed G r {m} st new st' \<and> m \<in> l_visited st'"
  "dfs_deps n G r deps st = Inr st' \<Longrightarrow>
     \<exists>new. placed G r (dep_roots G deps) st new st' \<and> dep_roots G deps \<subseteq> l_visited st'"
proof (induction n G r m st and n G r deps st arbitrary: st' and st' rule: dfs_traversal_dfs_deps.induct)
  case (1 G r m st)
  then show ?case by simp
next
  case (2 n G r m st)
  show ?case
  proof (cases "m \<in> l_visited st")
    case True
    with 2 show ?thesis using placed_roots [OF placed_refl] by force
  next
    case False
    let ?st0 = "st\<lparr>l_visited := insert m (l_visited st)\<rparr>"
    define d1 where "d1 = (case l_initfini (G m) of None \<Rightarrow> [] | Some deps \<Rightarrow> deps)"
    define d2 where "d2 = (if r then case l_reldeps (G m) of None \<Rightarrow> [] | Some rels \<Rightarrow> rev rels else [])"
    define b where "b \<longleftrightarrow> r \<and> l_reldeps (G m) \<noteq> None"
    let ?fl = "\<lambda>st. st\<lparr>do_reldeps := do_reldeps st \<or> b\<rparr>"
    from False 2(3) obtain st1 st2 where
      st1: "(case l_initfini (G m) of None \<Rightarrow> Inr ?st0 | Some deps \<Rightarrow> dfs_deps n G r deps ?st0) = Inr st1"
      and st2: "(case l_reldeps (G m) of None \<Rightarrow> Inr st1
           | Some rels \<Rightarrow> if r then dfs_deps n G r (rev rels) (st1\<lparr>do_reldeps := True\<rparr>) else Inr st1) = Inr st2"
      and put: "put_rpo m st2 = Inr st'"
      by (auto simp: rbind_eq_Inr_iff)
    obtain new1 where p1: "placed G r (dep_roots G d1) ?st0 new1 st1" "dep_roots G d1 \<subseteq> l_visited st1"
      using st1 2(1) [OF False] placed_refl by (cases "l_initfini (G m)") (fastforce simp: d1_def)+
    have p1': "placed G r (dep_roots G d1) (?fl ?st0) new1 (?fl st1)"
      by (rule placed_flag [OF p1(1)])
    obtain new2 where p2: "placed G r (dep_roots G d2) (?fl st1) new2 st2" "dep_roots G d2 \<subseteq> l_visited st2"
    proof (cases b)
      case True
      then obtain rels where rels: "l_reldeps (G m) = Some rels" "r" by (auto simp: b_def)
      then have "dfs_deps n G r (rev rels) (st1\<lparr>do_reldeps := True\<rparr>) = Inr st2" using st2 by simp
      from 2(2) [OF False rels this] rels True that show ?thesis by (auto simp: d2_def)
    next
      case False
      with st2 have "st2 = st1" by (auto simp: b_def split: option.splits if_splits)
      moreover have "d2 = []" using False by (simp add: b_def d2_def split: option.splits)
      ultimately show ?thesis using that [of "[]"] placed_refl [of G r st1] False by simp
    qed
    have "enter G r m st = ?fl ?st0"
      unfolding enter_def b_def by simp
    then have "placed G r (dep_roots G d1 \<union> dep_roots G d2) (enter G r m st) (new2 @ new1) st2"
      using placed_trans [OF p1' p2(1)] by (simp only:)
    moreover have "d \<in> dep_roots G d1 \<union> dep_roots G d2 \<longleftrightarrow> edge G r m d" for d
      unfolding edge_def deps_of_def set_append d1_def d2_def by blast
    moreover have "dep_roots G d1 \<union> dep_roots G d2 \<subseteq> l_visited st2"
      using p1(2) p2(2) placedD(3) [OF p2(1)] by auto
    ultimately have "placed G r {m} st (m # new2 @ new1) st'"
      using False put by (intro placed_node) auto
    then show ?thesis using placedD(3) [of G r "{m}" st "m # new2 @ new1" st'] by auto
  qed
next
  case (3 n G r st)
  then show ?case using placed_refl by force
next
  case (4 n G r d deps st)
  show ?case
  proof (cases "d \<notin> l_visited st \<and> \<not> l_main_map (G d)")
    case True
    then obtain st1 where st1: "dfs_traversal n G r d st = Inr st1" "dfs_deps n G r deps st1 = Inr st'"
      using 4(4) by (auto simp: rbind_eq_Inr_iff)
    obtain new1 where p1: "placed G r {d} st new1 st1" "d \<in> l_visited st1"
      using 4(1) [OF True st1(1)] by blast
    obtain new2 where p2: "placed G r (dep_roots G deps) st1 new2 st'" "dep_roots G deps \<subseteq> l_visited st'"
      using 4(2) [OF True] st1 by blast
    have "{d} \<union> dep_roots G deps = dep_roots G (d # deps)" using True by auto
    with placed_trans [OF p1(1) p2(1)] have "placed G r (dep_roots G (d # deps)) st (new2 @ new1) st'" by simp
    moreover have "dep_roots G (d # deps) \<subseteq> l_visited st'"
      using p1(2) p2(2) placedD(3) [OF p2(1)] by auto
    ultimately show ?thesis by blast
  next
    case False
    with 4(4) have "dfs_deps n G r deps st = Inr st'" by auto
    from 4(3) [OF False this] obtain new where
      p: "placed G r (dep_roots G deps) st new st'" "dep_roots G deps \<subseteq> l_visited st'" by blast
    moreover have "dep_roots G (d # deps) \<subseteq> l_visited st'"
      using False p(2) placedD(3) [OF p(1)] by auto
    ultimately show ?thesis using placed_roots [OF p(1), of "dep_roots G (d # deps)"] by auto
  qed
qed

section \<open>The traversal is total\<close>

lemma placed_card:
  assumes p: "placed G r roots st new st'" and U: "finite U" "l_visited st' \<subseteq> l_visited st \<union> U"
  shows "card (U - l_visited st') + length new = card (U - l_visited st)"
proof -
  have "set new \<subseteq> U" using U(2) placedD(3,4) [OF p] by auto
  then have "U - l_visited st = (U - l_visited st') \<union> set new" "(U - l_visited st') \<inter> set new = {}"
    using placedD(3,4) [OF p] by auto
  then show ?thesis
    using U(1) placedD(5) [OF p] by (simp add: card_Un_disjoint distinct_card)
qed

text \<open>
  The objects \<open>U\<close> to place, closed under dependencies apart from objects \<open>W\<close> that were visited
  before: enough fuel for each unvisited one, and enough room for all of them.
\<close>

definition fits :: "store \<Rightarrow> bool \<Rightarrow> addr set \<Rightarrow> addr set \<Rightarrow> dfs_state \<Rightarrow> bool" where
  "fits G r U W st \<longleftrightarrow>
     finite U \<and> W \<subseteq> l_visited st \<and> (\<forall>x \<in> U. \<forall>y. edge G r x y \<longrightarrow> y \<in> U \<union> W) \<and>
     card (U - l_visited st) \<le> room st"

lemma fits_placed:
  assumes "fits G r U W st" "placed G r roots st new st'" "l_visited st' \<subseteq> l_visited st \<union> U"
  shows "fits G r U W st'" "card (U - l_visited st') \<le> card (U - l_visited st)"
    "room st' - card (U - l_visited st') = room st - card (U - l_visited st)"
proof -
  have "card (U - l_visited st') + length new = card (U - l_visited st)"
    using assms(1) by (intro placed_card [OF assms(2) _ assms(3)]) (simp add: fits_def)
  then show "fits G r U W st'" "card (U - l_visited st') \<le> card (U - l_visited st)"
      "room st' - card (U - l_visited st') = room st - card (U - l_visited st)"
    using assms(1) placedD(2,3) [OF assms(2)] by (auto simp: fits_def)
qed

lemma fits_enter:
  assumes "fits G r U W st" "m \<in> U" "m \<notin> l_visited st"
  shows "fits G r U W (st\<lparr>l_visited := insert m (l_visited st)\<rparr>)"
    "Suc (card (U - insert m (l_visited st))) = card (U - l_visited st)"
proof -
  have "U - insert m (l_visited st) = (U - l_visited st) - {m}" by auto
  then show "Suc (card (U - insert m (l_visited st))) = card (U - l_visited st)"
    using assms by (metis DiffI card_Suc_Diff1 finite_Diff fits_def)
  with assms(1) show "fits G r U W (st\<lparr>l_visited := insert m (l_visited st)\<rparr>)"
    by (auto simp: fits_def)
qed

lemma fits_flag [simp]: "fits G r U W (st\<lparr>do_reldeps := b\<rparr>) = fits G r U W st"
  by (simp add: fits_def)

lemma edge_initfini:
  assumes "l_initfini (G m) = Some deps" "d \<in> dep_roots G deps"
  shows "edge G r m d"
proof -
  have "set deps \<subseteq> set (deps_of G r m)"
    unfolding deps_of_def assms(1) option.case set_append by (rule Un_upper1)
  with assms(2) show ?thesis unfolding edge_def by blast
qed

lemma edge_reldeps:
  assumes "l_reldeps (G m) = Some rels" "r" "d \<in> dep_roots G (rev rels)"
  shows "edge G r m d"
proof -
  have "set (rev rels) \<subseteq> set (deps_of G r m)"
    unfolding deps_of_def assms(1) option.case set_append if_P [OF assms(2)] by (rule Un_upper2)
  with assms(3) show ?thesis unfolding edge_def by blast
qed

lemma fits_edge: "fits G r U W st \<Longrightarrow> m \<in> U \<Longrightarrow> edge G r m d \<Longrightarrow> d \<in> U \<union> W"
  by (simp add: fits_def)

lemma dfs_total:
  "fits G r U W st \<Longrightarrow> m \<in> U \<union> W \<Longrightarrow> card (U - l_visited st) < n \<Longrightarrow>
     \<exists>st'. dfs_traversal n G r m st = Inr st' \<and> l_visited st' \<subseteq> l_visited st \<union> U"
  "fits G r U W st \<Longrightarrow> dep_roots G deps \<subseteq> U \<union> W \<Longrightarrow> card (U - l_visited st) < n \<Longrightarrow>
     \<exists>st'. dfs_deps n G r deps st = Inr st' \<and> l_visited st' \<subseteq> l_visited st \<union> U"
proof (induction n G r m st and n G r deps st rule: dfs_traversal_dfs_deps.induct)
  case (1 G r m st)
  then show ?case by simp
next
  case (2 n G r m st)
  show ?case
  proof (cases "m \<in> l_visited st")
    case True
    then show ?thesis by auto
  next
    case False
    then have m: "m \<in> U" using 2(3,4) by (auto simp: fits_def)
    define st0 where "st0 = st\<lparr>l_visited := insert m (l_visited st)\<rparr>"
    note f0 = fits_enter [OF 2(3) m False, folded st0_def]
    have vis0: "l_visited st0 = insert m (l_visited st)" "room st0 = room st" by (simp_all add: st0_def)
    have n0: "card (U - l_visited st0) < n" "card (U - l_visited st0) < room st0"
      using f0(2) 2(3,5) vis0 by (auto simp: fits_def)
    have roots: "dep_roots G deps \<subseteq> U \<union> W" if "l_initfini (G m) = Some deps" for deps
      using fits_edge [OF 2(3) m] edge_initfini [of G m, OF that] by blast
    obtain st1 where st1: "(case l_initfini (G m) of None \<Rightarrow> Inr st0 | Some deps \<Rightarrow> dfs_deps n G r deps st0) = Inr st1"
        "l_visited st1 \<subseteq> l_visited st0 \<union> U" "\<exists>roots new. placed G r roots st0 new st1"
    proof (cases "l_initfini (G m)")
      case None
      then show ?thesis using that [of st0] placed_refl by fastforce
    next
      case (Some deps)
      then obtain st1 where "dfs_deps n G r deps st0 = Inr st1" "l_visited st1 \<subseteq> l_visited st0 \<union> U"
        using 2(1) [OF False Some, folded st0_def] f0(1) roots n0(1) by blast
      then show ?thesis using that [of st1] Some dfs_placed(2) by fastforce
    qed
    then obtain roots1 new1 where "placed G r roots1 st0 new1 st1" by blast
    note f1 = fits_placed [OF f0(1) this st1(2)]
    have n1: "card (U - l_visited st1) < n" "card (U - l_visited st1) < room st1"
      using n0 f1(2,3) by linarith+
    obtain st2 where st2: "(case l_reldeps (G m) of None \<Rightarrow> Inr st1
           | Some rels \<Rightarrow> if r then dfs_deps n G r (rev rels) (st1\<lparr>do_reldeps := True\<rparr>) else Inr st1) = Inr st2"
        "l_visited st2 \<subseteq> l_visited st1 \<union> U" "0 < room st2"
    proof (cases "l_reldeps (G m) = None \<or> \<not> r")
      case True
      then show ?thesis using that [of st1] n1(2) by (auto split: option.splits)
    next
      case nNone: False
      then obtain rels where rels: "l_reldeps (G m) = Some rels" "r" by auto
      let ?s = "st1\<lparr>do_reldeps := True\<rparr>"
      have "dep_roots G (rev rels) \<subseteq> U \<union> W"
        using fits_edge [OF 2(3) m] edge_reldeps [of G m, OF rels] by blast
      then obtain st2 where st2: "dfs_deps n G r (rev rels) ?s = Inr st2" "l_visited st2 \<subseteq> l_visited st1 \<union> U"
        using 2(2) [OF False rels, of st1] f1(1) n1(1) by auto
      obtain roots new where "placed G r roots ?s new st2" using dfs_placed(2) [OF st2(1)] by blast
      then have "room st2 - card (U - l_visited st2) = room st1 - card (U - l_visited st1)"
        using fits_placed(3) [of G r U W ?s] f1(1) st2(2) by simp
      then have "0 < room st2" using n1(2) by linarith
      then show ?thesis using that [of st2] rels st2 by simp
    qed
    have "dfs_traversal (Suc n) G r m st = Inr (st2\<lparr>room := room st2 - 1, rpo := m # rpo st2\<rparr>)"
      unfolding dfs_traversal.simps st0_def [symmetric] if_not_P [OF False] st1(1) rbind_simps st2(1)
      using st2(3) by (simp add: put_rpo_def)
    moreover have "l_visited st2 \<subseteq> l_visited st \<union> U"
      using st1(2) st2(2) vis0(1) m by auto
    ultimately show ?thesis by simp
  qed
next
  case (3 n G r st)
  then show ?case by auto
next
  case (4 n G r d deps st)
  show ?case
  proof (cases "d \<notin> l_visited st \<and> \<not> l_main_map (G d)")
    case True
    then have "d \<in> U \<union> W" using 4(5) by auto
    with 4(1) [OF True 4(4)] 4(6) obtain st1 where
      st1: "dfs_traversal n G r d st = Inr st1" "l_visited st1 \<subseteq> l_visited st \<union> U" by blast
    obtain new where "placed G r {d} st new st1" using dfs_placed(1) [OF st1(1)] by blast
    note f1 = fits_placed [OF 4(4) this st1(2)]
    have "dep_roots G deps \<subseteq> U \<union> W" using 4(5) by auto
    then obtain st2 where "dfs_deps n G r deps st1 = Inr st2" "l_visited st2 \<subseteq> l_visited st1 \<union> U"
      using 4(2) [OF True f1(1)] 4(6) f1(2) by force
    then show ?thesis using True st1 by auto
  next
    case False
    moreover have "dep_roots G deps \<subseteq> U \<union> W" using 4(5) by auto
    ultimately show ?thesis using 4(3) [OF False 4(4) _ 4(6)] by auto
  qed
qed

lemma dfs_maps_total:
  "fits G r U W st \<Longrightarrow> card (U - l_visited st) = room st \<Longrightarrow> room st < n \<Longrightarrow> set ms \<subseteq> U \<Longrightarrow>
   U - l_visited st \<subseteq> set ms \<Longrightarrow>
   \<exists>st' new. dfs_maps n G r ms st = Inr st' \<and> placed G r (set ms) st new st' \<and>
     set new = U - l_visited st"
proof (induction ms arbitrary: st)
  case Nil
  then have "U - l_visited st = {}" by auto
  with Nil have "room st = 0" by (metis card.empty)
  with Nil show ?case using placed_refl by fastforce
next
  case (Cons m ms)
  have "m \<in> U \<union> W" using Cons.prems(4) by simp
  then obtain st1 where st1: "dfs_traversal n G r m st = Inr st1" "l_visited st1 \<subseteq> l_visited st \<union> U"
    using dfs_total(1) [OF Cons.prems(1)] Cons.prems(2,3) by metis
  obtain new1 where p1: "placed G r {m} st new1 st1" "m \<in> l_visited st1"
    using dfs_placed(1) [OF st1(1)] by blast
  note f1 = fits_placed [OF Cons.prems(1) p1(1) st1(2)]
  have fin: "finite (U - l_visited st1)" using f1(1) by (simp add: fits_def)
  have room1: "card (U - l_visited st1) = room st1" "room st1 < n"
    using f1 Cons.prems(2,3) by (auto simp: fits_def)
  have new1: "set new1 \<subseteq> U - l_visited st" using st1(2) placedD(3,4) [OF p1(1)] by auto
  show ?case
  proof (cases "room st1 = 0")
    case True
    then have "U - l_visited st1 = {}" using room1 fin by simp
    then have "set new1 = U - l_visited st" using new1 placedD(3) [OF p1(1)] by auto
    moreover have "placed G r (set (m # ms)) st new1 st1" by (rule placed_roots [OF p1(1)]) simp
    ultimately show ?thesis using True st1(1) by auto
  next
    case False
    have "U - l_visited st1 \<subseteq> set ms"
      using Cons.prems(5) p1(2) placedD(3) [OF p1(1)] by auto
    then obtain st' new where IH: "dfs_maps n G r ms st1 = Inr st'" "placed G r (set ms) st1 new st'"
        "set new = U - l_visited st1"
      using Cons.IH [OF f1(1) room1] Cons.prems(4) by auto
    have "placed G r (set (m # ms)) st (new @ new1) st'"
      by (rule placed_roots [OF placed_trans [OF p1(1) IH(2)]]) auto
    moreover have "set (new @ new1) = U - l_visited st"
      using IH(3) new1 placedD(3) [OF p1(1)] by auto
    ultimately show ?thesis using IH(1) st1(1) False by auto
  qed
qed

text \<open>What the sort is for: every object once, dependencies behind what needs them.\<close>

definition deps_closed :: "store \<Rightarrow> bool \<Rightarrow> addr list \<Rightarrow> addr set \<Rightarrow> bool" where
  "deps_closed G for_fini maps visited \<longleftrightarrow>
     (\<forall>x \<in> set maps. \<forall>y \<in> set (deps_of G for_fini x). l_main_map (G y) \<or> y \<in> set maps \<union> visited)"

lemma dfs_maps_run:
  assumes "distinct maps" "\<And>x y. x \<in> set maps \<Longrightarrow> edge G r x y \<Longrightarrow> y \<in> set maps \<union> W"
    and "W \<inter> set maps = {}"
  obtains st' where
    "dfs_maps (Suc (length maps)) G r (rev maps)
       \<lparr>l_visited = W, rpo = [], room = length maps, do_reldeps = False\<rparr> = Inr st'"
    "distinct (rpo st')" "set (rpo st') = set maps" "l_visited st' = W \<union> set maps"
    "do_reldeps st' \<longleftrightarrow> r \<and> (\<exists>x \<in> set maps. l_reldeps (G x) \<noteq> None)" "forward G r (rpo st')"
proof -
  let ?st = "\<lparr>l_visited = W, rpo = [], room = length maps, do_reldeps = False\<rparr>"
  have "card (set maps - l_visited ?st) = room ?st"
    using assms(1,3) by (simp add: Diff_triv Int_commute distinct_card)
  moreover have "fits G r (set maps) W ?st"
    using calculation assms(2) by (simp add: fits_def)
  ultimately obtain st' new where run: "dfs_maps (Suc (length maps)) G r (rev maps) ?st = Inr st'"
      "placed G r (set (rev maps)) ?st new st'" "set new = set maps - W"
    using dfs_maps_total [of G r "set maps" W ?st "Suc (length maps)" "rev maps"] by auto
  have "set new = set maps" using run(3) assms(3) by auto
  with run(1) placedD [OF run(2)] show thesis by (intro that [of st']) simp_all
qed

lemma forward_static:
  assumes "forward G r xs" "\<And>x. x \<in> set xs \<Longrightarrow> r \<Longrightarrow> l_reldeps (G x) = None"
  shows "forward G False xs"
proof -
  have "edge G False x y = edge G r x y" if "x \<in> set xs" for x y
    using assms(2) [OF that] by (cases r) (simp_all add: edge_def deps_of_def)
  then have "inside G False (set xs) = inside G r (set xs)" "\<And>x y. x \<in> set xs \<Longrightarrow> edge G False x y = edge G r x y"
    by (auto simp: inside_def fun_eq_iff)
  with assms(1) show ?thesis by (simp add: forward_def)
qed

lemma deps_of_static: "\<exists>rels. deps_of G r x = deps_of G False x @ rels"
  by (simp add: deps_of_def)

lemma edge_static: "edge G False x y \<Longrightarrow> edge G r x y"
  unfolding edge_def using deps_of_static [of G r x] by auto

lemma dfs_sort_correct:
  assumes "distinct maps" "deps_closed G for_fini maps visited"
  shows "\<exists>maps' visited'. dl_sort_maps_dfs G maps for_fini visited = Inr (maps', visited') \<and>
    distinct maps' \<and> set maps' = set maps \<and> visited' = visited \<union> set maps \<and> forward G False maps'"
proof -
  let ?W = "visited - set maps"
  have closed: "y \<in> set maps \<union> ?W" if "x \<in> set maps" "edge G for_fini x y" for x y
    using assms(2) that unfolding deps_closed_def edge_def by blast
  obtain st1 where st1: "dfs_maps (Suc (length maps)) G for_fini (rev maps)
       \<lparr>l_visited = ?W, rpo = [], room = length maps, do_reldeps = False\<rparr> = Inr st1"
    "distinct (rpo st1)" "set (rpo st1) = set maps" "l_visited st1 = ?W \<union> set maps"
    "do_reldeps st1 \<longleftrightarrow> for_fini \<and> (\<exists>x \<in> set maps. l_reldeps (G x) \<noteq> None)" "forward G for_fini (rpo st1)"
    using dfs_maps_run [OF assms(1), of G for_fini ?W] closed by blast
  show ?thesis
  proof (cases "do_reldeps st1")
    case False
    then have "forward G False (rpo st1)"
      using forward_static [OF st1(6)] st1(3,5) by blast
    with False st1(1-4) show ?thesis by (simp add: dl_sort_maps_dfs_def Let_def Un_commute)
  next
    case True
    have len: "length (rpo st1) = length maps" using st1(2,3) assms(1) by (metis distinct_card)
    have vis: "l_visited st1 - set (rpo st1) = ?W" using st1(3,4) by auto
    obtain st2 where st2: "dfs_maps (Suc (length (rpo st1))) G False (rev (rpo st1))
       \<lparr>l_visited = ?W, rpo = [], room = length (rpo st1), do_reldeps = False\<rparr> = Inr st2"
      "distinct (rpo st2)" "set (rpo st2) = set (rpo st1)" "l_visited st2 = ?W \<union> set (rpo st1)"
      "forward G False (rpo st2)"
      using dfs_maps_run [OF st1(2), of G False ?W] closed edge_static st1(3) by (metis Diff_disjoint inf_commute)
    from True st1(1-4) st2 show ?thesis
      by (simp add: dl_sort_maps_dfs_def Let_def len Un_Diff Un_commute)
  qed
qed

section \<open>The original algorithm terminates and sorts\<close>

lemma last_dependent_Some:
  "last_dependent d G f maps i = Some k \<Longrightarrow>
     i < k \<and> k \<le> i + d \<and> moves_behind G f (maps ! k) (maps ! i) \<and>
     (\<forall>j. k < j \<longrightarrow> j \<le> i + d \<longrightarrow> \<not> moves_behind G f (maps ! j) (maps ! i))"
proof (induction d)
  case (Suc d)
  show ?case
  proof (cases "moves_behind G f (maps ! (i + Suc d)) (maps ! i)")
    case True
    with Suc.prems show ?thesis by auto
  next
    case False
    with Suc.prems Suc.IH have IH: "i < k \<and> k \<le> i + d \<and> moves_behind G f (maps ! k) (maps ! i) \<and>
        (\<forall>j. k < j \<longrightarrow> j \<le> i + d \<longrightarrow> \<not> moves_behind G f (maps ! j) (maps ! i))" by simp
    have "\<not> moves_behind G f (maps ! j) (maps ! i)" if "k < j" "j \<le> i + Suc d" for j
      using that IH False by (cases "j = i + Suc d") auto
    with IH show ?thesis by simp
  qed
qed simp

lemma last_dependent_None:
  "last_dependent d G f maps i = None \<Longrightarrow> i < j \<Longrightarrow> j \<le> i + d \<Longrightarrow> \<not> moves_behind G f (maps ! j) (maps ! i)"
proof (induction d)
  case (Suc d)
  then show ?case by (cases "j = i + Suc d") (auto split: if_splits)
qed simp

lemma move_back_split:
  assumes "i < k" "k < length a"
  shows "a = take i a @ a ! i # take (k - i) (drop (Suc i) a) @ drop (Suc k) a"
proof -
  have "drop (k - i) (drop (Suc i) a) = drop (Suc k) a" using assms by simp
  then have "drop (Suc i) a = take (k - i) (drop (Suc i) a) @ drop (Suc k) a"
    by (metis append_take_drop_id)
  then show ?thesis using assms id_take_nth_drop [of i a] by simp
qed

lemma mset_move_back: "i < k \<Longrightarrow> k < length a \<Longrightarrow> mset (move_back i k a) = mset a"
  using arg_cong [where f = mset, OF move_back_split [of i k a]] by (simp add: move_back_def)

lemma length_move_back [simp]: "i < k \<Longrightarrow> k < length a \<Longrightarrow> length (move_back i k a) = length a"
  by (metis mset_move_back size_mset)

lemma take_move_back: "i < k \<Longrightarrow> k < length a \<Longrightarrow> j \<le> i \<Longrightarrow> take j (move_back i k a) = take j a"
  by (simp add: move_back_def min_def)

lemma drop_move_back:
  assumes "i < k" "k < length a"
  shows "drop i (move_back i k a) = take (k - i) (drop (Suc i) a) @ a ! i # drop (Suc k) a"
    "mset (drop i (move_back i k a)) = mset (drop i a)"
proof -
  show 1: "drop i (move_back i k a) = take (k - i) (drop (Suc i) a) @ a ! i # drop (Suc k) a"
    using assms by (simp add: move_back_def)
  have "drop i a = a ! i # drop (Suc i) a" using assms by (simp add: Cons_nth_drop_Suc)
  moreover have "drop (Suc i) a = take (k - i) (drop (Suc i) a) @ drop (Suc k) a"
  proof -
    have "drop (k - i) (drop (Suc i) a) = drop (Suc k) a" using assms by simp
    then show ?thesis by (metis append_take_drop_id)
  qed
  ultimately have "mset (drop i a) = mset (a ! i # take (k - i) (drop (Suc i) a) @ drop (Suc k) a)" by metis
  then show "mset (drop i (move_back i k a)) = mset (drop i a)" using 1 by simp
qed

text \<open>Where the element at \<open>j\<close> after the move stood before.\<close>

definition source :: "nat \<Rightarrow> nat \<Rightarrow> nat \<Rightarrow> nat" where
  "source i k j = (if j < i \<or> k < j then j else if j = k then i else Suc j)"

lemma nth_move_back:
  assumes "i < k" "k < length a" "j < length a"
  shows "move_back i k a ! j = a ! source i k j"
proof -
  consider "j < i" | "i \<le> j" "j < k" | "j = k" | "k < j" by linarith
  then show ?thesis
  proof cases
    case 1
    then show ?thesis using assms by (simp add: move_back_def source_def nth_append)
  next
    case 2
    then have lt: "j - i < k - i" by linarith
    then have "move_back i k a ! j = (take (k - i) (drop (Suc i) a)) ! (j - i)"
      using assms 2 by (simp add: move_back_def nth_append)
    then show ?thesis using lt 2 assms by (simp add: source_def)
  next
    case 3
    then show ?thesis using assms by (simp add: move_back_def source_def nth_append)
  next
    case 4
    have "length (take i a @ take (k - i) (drop (Suc i) a) @ [a ! i]) = Suc k" using assms by simp
    moreover have "move_back i k a = (take i a @ take (k - i) (drop (Suc i) a) @ [a ! i]) @ drop (Suc k) a"
      by (simp add: move_back_def)
    ultimately have "move_back i k a ! j = drop (Suc k) a ! (j - Suc k)"
      using 4 by (metis not_less_eq nth_append)
    then show ?thesis using 4 assms by (simp add: source_def)
  qed
qed

lemma clear_from_simps [simp]:
  "i \<le> length seen \<Longrightarrow> length (clear_from i seen) = length seen"
  "i \<le> j \<Longrightarrow> j < length seen \<Longrightarrow> clear_from i seen ! j = 0"
  "i \<le> length seen \<Longrightarrow> sum_list (drop i (clear_from i seen)) = 0"
  by (simp_all add: clear_from_def nth_append sum_list_replicate)

text \<open>
  Loop invariant of the original algorithm: the counters of the positions still to fill are at
  most \<open>nmaps - i + 1\<close>, so that no 16-bit counter wraps, and the fuel covers what the counters
  can still grow at this position and at the later ones.
\<close>

definition seen_ok :: "nat \<Rightarrow> addr list \<Rightarrow> nat list \<Rightarrow> nat \<Rightarrow> bool" where
  "seen_ok fuel maps seen i \<longleftrightarrow>
     i < length maps \<and> length seen = length maps \<and> length maps < 2 ^ 16 - 2 \<and>
     (\<forall>j. i \<le> j \<longrightarrow> j < length maps \<longrightarrow> seen ! j \<le> Suc (length maps - i)) \<and>
     seen ! i \<le> length maps - i \<and>
     (length maps - i) * (Suc (length maps) * Suc (Suc (length maps))) \<le> fuel + sum_list (drop i seen)"

lemma sum_list_le: "(\<And>x. x \<in> set xs \<Longrightarrow> x \<le> b) \<Longrightarrow> sum_list xs \<le> length xs * (b :: nat)"
  by (induction xs) (auto intro: add_mono)

lemma seen_ok_sum:
  assumes "seen_ok fuel maps seen i"
  shows "sum_list (drop i seen) < Suc (length maps) * Suc (Suc (length maps))"
proof -
  have "sum_list (drop i seen) \<le> length (drop i seen) * Suc (length maps - i)"
    using assms by (intro sum_list_le) (auto simp: seen_ok_def in_set_conv_nth)
  also have "\<dots> \<le> length maps * Suc (length maps)"
    using assms by (intro mult_le_mono) (auto simp: seen_ok_def)
  finally show ?thesis by (simp add: algebra_simps)
qed

lemma seen_ok_fuel: "seen_ok fuel maps seen i \<Longrightarrow> \<exists>f. fuel = Suc f"
proof -
  assume a: "seen_ok fuel maps seen i"
  let ?B = "Suc (length maps) * Suc (Suc (length maps))"
  have "1 * ?B \<le> (length maps - i) * ?B" using a by (intro mult_le_mono1) (auto simp: seen_ok_def)
  then have "?B \<le> fuel + sum_list (drop i seen)" using a unfolding seen_ok_def by linarith
  with seen_ok_sum [OF a] have "0 < fuel" by linarith
  then show ?thesis by (cases fuel) auto
qed

lemma seen_ok_bump:
  assumes "seen_ok (Suc fuel) maps seen i"
  shows "(seen ! i + 1) mod 2 ^ 16 = Suc (seen ! i)"
    "sum_list (drop i (seen[i := Suc (seen ! i)])) = Suc (sum_list (drop i seen))"
proof -
  have "seen ! i + 1 < 2 ^ 16" using assms by (auto simp: seen_ok_def)
  then show "(seen ! i + 1) mod 2 ^ 16 = Suc (seen ! i)" by simp
  have "drop i seen = seen ! i # drop (Suc i) seen"
    using assms by (simp add: seen_ok_def Cons_nth_drop_Suc)
  moreover have "drop i (seen[i := Suc (seen ! i)]) = Suc (seen ! i) # drop (Suc i) seen"
    using assms by (simp add: seen_ok_def drop_update_swap Cons_nth_drop_Suc [symmetric])
  ultimately show "sum_list (drop i (seen[i := Suc (seen ! i)])) = Suc (sum_list (drop i seen))" by simp
qed

lemma seen_ok_next:
  assumes "seen_ok (Suc fuel) maps seen i" "Suc i < length maps" "length maps' = length maps"
    and "length seen' = length seen"
  shows "seen_ok fuel maps' (clear_from (Suc i) seen') (Suc i)"
proof -
  let ?B = "Suc (length maps) * Suc (Suc (length maps))"
  have "(length maps - i) * ?B = (length maps - Suc i) * ?B + ?B"
    using assms(2) by (metis Suc_diff_Suc Suc_lessD add.commute mult_Suc)
  then have "(length maps - Suc i) * ?B \<le> fuel"
    using seen_ok_sum [OF assms(1)] assms(1) unfolding seen_ok_def by linarith
  then show ?thesis using assms by (auto simp: seen_ok_def)
qed

lemma seen_ok_again:
  assumes "seen_ok (Suc fuel) maps seen i" "i < k" "k < length maps" "length maps' = length maps"
    and "seen ! Suc i \<le> length maps - i"
  shows "seen_ok fuel maps' (move_back i k (seen[i := Suc (seen ! i)])) i"
proof -
  let ?s = "seen[i := Suc (seen ! i)]"
  have len: "length ?s = length maps" using assms(1) by (simp add: seen_ok_def)
  have "sum_list (drop i (move_back i k ?s)) = sum_list (drop i ?s)"
    using drop_move_back(2) [of i k ?s] assms(2,3) len by (metis sum_mset_sum_list)
  moreover have "move_back i k ?s ! j \<le> Suc (length maps - i)" if "i \<le> j" "j < length maps" for j
    using that assms(1-3) len by (simp add: nth_move_back source_def nth_list_update seen_ok_def)
  moreover have "move_back i k ?s ! i = seen ! Suc i"
    using assms(2,3) len by (simp add: nth_move_back source_def)
  ultimately show ?thesis
    using assms len seen_ok_bump(2) [OF assms(1)] by (simp add: seen_ok_def)
qed

lemma original_loop_total:
  "seen_ok fuel maps seen i \<Longrightarrow>
   \<exists>maps'. original_loop fuel G f maps seen i = Inr maps' \<and> mset maps' = mset maps"
proof (induction fuel arbitrary: maps seen i)
  case 0
  then show ?case using seen_ok_fuel by fastforce
next
  case (Suc fuel)
  note ok = Suc.prems
  let ?s = "seen[i := Suc (seen ! i)]"
  have i: "i < length maps" "length seen = length maps" using ok by (auto simp: seen_ok_def)
  have skip: "\<exists>maps'. (if Suc i = length maps then Inr maps
      else original_loop fuel G f maps (clear_from (Suc i) ?s) (Suc i)) = Inr maps' \<and> mset maps' = mset maps"
    using Suc.IH [OF seen_ok_next [OF ok, of maps ?s]] i by auto
  show ?case
  proof (cases "last_dependent (length maps - 1 - i) G f maps i")
    case None
    with skip seen_ok_bump(1) [OF ok] show ?thesis by (simp add: Let_def)
  next
    case (Some k)
    from last_dependent_Some [OF this] i have k: "i < k" "k < length maps" by auto
    note mb = length_move_back [OF k] mset_move_back [OF k]
    have step: "\<exists>maps'. (if length maps - i < ?s ! Suc i
        then original_loop fuel G f (move_back i k maps) (clear_from (Suc i) ?s) (Suc i)
        else original_loop fuel G f (move_back i k maps) (move_back i k ?s) i) = Inr maps' \<and>
        mset maps' = mset maps"
    proof (cases "length maps - i < ?s ! Suc i")
      case True
      then show ?thesis using Suc.IH [OF seen_ok_next [OF ok _ mb(1), of ?s]] k mb(2) by auto
    next
      case False
      then show ?thesis using Suc.IH [OF seen_ok_again [OF ok k mb(1)]] mb(2) by auto
    qed
    with skip Some seen_ok_bump(1) [OF ok] show ?thesis by (simp add: Let_def)
  qed
qed

lemma seen_ok_start:
  assumes "2 \<le> length maps" "length maps < 2 ^ 16 - 2"
  shows "seen_ok (original_fuel (length maps)) maps (replicate (length maps) 0) 0"
proof -
  have "replicate (length maps) 0 ! 0 = (0 :: nat)" using assms(1) by (intro nth_replicate) auto
  with assms show ?thesis by (auto simp: seen_ok_def original_fuel_def sum_list_replicate)
qed

text \<open>C26: the original sort of fewer than 65534 objects, not counting the first \<open>skip\<close> ones, ends within the given number of
  rounds, with cyclic dependencies or without, and no counter wraps; the result is a permutation of the input that leaves the
  first \<open>skip\<close> objects alone.\<close>

theorem dl_sort_maps_original_terminates:
  assumes "skip \<le> length maps" "length maps - skip < 2 ^ 16 - 2"
  shows "\<exists>maps'. dl_sort_maps_original G maps skip for_fini = Inr maps' \<and>
    mset maps' = mset maps \<and> take skip maps' = take skip maps"
proof (cases "length maps - skip \<le> 1")
  case True
  then show ?thesis using assms(1) by (simp add: dl_sort_maps_original_def)
next
  case False
  then obtain rest where rest: "original_loop (original_fuel (length (drop skip maps))) G for_fini
      (drop skip maps) (replicate (length (drop skip maps)) 0) 0 = Inr rest" "mset rest = mset (drop skip maps)"
    using original_loop_total [OF seen_ok_start [of "drop skip maps"]] assms by auto
  have "mset (take skip maps @ rest) = mset (take skip maps @ drop skip maps)"
    using rest(2) by (simp only: mset_append)
  then have "mset (take skip maps @ rest) = mset maps" by (simp only: append_take_drop_id)
  with rest(1) False assms(1) show ?thesis by (simp add: dl_sort_maps_original_def Let_def)
qed

text \<open>Without cycles the counters never reach the bound, and the result is sorted.\<close>

abbreviation needs :: "store \<Rightarrow> addr \<Rightarrow> addr \<Rightarrow> bool" where
  "needs G y x \<equiv> moves_behind G False y x"

definition dep_rel :: "store \<Rightarrow> addr set \<Rightarrow> (addr \<times> addr) set" where
  "dep_rel G S = {(y, x). y \<in> S \<and> x \<in> S \<and> y \<noteq> x \<and> needs G y x}"

definition order_inv :: "store \<Rightarrow> addr list \<Rightarrow> nat list \<Rightarrow> nat \<Rightarrow> bool" where
  "order_inv G maps seen i \<longleftrightarrow>
     (\<forall>a b. i \<le> a \<longrightarrow> a < length maps \<longrightarrow> i \<le> b \<longrightarrow> b < length maps \<longrightarrow> a \<noteq> b \<longrightarrow>
        needs G (maps ! a) (maps ! b) \<longrightarrow> seen ! b \<le> seen ! a + (if a < b then 1 else 0)) \<and>
     (\<forall>b. i \<le> b \<longrightarrow> b < length maps \<longrightarrow> 0 < seen ! b \<longrightarrow>
        (\<exists>a. i \<le> a \<and> a < length maps \<and> a \<noteq> b \<and> needs G (maps ! a) (maps ! b))) \<and>
     (\<forall>a b. a < i \<longrightarrow> a < b \<longrightarrow> b < length maps \<longrightarrow> \<not> needs G (maps ! b) (maps ! a))"

lemma order_invD:
  assumes "order_inv G maps seen i"
  shows "i \<le> a \<Longrightarrow> a < length maps \<Longrightarrow> i \<le> b \<Longrightarrow> b < length maps \<Longrightarrow> a \<noteq> b \<Longrightarrow>
      needs G (maps ! a) (maps ! b) \<Longrightarrow> seen ! b \<le> seen ! a + (if a < b then 1 else 0)"
    and "i \<le> b \<Longrightarrow> b < length maps \<Longrightarrow> 0 < seen ! b \<Longrightarrow>
      \<exists>a. i \<le> a \<and> a < length maps \<and> a \<noteq> b \<and> needs G (maps ! a) (maps ! b)"
    and "a < i \<Longrightarrow> a < b \<Longrightarrow> b < length maps \<Longrightarrow> \<not> needs G (maps ! b) (maps ! a)"
  using assms unfolding order_inv_def by simp_all

lemma order_inv_bound:
  assumes inv: "order_inv G maps seen i" and dist: "distinct maps"
    and ac: "acyclic (dep_rel G (set maps))"
  shows "i \<le> b \<Longrightarrow> b < length maps \<Longrightarrow> seen ! b < length maps - i"
proof -
  let ?D = "dep_rel G (set maps)" and ?n = "length maps"
  let ?anc = "\<lambda>b. {a. i \<le> a \<and> a < ?n \<and> (maps ! a, maps ! b) \<in> ?D\<^sup>+}"
  have "?D \<subseteq> set maps \<times> set maps" by (auto simp: dep_rel_def)
  then have "finite ?D" by (rule finite_subset) simp
  then have wf: "wf ?D" using ac by (rule finite_acyclic_wf)
  have fin: "finite (?anc b)" for b by simp
  have irrefl: "(x, x) \<notin> ?D\<^sup>+" for x using ac by (simp add: acyclic_def)
  have le: "i \<le> b \<Longrightarrow> b < ?n \<Longrightarrow> seen ! b \<le> card (?anc b)" for b
  proof (induction b rule: wf_induct [OF wf_inv_image [OF wf, of "(!) maps"]])
    case (1 b)
    show ?case
    proof (cases "seen ! b = 0")
      case False
      then obtain a where a: "i \<le> a" "a < ?n" "a \<noteq> b" "needs G (maps ! a) (maps ! b)"
        using order_invD(2) [OF inv 1(2,3)] by blast
      then have ab: "(maps ! a, maps ! b) \<in> ?D"
        using dist 1(3) by (simp add: dep_rel_def nth_eq_iff_index_eq)
      then have "seen ! a \<le> card (?anc a)" using 1(1) a(1,2) by (simp add: in_inv_image)
      moreover have "seen ! b \<le> seen ! a + 1"
        using order_invD(1) [OF inv a(1,2) 1(2,3) a(3,4)] by (simp split: if_splits)
      moreover have "insert a (?anc a) \<subseteq> ?anc b"
        using a(1,2) r_into_trancl [OF ab] trancl_into_trancl [OF _ ab] by blast
      then have "card (insert a (?anc a)) \<le> card (?anc b)" by (rule card_mono [OF fin])
      then have "Suc (card (?anc a)) \<le> card (?anc b)" using irrefl by simp
      ultimately show ?thesis by linarith
    qed simp
  qed
  assume b: "i \<le> b" "b < ?n"
  have "?anc b \<subseteq> {i..<?n} - {b}" using irrefl by auto
  then have "card (?anc b) \<le> card ({i..<?n} - {b})" by (intro card_mono) auto
  also have "\<dots> = ?n - i - 1" using b by simp
  finally show "seen ! b < ?n - i" using le [OF b] b by linarith
qed

lemma order_inv_next:
  assumes "order_inv G maps seen i" "i < length maps" "length seen' = length maps"
    and "last_dependent (length maps - 1 - i) G False maps i = None"
  shows "order_inv G maps (clear_from (Suc i) seen') (Suc i)"
proof -
  have "\<not> needs G (maps ! b) (maps ! a)" if "a < Suc i" "a < b" "b < length maps" for a b
  proof (cases "a = i")
    case True
    then show ?thesis using last_dependent_None [OF assms(4), of b] that assms(2) by simp
  next
    case False
    then show ?thesis using assms(1) that by (simp add: order_inv_def)
  qed
  then show ?thesis using assms(2,3) by (simp add: order_inv_def)
qed

lemma source_bound: "i \<le> j \<Longrightarrow> i < k \<Longrightarrow> k < n \<Longrightarrow> j < n \<Longrightarrow> i \<le> source i k j \<and> source i k j < n"
  by (auto simp: source_def)

lemma source_inj: "source i k a = source i k b \<Longrightarrow> i < k \<Longrightarrow> a = b"
  by (auto simp: source_def split: if_splits)

lemma source_surj: "i \<le> s \<Longrightarrow> i < k \<Longrightarrow> k < n \<Longrightarrow> s < n \<Longrightarrow> \<exists>j. i \<le> j \<and> j < n \<and> source i k j = s"
proof (cases "s = i")
  case True
  assume "i < k" "k < n"
  with True show ?thesis by (intro exI [of _ k]) (simp add: source_def)
next
  case False
  assume "i \<le> s" "i < k" "k < n" "s < n"
  with False show ?thesis
    by (intro exI [of _ "if k < s then s else s - 1"]) (auto simp: source_def)
qed

lemma order_inv_again:
  assumes inv: "order_inv G maps seen i" and i: "i < length maps" "length seen = length maps"
    and k: "last_dependent (length maps - 1 - i) G False maps i = Some k"
  shows "order_inv G (move_back i k maps) (move_back i k (seen[i := Suc (seen ! i)])) i"
proof -
  let ?s = "seen[i := Suc (seen ! i)]" and ?n = "length maps"
  from last_dependent_Some [OF k] i have ik: "i < k" "k < ?n"
    and dep: "needs G (maps ! k) (maps ! i)"
    and lastk: "\<And>j. k < j \<Longrightarrow> j < ?n \<Longrightarrow> \<not> needs G (maps ! j) (maps ! i)" by auto
  have nth: "move_back i k maps ! j = maps ! source i k j" "move_back i k ?s ! j = ?s ! source i k j"
    if "j < ?n" for j
    using nth_move_back [OF ik that] nth_move_back [of i k ?s j] ik i(2) that by auto
  have old: "seen ! b \<le> seen ! a + (if a < b then 1 else 0)"
    if "i \<le> a" "a < ?n" "i \<le> b" "b < ?n" "a \<noteq> b" "needs G (maps ! a) (maps ! b)" for a b
    by (rule order_invD(1) [OF inv that])
  have f1: "?s ! source i k b \<le> ?s ! source i k a + (if a < b then 1 else 0)"
    if ab: "i \<le> a" "a < ?n" "i \<le> b" "b < ?n" "a \<noteq> b" "needs G (maps ! source i k a) (maps ! source i k b)" for a b
  proof -
    note sa = source_bound [OF ab(1) ik ab(2)] and sb = source_bound [OF ab(3) ik ab(4)]
    have ne: "source i k a \<noteq> source i k b" using source_inj ab(5) ik(1) by blast
    note o = old [OF conjunct1 [OF sa] conjunct2 [OF sa] conjunct1 [OF sb] conjunct2 [OF sb] ne ab(6)]
    consider "source i k b = i" | "source i k a = i" | "source i k a \<noteq> i" "source i k b \<noteq> i" by blast
    then show ?thesis
    proof cases
      case 1
      then have bk: "b = k" using ab(3) ik by (simp add: source_def split: if_splits)
      have "source i k a \<le> k" using lastk [of "source i k a"] ab(6) 1 sa by (metis linorder_not_less)
      then have "a < b" using ab(5) bk by (simp add: source_def split: if_splits)
      moreover have "?s ! i = Suc (seen ! i)" "?s ! source i k a = seen ! source i k a"
        using i 1 ne by simp_all
      ultimately show ?thesis using o 1 sa by (simp split: if_splits)
    next
      case 2
      then have "?s ! i = Suc (seen ! i)" "?s ! source i k b = seen ! source i k b"
        using i ne by simp_all
      then show ?thesis using o 2 by (simp split: if_splits)
    next
      case 3
      then have "source i k a < source i k b \<longleftrightarrow> a < b"
        using ab(1,3,5) ik(1) by (simp add: source_def split: if_splits)
      then show ?thesis using o 3 by (simp split: if_splits)
    qed
  qed
  have f2: "\<exists>a. i \<le> a \<and> a < ?n \<and> a \<noteq> b \<and> needs G (maps ! source i k a) (maps ! source i k b)"
    if b: "i \<le> b" "b < ?n" "0 < ?s ! source i k b" for b
  proof -
    note sb = source_bound [OF b(1) ik b(2)]
    obtain a where a: "i \<le> a" "a < ?n" "a \<noteq> source i k b" "needs G (maps ! a) (maps ! source i k b)"
    proof (cases "source i k b = i")
      case True
      then show ?thesis using that [of k] dep ik by simp
    next
      case False
      then have "0 < seen ! source i k b" using b(3) by simp
      then show ?thesis using that order_invD(2) [OF inv] sb by blast
    qed
    obtain j where "i \<le> j" "j < ?n" "source i k j = a" using source_surj [OF a(1) ik a(2)] by blast
    then show ?thesis using a by auto
  qed
  have f3: "\<not> needs G (maps ! source i k b) (maps ! source i k a)" if "a < i" "a < b" "b < ?n" for a b
  proof -
    have "a < source i k b" "source i k b < ?n" using that ik by (auto simp: source_def)
    then show ?thesis using inv that by (simp add: order_inv_def source_def)
  qed
  show ?thesis
    unfolding order_inv_def length_move_back [OF ik]
  proof (intro conjI allI impI)
    fix a b
    assume "i \<le> a" "a < ?n" "i \<le> b" "b < ?n" "a \<noteq> b"
      "needs G (move_back i k maps ! a) (move_back i k maps ! b)"
    then show "move_back i k ?s ! b \<le> move_back i k ?s ! a + (if a < b then 1 else 0)"
      using f1 [of a b] by (simp only: nth simp_thms)
  next
    fix b
    assume b: "i \<le> b" "b < ?n" "0 < move_back i k ?s ! b"
    then obtain a where "i \<le> a" "a < ?n" "a \<noteq> b" "needs G (maps ! source i k a) (maps ! source i k b)"
      using f2 [of b] by (auto simp only: nth)
    then show "\<exists>a. i \<le> a \<and> a < ?n \<and> a \<noteq> b \<and> needs G (move_back i k maps ! a) (move_back i k maps ! b)"
      using nth(1) [of a] nth(1) [of b] b(2) by (intro exI [of _ a]) simp
  next
    fix a b
    assume ab: "a < i" "a < b" "b < ?n"
    then have "a < ?n" by simp
    then show "\<not> needs G (move_back i k maps ! b) (move_back i k maps ! a)"
      using f3 [OF ab] ab(3) by (simp only: nth) simp
  qed
qed

lemma original_loop_sorted:
  "seen_ok fuel maps seen i \<Longrightarrow> order_inv G maps seen i \<Longrightarrow> distinct maps \<Longrightarrow>
   acyclic (dep_rel G (set maps)) \<Longrightarrow> original_loop fuel G False maps seen i = Inr maps' \<Longrightarrow>
   a < b \<Longrightarrow> b < length maps' \<Longrightarrow> \<not> needs G (maps' ! b) (maps' ! a)"
proof (induction fuel arbitrary: maps seen i)
  case 0
  then show ?case by simp
next
  case (Suc fuel)
  note ok = Suc.prems(1) and inv = Suc.prems(2)
  let ?s = "seen[i := Suc (seen ! i)]"
  have i: "i < length maps" "length seen = length maps" using ok by (auto simp: seen_ok_def)
  note bump = seen_ok_bump(1) [OF ok]
  show ?case
  proof (cases "last_dependent (length maps - 1 - i) G False maps i")
    case None
    then have inv': "order_inv G maps (clear_from (Suc i) ?s) (Suc i)"
      using order_inv_next [OF inv i(1), of ?s] i(2) by simp
    show ?thesis
    proof (cases "Suc i = length maps")
      case True
      with Suc.prems(5) None bump have "maps' = maps" by (simp add: Let_def)
      with order_invD(3) [OF inv', of a b] Suc.prems(6,7) True show ?thesis by simp
    next
      case False
      with Suc.prems(5) None bump have "original_loop fuel G False maps (clear_from (Suc i) ?s) (Suc i) = Inr maps'"
        by (simp add: Let_def)
      with Suc.IH [OF seen_ok_next [OF ok, of maps ?s] inv' Suc.prems(3,4) _ Suc.prems(6,7)] False i
      show ?thesis by simp
    qed
  next
    case (Some k)
    from last_dependent_Some [OF this] i have k: "i < k" "k < length maps" by auto
    have "seen ! Suc i < length maps - i"
      using order_inv_bound [OF inv Suc.prems(3,4), of "Suc i"] k by simp
    then have small: "\<not> length maps - i < ?s ! Suc i" "seen ! Suc i \<le> length maps - i" by simp_all
    with Suc.prems(5) Some bump
    have run: "original_loop fuel G False (move_back i k maps) (move_back i k ?s) i = Inr maps'"
      by (simp add: Let_def)
    have perm: "distinct (move_back i k maps)" "set (move_back i k maps) = set maps"
      using mset_move_back [OF k] Suc.prems(3) by (metis mset_eq_imp_distinct_iff, metis mset_eq_setD)
    show ?thesis
      by (rule Suc.IH [OF seen_ok_again [OF ok k length_move_back [OF k] small(2)]
          order_inv_again [OF inv i Some] perm(1) _ run Suc.prems(6,7)]) (simp add: perm(2) Suc.prems(4))
  qed
qed

lemma sorted_before:
  assumes "distinct xs" "\<And>a b. a < b \<Longrightarrow> b < length xs \<Longrightarrow> \<not> P (xs ! b) (xs ! a)"
    and "x \<in> set xs" "y \<in> set xs" "x \<noteq> y" "P x y"
  shows "before xs x y"
proof -
  obtain a b where ab: "a < length xs" "b < length xs" "xs ! a = x" "xs ! b = y"
    using assms(3,4) by (metis in_set_conv_nth)
  then have "a < b" using assms(2) [of b a] assms(5,6) by (metis linorder_neqE_nat)
  then have "x \<in> set (take b xs)"
    using ab by (auto simp: in_set_conv_nth intro!: exI [of _ a])
  moreover have "y \<in> set (drop b xs)"
    using ab by (metis Cons_nth_drop_Suc list.set_intros(1))
  moreover have "xs = take b xs @ drop b xs" by simp
  ultimately have "xs = take b xs @ drop b xs" "x \<in> set (take b xs)" "y \<in> set (drop b xs)" by blast+
  then show ?thesis unfolding before_def by blast
qed

lemma original_sort_correct:
  assumes "distinct maps" "length maps < 2 ^ 16 - 2" "acyclic (dep_rel G (set maps))"
  shows "\<exists>maps'. dl_sort_maps_original G maps 0 False = Inr maps' \<and> mset maps' = mset maps \<and>
    (\<forall>x \<in> set maps'. \<forall>y \<in> set maps'. x \<noteq> y \<longrightarrow> needs G x y \<longrightarrow> before maps' x y)"
proof (cases "length maps \<le> 1")
  case True
  then have "x = y" if "x \<in> set maps" "y \<in> set maps" for x y
    using that by (cases maps) auto
  with True show ?thesis by (simp add: dl_sort_maps_original_def)
next
  case False
  then have start: "seen_ok (original_fuel (length maps)) maps (replicate (length maps) 0) 0"
    using assms(2) by (intro seen_ok_start) auto
  then obtain maps' where run: "original_loop (original_fuel (length maps)) G False maps
      (replicate (length maps) 0) 0 = Inr maps'" "mset maps' = mset maps"
    using original_loop_total by blast
  have "order_inv G maps (replicate (length maps) 0) 0" by (simp add: order_inv_def)
  then have "a < b \<Longrightarrow> b < length maps' \<Longrightarrow> \<not> needs G (maps' ! b) (maps' ! a)" for a b
    using original_loop_sorted [OF start _ assms(1,3) run(1)] by blast
  then have "\<forall>x \<in> set maps'. \<forall>y \<in> set maps'. x \<noteq> y \<longrightarrow> needs G x y \<longrightarrow> before maps' x y"
    using sorted_before [of maps' "needs G"] assms(1) run(2) by (metis mset_eq_imp_distinct_iff)
  with run False show ?thesis by (simp add: dl_sort_maps_original_def)
qed

section \<open>The contract of a dependency sort\<close>

text \<open>
  What the callers rely on, whichever algorithm is selected: without dependency cycles, the objects
  come back in an order in which each stands before its dependencies.  Initialization walks the
  result backwards, so that it reaches an object after everything the object needs.
\<close>

locale dependency_sort =
  fixes sort_objects :: "store \<Rightarrow> addr list \<Rightarrow> addr list res"
    and accepts :: "store \<Rightarrow> addr list \<Rightarrow> bool"
  assumes sorts: "distinct maps \<Longrightarrow> accepts G maps \<Longrightarrow> acyclic (dep_rel G (set maps)) \<Longrightarrow>
    \<exists>maps'. sort_objects G maps = Inr maps' \<and> mset maps' = mset maps \<and>
      (\<forall>x \<in> set maps'. \<forall>y \<in> set maps'. x \<noteq> y \<longrightarrow> needs G x y \<longrightarrow> \<not> l_main_map (G y) \<longrightarrow> before maps' x y)"
begin

lemma init_order:
  assumes "distinct maps" "accepts G maps" "acyclic (dep_rel G (set maps))"
  shows "\<exists>maps'. sort_objects G maps = Inr maps' \<and> mset maps' = mset maps \<and>
    (\<forall>earlier x later y. rev maps' = earlier @ x # later \<longrightarrow> y \<in> set maps \<longrightarrow> y \<noteq> x \<longrightarrow> needs G x y \<longrightarrow>
       \<not> l_main_map (G y) \<longrightarrow> y \<in> set earlier)"
proof -
  obtain maps' where m: "sort_objects G maps = Inr maps'" "mset maps' = mset maps"
    and ord: "\<And>x y. x \<in> set maps' \<Longrightarrow> y \<in> set maps' \<Longrightarrow> x \<noteq> y \<Longrightarrow> needs G x y \<Longrightarrow> \<not> l_main_map (G y) \<Longrightarrow>
      before maps' x y"
    using sorts [OF assms] by blast
  have dist: "distinct maps'" "set maps' = set maps"
    using m(2) assms(1) mset_eq_imp_distinct_iff mset_eq_setD by blast+
  have "y \<in> set earlier"
    if r: "rev maps' = earlier @ x # later" and y: "y \<in> set maps" "y \<noteq> x" "needs G x y" "\<not> l_main_map (G y)"
    for earlier x later y
  proof -
    have maps': "maps' = rev later @ x # rev earlier" using r by (simp add: rev_swap)
    then obtain us vs where uv: "maps' = us @ vs" "x \<in> set us" "y \<in> set vs"
      using ord [of x y] y dist(2) unfolding before_def by auto
    have "x \<notin> set (rev later)" using dist(1) maps' by simp
    moreover have "x \<notin> set vs" using dist(1) uv(2) unfolding uv(1) by auto
    ultimately obtain us' where "us = rev later @ x # us'"
      using uv(1,2) maps' by (auto simp: append_eq_append_conv2 Cons_eq_append_conv append_eq_Cons_conv)
    then have "rev earlier = us' @ vs" using uv(1) maps' by simp
    then show ?thesis using uv(3) by (metis Un_iff set_append set_rev)
  qed
  with m show ?thesis by blast
qed

end

lemma needs_edge: "edge G False x y \<longleftrightarrow> needs G x y \<and> \<not> l_main_map (G y)"
  unfolding edge_def deps_of_def moves_behind_def by (cases "l_initfini (G x)") simp_all

lemma inside_dep_rel: "(inside G False S)\<^sup>*\<^sup>* x y \<Longrightarrow> x = y \<or> (x, y) \<in> (dep_rel G S)\<^sup>+"
proof (induction rule: rtranclp_induct)
  case (step y z)
  show ?case
  proof (cases "y = z")
    case False
    then have "(y, z) \<in> dep_rel G S" using step(2) by (simp add: inside_def needs_edge dep_rel_def)
    with step(3) show ?thesis by (auto intro: trancl_into_trancl)
  qed (use step in simp)
qed simp

lemma forward_acyclic:
  assumes "forward G False maps" "acyclic (dep_rel G (set maps))"
    and "x \<in> set maps" "y \<in> set maps" "x \<noteq> y" "needs G x y" "\<not> l_main_map (G y)"
  shows "before maps x y"
proof -
  have xy: "(x, y) \<in> dep_rel G (set maps)" using assms(3-6) by (simp add: dep_rel_def)
  have "(y, x) \<notin> (dep_rel G (set maps))\<^sup>+"
    using trancl_into_trancl2 [OF xy] assms(2) by (auto simp: acyclic_def)
  then have "\<not> (inside G False (set maps))\<^sup>*\<^sup>* y x" using inside_dep_rel assms(5) by metis
  then show ?thesis using assms(1,3,4,6,7) by (simp add: forward_def needs_edge)
qed

abbreviation sort_dfs :: "addr set \<Rightarrow> store \<Rightarrow> addr list \<Rightarrow> addr list res" where
  "sort_dfs visited G maps \<equiv> rbind (dl_sort_maps Sort_dfs G maps 0 False visited) (\<lambda>r. Inr (fst r))"

abbreviation sort_original :: "addr set \<Rightarrow> store \<Rightarrow> addr list \<Rightarrow> addr list res" where
  "sort_original visited G maps \<equiv> rbind (dl_sort_maps Sort_original G maps 0 False visited) (\<lambda>r. Inr (fst r))"

interpretation dfs: dependency_sort "sort_dfs visited" "\<lambda>G maps. deps_closed G False maps visited"
  for visited
proof unfold_locales
  fix maps G
  assume a: "distinct maps" "deps_closed G False maps visited" "acyclic (dep_rel G (set maps))"
  obtain maps' v where m: "dl_sort_maps_dfs G maps False visited = Inr (maps', v)" "distinct maps'"
      "set maps' = set maps" "forward G False maps'"
    using dfs_sort_correct [OF a(1,2)] by blast
  have "mset maps' = mset maps" using m(2,3) a(1) set_eq_iff_mset_eq_distinct by blast
  moreover have "before maps' x y"
    if "x \<in> set maps'" "y \<in> set maps'" "x \<noteq> y" "needs G x y" "\<not> l_main_map (G y)" for x y
    using forward_acyclic [OF m(4) _ that] a(3) m(3) by simp
  ultimately show "\<exists>maps'. sort_dfs visited G maps = Inr maps' \<and> mset maps' = mset maps \<and>
      (\<forall>x \<in> set maps'. \<forall>y \<in> set maps'. x \<noteq> y \<longrightarrow> needs G x y \<longrightarrow> \<not> l_main_map (G y) \<longrightarrow> before maps' x y)"
    using m(1) by (simp add: dl_sort_maps_def)
qed

interpretation original: dependency_sort "sort_original visited" "\<lambda>G maps. length maps < 2 ^ 16 - 2"
  for visited
proof unfold_locales
  fix maps and G :: store
  assume "distinct maps" "length maps < 2 ^ 16 - 2" "acyclic (dep_rel G (set maps))"
  then obtain maps' where "dl_sort_maps_original G maps 0 False = Inr maps'" "mset maps' = mset maps"
      "\<forall>x \<in> set maps'. \<forall>y \<in> set maps'. x \<noteq> y \<longrightarrow> needs G x y \<longrightarrow> before maps' x y"
    using original_sort_correct by blast
  then show "\<exists>maps'. sort_original visited G maps = Inr maps' \<and> mset maps' = mset maps \<and>
      (\<forall>x \<in> set maps'. \<forall>y \<in> set maps'. x \<noteq> y \<longrightarrow> needs G x y \<longrightarrow> \<not> l_main_map (G y) \<longrightarrow> before maps' x y)"
    by (simp add: dl_sort_maps_def)
qed

section \<open>Correctness of the sort\<close>

text \<open>C27: whichever algorithm the tunable selects, without dependency cycles the sort returns a
  permutation of the objects such that a walk from the back, as initialization makes it, reaches
  an object only after all objects it lists in \<open>l_initfini\<close>, the main map apart.\<close>

theorem dl_sort_maps_init_order:
  assumes "distinct maps" "acyclic (dep_rel G (set maps))"
    and "deps_closed G False maps visited" "length maps < 2 ^ 16 - 2"
  shows "\<exists>maps'. rbind (dl_sort_maps (dl_sort_maps_init algorithm) G maps 0 False visited) (\<lambda>r. Inr (fst r)) = Inr maps' \<and>
    mset maps' = mset maps \<and>
    (\<forall>earlier x later y. rev maps' = earlier @ x # later \<longrightarrow> y \<in> set maps \<longrightarrow> y \<noteq> x \<longrightarrow> needs G x y \<longrightarrow>
       \<not> l_main_map (G y) \<longrightarrow> y \<in> set earlier)"
  using dfs.init_order [OF assms(1,3,2)] original.init_order [OF assms(1,4,2)]
  by (simp add: dl_sort_maps_init_def)

text \<open>C25: the depth-first sort of distinct objects whose dependencies are among them, visited already
  or the main map, returns them all in a new order; an object stands before every object its
  \<open>l_initfini\<close> lists, unless the two are on a dependency cycle.\<close>

theorem dl_sort_maps_dfs_correct:
  assumes "distinct maps" "deps_closed G for_fini maps visited"
  shows "\<exists>maps' visited'. dl_sort_maps_dfs G maps for_fini visited = Inr (maps', visited') \<and>
    distinct maps' \<and> set maps' = set maps \<and> visited' = visited \<union> set maps \<and> forward G False maps'"
  using assms by (rule dfs_sort_correct)

section \<open>A concrete sort\<close>

text \<open>Object 1 needs 2 and 3, object 2 needs 3, and each lists itself first.\<close>

definition demo_store :: store where
  "demo_store a =
     \<lparr>l_initfini = Some (if a = 1 then [1, 2, 3] else if a = 2 then [2, 3] else [a]), l_reldeps = None,
      l_main_map = False, l_real = a, l_idx = 0\<rparr>"

lemma demo_needs: "needs demo_store x y \<longleftrightarrow> y = x \<or> (x, y) \<in> {(1, 2), (1, 3), (2, 3)}"
  by (auto simp: moves_behind_def demo_store_def)

lemma demo_acyclic: "acyclic (dep_rel demo_store S)"
proof -
  have "dep_rel demo_store S \<subseteq> less_than" by (auto simp: dep_rel_def demo_needs)
  then show ?thesis using wf_acyclic [OF wf_less_than] by (rule acyclic_subset [rotated])
qed

lemma demo_deps: "deps_of demo_store f a = (if a = 1 then [1, 2, 3] else if a = 2 then [2, 3] else [a])"
  by (simp add: deps_of_def demo_store_def)

lemma demo_closed: "deps_closed demo_store f [3, 2, 1] {}"
  by (simp add: deps_closed_def demo_deps)

theorem dl_sort_maps_init_order_witness:
  "\<exists>maps'. rbind (dl_sort_maps (dl_sort_maps_init 2) demo_store [3, 2, 1] 0 False {}) (\<lambda>r. Inr (fst r)) = Inr maps' \<and>
    mset maps' = mset [3, 2, 1] \<and>
    (\<forall>earlier x later y. rev maps' = earlier @ x # later \<longrightarrow> y \<in> set [3, 2, 1] \<longrightarrow> y \<noteq> x \<longrightarrow>
       needs demo_store x y \<longrightarrow> \<not> l_main_map (demo_store y) \<longrightarrow> y \<in> set earlier)"
  by (rule dl_sort_maps_init_order [OF _ demo_acyclic demo_closed]) simp_all

theorem dl_sort_maps_dfs_correct_witness:
  "\<exists>maps' visited'. dl_sort_maps_dfs demo_store [3, 2, 1] True {} = Inr (maps', visited') \<and>
    set maps' = {3, 2, 1} \<and> forward demo_store False maps'"
  using dl_sort_maps_dfs_correct [OF _ demo_closed [of True]] by fastforce

theorem dl_sort_maps_original_terminates_witness:
  "\<exists>maps'. dl_sort_maps_original demo_store [3, 2, 1] 1 True = Inr maps' \<and>
    mset maps' = mset [3, 2, 1] \<and> take 1 maps' = take 1 [3, 2, 1]"
  by (rule dl_sort_maps_original_terminates) simp_all

end
