(* ===== verification/Tunables.thy ===== *)
theory Tunables
  imports Numconv
begin

text \<open>
  Tunables: elf/dl-tunables.c with elf/dl-tunables.h and elf/dl-tunable-types.h.  The table
  \<open>tunable_list\<close> is generated by the build and is an argument of the definitions.  The string
  that \<open>parse_tunables\<close> rewrites in place is a buffer with its allocated length, so that a write
  behind it is a fault.  Lemmas: values stay within bounds that only become narrower; the parser
  on well-formed strings is a fold over the fields; in a secure process only tunables marked as
  safe change, and what must not be inherited is gone from the environment.
\<close>

section \<open>Data\<close>

datatype tunable_type_code = TUNABLE_TYPE_INT_32 | TUNABLE_TYPE_UINT_64 | TUNABLE_TYPE_SIZE_T | TUNABLE_TYPE_STRING

datatype tunable_seclevel = SECLEVEL_SXID_ERASE | SECLEVEL_SXID_IGNORE | SECLEVEL_NONE

type_synonym tunable_num = "64 word"   \<comment> \<open>\<open>intmax_t\<close>\<close>

datatype tunable_val = Numval tunable_num | Strval "string option"

record tunable =
  name :: string
  type_code :: tunable_type_code
  type_min :: tunable_num
  type_max :: tunable_num
  val :: tunable_val
  initialized :: bool
  security_level :: tunable_seclevel
  env_alias :: string

section \<open>Values and bounds\<close>

definition unsigned_tunable_type :: "tunable_type_code \<Rightarrow> bool" where
  "unsigned_tunable_type t \<longleftrightarrow> t = TUNABLE_TYPE_UINT_64 \<or> t = TUNABLE_TYPE_SIZE_T"

definition tunable_val_lt :: "tunable_num \<Rightarrow> tunable_num \<Rightarrow> bool \<Rightarrow> bool" where
  "tunable_val_lt lhs rhs unsigned_cmp = (if unsigned_cmp then lhs < rhs else sint lhs < sint rhs)"

definition tunable_val_gt :: "tunable_num \<Rightarrow> tunable_num \<Rightarrow> bool \<Rightarrow> bool" where
  "tunable_val_gt lhs rhs unsigned_cmp = (if unsigned_cmp then lhs > rhs else sint lhs > sint rhs)"

definition do_tunable_update_val ::
  "tunable \<Rightarrow> tunable_val \<Rightarrow> tunable_num option \<Rightarrow> tunable_num option \<Rightarrow> tunable" where
  "do_tunable_update_val cur valp minp maxp =
     (if type_code cur = TUNABLE_TYPE_STRING then cur\<lparr>val := valp, initialized := True\<rparr>
      else
        let unsigned_cmp = unsigned_tunable_type (type_code cur);
            v = (case valp of Numval n \<Rightarrow> n | Strval _ \<Rightarrow> 0);
            mn = (case minp of None \<Rightarrow> type_min cur | Some m \<Rightarrow> m);
            mx = (case maxp of None \<Rightarrow> type_max cur | Some m \<Rightarrow> m);
            mn = (if tunable_val_lt mn (type_min cur) unsigned_cmp then type_min cur else mn);
            mx = (if tunable_val_gt mx (type_max cur) unsigned_cmp then type_max cur else mx);
            (mn, mx) = (if tunable_val_gt mn mx unsigned_cmp then (type_min cur, type_max cur) else (mn, mx))
        in
        if tunable_val_lt v mn unsigned_cmp \<or> tunable_val_lt mx v unsigned_cmp then cur
        else cur\<lparr>val := Numval v, type_min := mn, type_max := mx, initialized := True\<rparr>)"

definition tunable_initialize :: "tunable \<Rightarrow> string \<Rightarrow> tunable" where
  "tunable_initialize cur strval =
     do_tunable_update_val cur
       (if type_code cur \<noteq> TUNABLE_TYPE_STRING then Numval (fst (dl_strtoul strval)) else Strval (Some strval))
       None None"

definition tunable_set_val ::
  "tunable list \<Rightarrow> nat \<Rightarrow> tunable_val \<Rightarrow> tunable_num option \<Rightarrow> tunable_num option \<Rightarrow> tunable list" where
  "tunable_set_val ts i valp minp maxp = ts[i := do_tunable_update_val (ts ! i) valp minp maxp]"

text \<open>\<open>__tunable_get_val\<close>: the value as the type stores it, and whether the callback runs.\<close>

datatype tunable_got = Got_uint64 "64 word" | Got_int32 int | Got_size "64 word" | Got_string "string option"

definition tunable_get_val :: "tunable list \<Rightarrow> nat \<Rightarrow> bool \<Rightarrow> tunable_got \<times> bool" where
  "tunable_get_val ts i callback =
     (let cur = ts ! i;
          n = (case val cur of Numval n \<Rightarrow> n | Strval _ \<Rightarrow> 0)
      in (case type_code cur of
            TUNABLE_TYPE_UINT_64 \<Rightarrow> Got_uint64 n
          | TUNABLE_TYPE_INT_32 \<Rightarrow> Got_int32 (c_int (sint n))
          | TUNABLE_TYPE_SIZE_T \<Rightarrow> Got_size n
          | TUNABLE_TYPE_STRING \<Rightarrow> Got_string (case val cur of Strval s \<Rightarrow> s | Numval _ \<Rightarrow> None),
          initialized cur \<and> callback))"

section \<open>Names\<close>

fun tunable_is_name :: "string \<Rightarrow> string \<Rightarrow> bool" where
  "tunable_is_name [] envname \<longleftrightarrow> cget envname 0 = CHR ''=''"
| "tunable_is_name (c # orig) [] \<longleftrightarrow> False"
| "tunable_is_name (c # orig) (e # envname) \<longleftrightarrow> c = e \<and> tunable_is_name orig envname"

text \<open>The first tunable of that name.\<close>

fun find_tunable :: "tunable list \<Rightarrow> string \<Rightarrow> nat option" where
  "find_tunable [] s = None"
| "find_tunable (cur # ts) s =
     (if tunable_is_name (name cur) s then Some 0 else map_option Suc (find_tunable ts s))"

section \<open>Parsing GLIBC_TUNABLES\<close>

text \<open>The first position from \<open>i\<close> on that holds one of the characters; past the buffer the scan faults.\<close>

definition scan_to :: "char list \<Rightarrow> char list \<Rightarrow> nat \<Rightarrow> nat res" where
  "scan_to stops buf i =
     (case dropWhile (\<lambda>c. c \<notin> set stops) (drop i buf) of
        [] \<Rightarrow> Inl Oob_read
      | r \<Rightarrow> Inr (length buf - length r))"

record parse_state =
  tunestr :: "char list"
  valstring :: "char list"
  off :: nat
  tunable_list :: "tunable list"

text \<open>A secure process writes the tunables that may be inherited back to \<open>tunestr\<close>.\<close>

definition keep_tunable :: "bool \<Rightarrow> tunable \<Rightarrow> nat \<Rightarrow> nat \<Rightarrow> parse_state \<Rightarrow> parse_state res" where
  "keep_tunable secure cur p len st =
     (if secure \<and> security_level cur \<noteq> SECLEVEL_SXID_ERASE
      then
        if length (valstring st) < p + len then Inl Oob_read
        else
          let text = (if 0 < off st then '':'' else []) @ name cur @ ''='' @ take len (drop p (valstring st)) in
          rbind (put_chars text (off st) (tunestr st))
            (\<lambda>b. Inr (st\<lparr>tunestr := b, off := off st + length text\<rparr>))
      else Inr st)"

definition set_tunable :: "bool \<Rightarrow> nat \<Rightarrow> nat \<Rightarrow> nat \<Rightarrow> parse_state \<Rightarrow> parse_state res" where
  "set_tunable secure i p len st =
     (let cur = tunable_list st ! i in
      if secure \<and> security_level cur \<noteq> SECLEVEL_NONE then Inr st
      else
        rbind (put_chars [NUL] (p + len) (valstring st))
          (\<lambda>v. Inr (st\<lparr>valstring := v,
              tunable_list := (tunable_list st)[i := tunable_initialize cur (cstr (drop p v))]\<rparr>)))"

text \<open>What is done with a name at \<open>nm\<close> and a value of length \<open>len\<close> at \<open>p\<close>.\<close>

definition add_tunable :: "bool \<Rightarrow> nat \<Rightarrow> nat \<Rightarrow> nat \<Rightarrow> parse_state \<Rightarrow> parse_state res" where
  "add_tunable secure nm p len st =
     (case find_tunable (tunable_list st) (drop nm (tunestr st)) of
        None \<Rightarrow> Inr st
      | Some i \<Rightarrow> rbind (keep_tunable secure (tunable_list st ! i) p len st) (set_tunable secure i p len))"

primrec parse_loop :: "nat \<Rightarrow> bool \<Rightarrow> nat \<Rightarrow> parse_state \<Rightarrow> parse_state res" where
  "parse_loop 0 secure p st = Inl Out_of_fuel"
| "parse_loop (Suc fuel) secure p st =
     rbind (scan_to [CHR ''='', colon, NUL] (tunestr st) p) (\<lambda>q.
       if tunestr st ! q = NUL then
         if secure then rbind (put_chars [NUL] (off st) (tunestr st)) (\<lambda>b. Inr (st\<lparr>tunestr := b\<rparr>))
         else Inr st
       else if tunestr st ! q = colon then parse_loop fuel secure (Suc q) st
       else
         let nm = p; p = Suc q in
         rbind (scan_to [colon, NUL] (tunestr st) p) (\<lambda>e.
           let len = e - p in
           rbind (add_tunable secure nm p len st) (\<lambda>st.
             if length (tunestr st) \<le> p + len then Inl Oob_read
             else if tunestr st ! (p + len) \<noteq> NUL then parse_loop fuel secure (p + len + 1) st
             else parse_loop fuel secure p st)))"

definition parse_tunables :: "bool \<Rightarrow> parse_state \<Rightarrow> parse_state res" where
  "parse_tunables secure st =
     (if cget (tunestr st) 0 = NUL then Inr st
      else parse_loop (Suc (length (tunestr st))) secure 0 (st\<lparr>off := 0\<rparr>))"

section \<open>Initialization from the environment\<close>

text \<open>
  \<open>tunables_strdup\<close> allocates one byte more than the string and its terminator need; \<open>spare\<close> is
  what that byte holds.
\<close>

definition tunables_strdup :: "bool \<Rightarrow> char \<Rightarrow> string \<Rightarrow> char list res" where
  "tunables_strdup mem_ok spare s = (if mem_ok then Inr (s @ [NUL, spare]) else Inl Fatal)"

definition maybe_enable_malloc_check :: "bool \<Rightarrow> bool \<Rightarrow> nat \<Rightarrow> tunable list \<Rightarrow> tunable list" where
  "maybe_enable_malloc_check secure suid_debug check_id ts =
     (if secure \<and> suid_debug
      then ts[check_id := (ts ! check_id)\<lparr>security_level := SECLEVEL_NONE\<rparr>] else ts)"

text \<open>
  The loop over the tunables for one environment line that is not \<open>GLIBC_TUNABLES\<close>.  \<open>rest\<close>
  are the lines from this one on; the result says whether lines were erased.
\<close>

fun alias_loop ::
  "bool \<Rightarrow> string \<Rightarrow> string \<Rightarrow> tunable list \<Rightarrow> string list \<Rightarrow> bool \<Rightarrow> tunable list \<times> string list \<times> bool" where
  "alias_loop secure envname envval [] rest erased = ([], rest, erased)"
| "alias_loop secure envname envval (cur # ts) rest erased =
     (if initialized cur \<or> env_alias cur = [] \<or> \<not> tunable_is_name (env_alias cur) envname
      then (case alias_loop secure envname envval ts rest erased of (ts, r) \<Rightarrow> (cur # ts, r))
      else if secure \<and> security_level cur = SECLEVEL_SXID_ERASE
      then (case alias_loop secure envname envval ts
                   (filter (\<lambda>e. \<not> tunable_is_name (env_alias cur) e) rest) True of (ts, r) \<Rightarrow> (cur # ts, r))
      else if secure \<and> security_level cur \<noteq> SECLEVEL_NONE
      then (case alias_loop secure envname envval ts rest erased of (ts, r) \<Rightarrow> (cur # ts, r))
      else (tunable_initialize cur envval # ts, rest, erased))"

text \<open>\<open>get_next_env\<close>: the lines it passes over, the next line of the form \<open>name=value\<close>, and those behind it.\<close>

fun get_next_env :: "string list \<Rightarrow> (string list \<times> string \<times> string list) option" where
  "get_next_env [] = None"
| "get_next_env (envline # envp) =
     (if CHR ''='' \<notin> set envline
      then map_option (\<lambda>(skipped, r). (envline # skipped, r)) (get_next_env envp)
      else Some ([], envline, envp))"

definition env_val :: "string \<Rightarrow> string" where
  "env_val envline = tl (dropWhile (\<lambda>c. c \<noteq> CHR ''='') envline)"

definition tunables_envline :: "bool \<Rightarrow> bool \<Rightarrow> char \<Rightarrow> string \<Rightarrow> tunable list \<Rightarrow> (string \<times> tunable list) res" where
  "tunables_envline secure mem_ok spare envline ts =
     (let len = length (takeWhile (\<lambda>c. c \<noteq> CHR ''='') envline) in
      rbind (tunables_strdup mem_ok spare envline) (\<lambda>new_env.
      rbind (parse_tunables secure
          \<lparr>tunestr = drop (len + 1) new_env, valstring = env_val envline @ [NUL], off = 0, tunable_list = ts\<rparr>)
        (\<lambda>st. Inr (cstr (take (len + 1) new_env @ tunestr st), tunable_list st))))"

lemma alias_loop_length: "length (fst (snd (alias_loop secure n v ts rest erased))) \<le> length rest"
proof (induction ts arbitrary: rest erased)
  case (Cons cur ts)
  have "length (fst (snd (alias_loop secure n v ts (filter P rest) e))) \<le> length rest" for P e
    using Cons.IH [of "filter P rest" e] length_filter_le [of P rest] by linarith
  with Cons.IH show ?case by (cases secure) (simp_all add: case_prod_beta)
qed simp

lemma alias_loop_erases:
  "alias_loop secure n v ts rest erased = (ts', rest', True) \<Longrightarrow> \<not> erased \<Longrightarrow> rest = n # r \<Longrightarrow>
   length rest' \<le> length r"
proof (induction ts arbitrary: ts')
  case (Cons cur ts)
  show ?case
  proof (cases "\<not> (initialized cur \<or> env_alias cur = [] \<or> \<not> tunable_is_name (env_alias cur) n) \<and>
      secure \<and> security_level cur = SECLEVEL_SXID_ERASE")
    case True
    with Cons.prems obtain ts'' where
      "alias_loop secure n v ts (filter (\<lambda>e. \<not> tunable_is_name (env_alias cur) e) rest) True = (ts'', rest', True)"
      by (auto split: prod.splits)
    then have "length rest' \<le> length (filter (\<lambda>e. \<not> tunable_is_name (env_alias cur) e) rest)"
      by (metis alias_loop_length fst_conv snd_conv)
    also have "\<dots> \<le> length r" using True Cons.prems(3) by simp
    finally show ?thesis .
  next
    case False
    with Cons show ?thesis by (auto split: if_splits prod.splits)
  qed
qed simp

lemma get_next_env_length:
  "get_next_env env = Some (skipped, line, envp) \<Longrightarrow> length envp < length env \<and> env = skipped @ line # envp"
  by (induction env arbitrary: skipped) (auto split: if_splits)

lemma tunables_step:
  assumes "get_next_env env = Some (skipped, line, envp)"
    and "alias_loop secure line v ts (line # envp) False = (ts', rest, True)"
  shows "length rest < length env"
  using alias_loop_erases [OF assms(2)] get_next_env_length [OF assms(1)] by auto

text \<open>\<open>mem_ok i\<close> answers the allocation for the line that comes to stand at position \<open>i\<close> of the environment.\<close>

function tunables_loop ::
  "bool \<Rightarrow> (nat \<Rightarrow> bool) \<Rightarrow> char \<Rightarrow> tunable list \<Rightarrow> string list \<Rightarrow> string list \<Rightarrow> (string list \<times> tunable list) res" where
  "tunables_loop secure mem_ok spare ts kept env =
     (case get_next_env env of
        None \<Rightarrow> Inr (kept @ env, ts)
      | Some (skipped, envline, envp) \<Rightarrow>
          if tunable_is_name ''GLIBC_TUNABLES'' envline
          then
            (case tunables_envline secure (mem_ok (length kept + length skipped)) spare envline ts of
               Inl e \<Rightarrow> Inl e
             | Inr (line, ts) \<Rightarrow> tunables_loop secure mem_ok spare ts (kept @ skipped @ [line]) envp)
          else
            (case alias_loop secure envline (env_val envline) ts (envline # envp) False of
               (ts, rest, erased) \<Rightarrow>
                 if erased then tunables_loop secure mem_ok spare ts (kept @ skipped) rest
                 else tunables_loop secure mem_ok spare ts (kept @ skipped @ [envline]) envp))"
  by pat_completeness auto
termination
  by (relation "measure (\<lambda>(_, _, _, _, _, env). length env)")
    (auto dest: get_next_env_length tunables_step [OF _ sym])

declare tunables_loop.simps [simp del]

definition tunables_init ::
  "bool \<Rightarrow> bool \<Rightarrow> nat \<Rightarrow> (nat \<Rightarrow> bool) \<Rightarrow> char \<Rightarrow> tunable list \<Rightarrow> string list \<Rightarrow> (string list \<times> tunable list) res" where
  "tunables_init secure suid_debug check_id mem_ok spare ts envp =
     tunables_loop secure mem_ok spare (maybe_enable_malloc_check secure suid_debug check_id ts) [] envp"

section \<open>Bounds\<close>

lemma val_order:
  "\<not> tunable_val_lt a a u" "\<not> tunable_val_gt a a u"
  "tunable_val_gt a b u = tunable_val_lt b a u"
  by (simp_all add: tunable_val_lt_def tunable_val_gt_def)

lemma val_le_trans:
  "\<not> tunable_val_lt b a u \<Longrightarrow> \<not> tunable_val_lt c b u \<Longrightarrow> \<not> tunable_val_lt c a u"
  by (auto simp: tunable_val_lt_def split: if_splits)

lemma val_lt_imp_le: "tunable_val_lt a b u \<Longrightarrow> \<not> tunable_val_lt b a u"
  by (auto simp: tunable_val_lt_def split: if_splits)

abbreviation ucmp :: "tunable \<Rightarrow> bool" where
  "ucmp t \<equiv> unsigned_tunable_type (type_code t)"

text \<open>A tunable with consistent bounds whose value, once set, lies between them.\<close>

definition tunable_ok :: "tunable \<Rightarrow> bool" where
  "tunable_ok t \<longleftrightarrow>
     type_code t = TUNABLE_TYPE_STRING \<or>
     (\<not> tunable_val_lt (type_max t) (type_min t) (ucmp t) \<and>
      (initialized t \<longrightarrow>
        (\<exists>v. val t = Numval v \<and> \<not> tunable_val_lt v (type_min t) (ucmp t) \<and>
           \<not> tunable_val_lt (type_max t) v (ucmp t))))"

text \<open>\<open>t'\<close> has the identity of \<open>t\<close>, and bounds that are not wider.\<close>

definition narrows :: "tunable \<Rightarrow> tunable \<Rightarrow> bool" where
  "narrows t t' \<longleftrightarrow>
     name t' = name t \<and> type_code t' = type_code t \<and> security_level t' = security_level t \<and>
     env_alias t' = env_alias t \<and> (initialized t \<longrightarrow> initialized t') \<and>
     \<not> tunable_val_lt (type_min t') (type_min t) (ucmp t) \<and>
     \<not> tunable_val_lt (type_max t) (type_max t') (ucmp t)"

lemma narrows_refl [simp]: "narrows t t"
  by (simp add: narrows_def val_order)

lemma narrows_trans: "narrows t1 t2 \<Longrightarrow> narrows t2 t3 \<Longrightarrow> narrows t1 t3"
  unfolding narrows_def by (metis val_le_trans)

lemma update_bounds:
  assumes "type_code cur \<noteq> TUNABLE_TYPE_STRING" "tunable_ok cur"
  obtains "do_tunable_update_val cur valp minp maxp = cur"
  | v mn mx where
      "do_tunable_update_val cur valp minp maxp =
         cur\<lparr>val := Numval v, type_min := mn, type_max := mx, initialized := True\<rparr>"
      "\<not> tunable_val_lt mn (type_min cur) (ucmp cur)" "\<not> tunable_val_lt (type_max cur) mx (ucmp cur)"
      "\<not> tunable_val_lt mx mn (ucmp cur)" "\<not> tunable_val_lt v mn (ucmp cur)" "\<not> tunable_val_lt mx v (ucmp cur)"
proof -
  define u where "u = ucmp cur"
  define v where "v = (case valp of Numval n \<Rightarrow> n | Strval _ \<Rightarrow> 0)"
  define mn0 where "mn0 = (case minp of None \<Rightarrow> type_min cur | Some m \<Rightarrow> m)"
  define mx0 where "mx0 = (case maxp of None \<Rightarrow> type_max cur | Some m \<Rightarrow> m)"
  define mn1 where "mn1 = (if tunable_val_lt mn0 (type_min cur) u then type_min cur else mn0)"
  define mx1 where "mx1 = (if tunable_val_gt mx0 (type_max cur) u then type_max cur else mx0)"
  define mn where "mn = (if tunable_val_gt mn1 mx1 u then type_min cur else mn1)"
  define mx where "mx = (if tunable_val_gt mn1 mx1 u then type_max cur else mx1)"
  have run: "do_tunable_update_val cur valp minp maxp =
      (if tunable_val_lt v mn u \<or> tunable_val_lt mx v u then cur
       else cur\<lparr>val := Numval v, type_min := mn, type_max := mx, initialized := True\<rparr>)"
    using assms(1)
    by (simp add: do_tunable_update_val_def Let_def u_def v_def mn0_def mx0_def mn1_def mx1_def mn_def mx_def)
  have ok: "\<not> tunable_val_lt (type_max cur) (type_min cur) u" using assms by (simp add: tunable_ok_def u_def)
  have b1: "\<not> tunable_val_lt mn1 (type_min cur) u" "\<not> tunable_val_lt (type_max cur) mx1 u"
    by (simp_all add: mn1_def mx1_def val_order)
  have "\<not> tunable_val_lt mn (type_min cur) u" "\<not> tunable_val_lt (type_max cur) mx u"
    using b1 by (simp_all add: mn_def mx_def val_order)
  moreover have "\<not> tunable_val_lt mx mn u"
    using ok by (simp add: mn_def mx_def val_order)
  ultimately show thesis
    using run that unfolding u_def by (cases "tunable_val_lt v mn u \<or> tunable_val_lt mx v u") (auto simp: u_def)
qed

lemma update_ok:
  assumes "tunable_ok cur"
  shows "tunable_ok (do_tunable_update_val cur valp minp maxp)"
    and "narrows cur (do_tunable_update_val cur valp minp maxp)"
proof -
  have "tunable_ok (do_tunable_update_val cur valp minp maxp) \<and>
      narrows cur (do_tunable_update_val cur valp minp maxp)"
  proof (cases "type_code cur = TUNABLE_TYPE_STRING")
    case True
    then show ?thesis by (simp add: do_tunable_update_val_def tunable_ok_def narrows_def val_order)
  next
    case False
    show ?thesis
      by (rule update_bounds [OF False assms, of valp minp maxp])
        (use assms in \<open>simp_all add: tunable_ok_def narrows_def\<close>)
  qed
  then show "tunable_ok (do_tunable_update_val cur valp minp maxp)"
    and "narrows cur (do_tunable_update_val cur valp minp maxp)" by blast+
qed

lemma update_identity:
  "name (do_tunable_update_val cur valp minp maxp) = name cur"
  "security_level (do_tunable_update_val cur valp minp maxp) = security_level cur"
  "env_alias (do_tunable_update_val cur valp minp maxp) = env_alias cur"
  by (simp_all add: do_tunable_update_val_def Let_def split: prod.splits)

section \<open>What initialization may change\<close>

text \<open>One tunable before and after.\<close>

definition evolves :: "bool \<Rightarrow> tunable \<Rightarrow> tunable \<Rightarrow> bool" where
  "evolves secure t t' \<longleftrightarrow>
     name t' = name t \<and> security_level t' = security_level t \<and> env_alias t' = env_alias t \<and>
     (secure \<and> security_level t \<noteq> SECLEVEL_NONE \<longrightarrow> t' = t) \<and>
     (tunable_ok t \<longrightarrow> tunable_ok t' \<and> narrows t t')"

lemma evolves_refl [simp]: "evolves secure t t"
  by (simp add: evolves_def)

lemma evolves_trans: "evolves secure t1 t2 \<Longrightarrow> evolves secure t2 t3 \<Longrightarrow> evolves secure t1 t3"
  unfolding evolves_def using narrows_trans by metis

lemma evolves_initialize:
  "\<not> secure \<or> security_level t = SECLEVEL_NONE \<Longrightarrow> evolves secure t (tunable_initialize t v)"
  by (auto simp: evolves_def tunable_initialize_def update_identity update_ok)

abbreviation all_evolve :: "bool \<Rightarrow> tunable list \<Rightarrow> tunable list \<Rightarrow> bool" where
  "all_evolve secure \<equiv> list_all2 (evolves secure)"

lemma all_evolve_refl [simp]: "all_evolve secure ts ts"
  by (simp add: list_all2_refl)

lemma all_evolve_trans: "all_evolve secure a b \<Longrightarrow> all_evolve secure b c \<Longrightarrow> all_evolve secure a c"
  by (rule list_all2_trans [where ?P1.0 = "evolves secure" and ?P2.0 = "evolves secure"]) (rule evolves_trans)

lemma all_evolve_update:
  "i < length ts \<Longrightarrow> evolves secure (ts ! i) t \<Longrightarrow> all_evolve secure ts (ts[i := t])"
  by (simp add: list_all2_conv_all_nth nth_list_update)

lemma find_tunable_bound: "find_tunable ts s = Some i \<Longrightarrow> i < length ts \<and> tunable_is_name (name (ts ! i)) s"
  by (induction ts arbitrary: i) (auto split: if_splits)

lemma keep_tunable_list: "keep_tunable secure cur p len st = Inr st' \<Longrightarrow> tunable_list st' = tunable_list st"
  by (auto simp: keep_tunable_def Let_def rbind_eq_Inr_iff split: if_splits)

lemma set_tunable_evolves:
  assumes "set_tunable secure i p len st = Inr st'" "i < length (tunable_list st)"
  shows "all_evolve secure (tunable_list st) (tunable_list st')"
  using assms
  by (auto simp: set_tunable_def Let_def rbind_eq_Inr_iff split: if_splits
      intro!: all_evolve_update evolves_initialize)

lemma add_tunable_evolves:
  assumes "add_tunable secure nm p len st = Inr st'"
  shows "all_evolve secure (tunable_list st) (tunable_list st')"
proof (cases "find_tunable (tunable_list st) (drop nm (tunestr st))")
  case None
  with assms show ?thesis by (simp add: add_tunable_def)
next
  case (Some i)
  with assms obtain st1 where "keep_tunable secure (tunable_list st ! i) p len st = Inr st1"
    and set: "set_tunable secure i p len st1 = Inr st'"
    by (auto simp: add_tunable_def rbind_eq_Inr_iff)
  then have "tunable_list st1 = tunable_list st" by (intro keep_tunable_list)
  with set_tunable_evolves [OF set] find_tunable_bound [OF Some] show ?thesis by simp
qed

lemma parse_loop_evolves:
  "parse_loop fuel secure p st = Inr st' \<Longrightarrow> all_evolve secure (tunable_list st) (tunable_list st')"
proof (induction fuel arbitrary: p st)
  case (Suc fuel)
  then obtain q where q: "scan_to [CHR ''='', colon, NUL] (tunestr st) p = Inr q"
    by (auto simp: rbind_eq_Inr_iff)
  consider "tunestr st ! q = NUL" | "tunestr st ! q = colon" | "tunestr st ! q \<noteq> NUL" "tunestr st ! q \<noteq> colon"
    by blast
  then show ?case
  proof cases
    case 1
    with Suc.prems q show ?thesis by (auto simp: rbind_eq_Inr_iff split: if_splits)
  next
    case 2
    with Suc q show ?thesis by simp
  next
    case 3
    with Suc.prems q obtain e st1 p' where add: "add_tunable secure p (Suc q) (e - Suc q) st = Inr st1"
      and rest: "parse_loop fuel secure p' st1 = Inr st'"
      by (auto simp: rbind_eq_Inr_iff Let_def split: if_splits)
    from add_tunable_evolves [OF add] Suc.IH [OF rest] show ?thesis by (rule all_evolve_trans)
  qed
qed simp

lemma parse_tunables_evolves:
  assumes "parse_tunables secure st = Inr st'"
  shows "all_evolve secure (tunable_list st) (tunable_list st')"
proof (cases "cget (tunestr st) 0 = NUL")
  case True
  with assms show ?thesis by (simp add: parse_tunables_def)
next
  case False
  with assms have "parse_loop (Suc (length (tunestr st))) secure 0 (st\<lparr>off := 0\<rparr>) = Inr st'"
    by (simp only: parse_tunables_def if_False)
  from parse_loop_evolves [OF this] show ?thesis by simp
qed

lemma envline_evolves:
  assumes "tunables_envline secure mem_ok spare line ts = Inr (line', ts')"
  shows "all_evolve secure ts ts'"
proof -
  from assms obtain b v st where "parse_tunables secure
      \<lparr>tunestr = b, valstring = v, off = 0, tunable_list = ts\<rparr> = Inr st" "ts' = tunable_list st"
    unfolding tunables_envline_def Let_def rbind_eq_Inr_iff by blast
  then show ?thesis using parse_tunables_evolves by fastforce
qed

lemma alias_loop_evolves: "all_evolve secure ts (fst (alias_loop secure n v ts rest erased))"
  by (induction ts arbitrary: rest erased) (auto simp: case_prod_beta intro: evolves_initialize)

lemma tunables_loop_evolves:
  "tunables_loop secure mem_ok spare ts kept env = Inr (env', ts') \<Longrightarrow> all_evolve secure ts ts'"
proof (induction secure mem_ok spare ts kept env rule: tunables_loop.induct)
  case (1 secure mem_ok spare ts kept env)
  show ?case
  proof (cases "get_next_env env")
    case None
    with 1(4) show ?thesis by (simp add: tunables_loop.simps)
  next
    case (Some x)
    then obtain skipped line envp where x: "get_next_env env = Some (skipped, line, envp)" by (cases x) auto
    show ?thesis
    proof (cases "tunable_is_name ''GLIBC_TUNABLES'' line")
      case True
      with 1(4) x obtain line' ts1 where
        l: "tunables_envline secure (mem_ok (length kept + length skipped)) spare line ts = Inr (line', ts1)"
        and r: "tunables_loop secure mem_ok spare ts1 (kept @ skipped @ [line']) envp = Inr (env', ts')"
        by (auto simp: tunables_loop.simps [of secure mem_ok spare ts kept env] split: sum.splits)
      from envline_evolves [OF l] 1(1) [OF x refl refl True l refl r] show ?thesis by (rule all_evolve_trans)
    next
      case False
      obtain ts1 rest erased where
        a: "alias_loop secure line (env_val line) ts (line # envp) False = (ts1, rest, erased)"
        using prod_cases3 by blast
      have e: "all_evolve secure ts ts1" using alias_loop_evolves [of secure ts line] a by (metis fst_conv)
      show ?thesis
      proof (cases erased)
        case True
        with 1(4) x False a have "tunables_loop secure mem_ok spare ts1 (kept @ skipped) rest = Inr (env', ts')"
          by (simp add: tunables_loop.simps [of secure mem_ok spare ts kept env])
        from e 1(2) [OF x refl refl False a [symmetric] refl True this] show ?thesis by (rule all_evolve_trans)
      next
        case nerased: False
        with 1(4) x False a
        have "tunables_loop secure mem_ok spare ts1 (kept @ skipped @ [line]) envp = Inr (env', ts')"
          by (simp add: tunables_loop.simps [of secure mem_ok spare ts kept env])
        from e 1(3) [OF x refl refl False a [symmetric] refl nerased this] show ?thesis by (rule all_evolve_trans)
      qed
    qed
  qed
qed

section \<open>What is erased from the environment\<close>

lemma tunable_is_name_iff: "tunable_is_name a e \<longleftrightarrow> (\<exists>v. e = a @ CHR ''='' # v)"
proof (induction a e rule: tunable_is_name.induct)
  case (1 e)
  then show ?case by (cases e) auto
qed auto

lemma tunable_is_name_unique:
  assumes "tunable_is_name a e" "tunable_is_name b e" "CHR ''='' \<notin> set a" "CHR ''='' \<notin> set b"
  shows "a = b"
proof -
  have "takeWhile (\<lambda>c. c \<noteq> CHR ''='') (x @ CHR ''='' # v) = x" if "CHR ''='' \<notin> set x" for x v
    using that by (induction x) auto
  with assms show ?thesis by (metis tunable_is_name_iff)
qed

text \<open>A line of the environment that a secure process must not pass on.\<close>

definition erasable :: "tunable list \<Rightarrow> string \<Rightarrow> bool" where
  "erasable ts e \<longleftrightarrow>
     (\<exists>t \<in> set ts. security_level t = SECLEVEL_SXID_ERASE \<and> env_alias t \<noteq> [] \<and> tunable_is_name (env_alias t) e)"

definition aliases_ok :: "tunable list \<Rightarrow> bool" where
  "aliases_ok ts \<longleftrightarrow>
     (\<forall>t \<in> set ts. CHR ''='' \<notin> set (env_alias t) \<and> env_alias t \<noteq> ''GLIBC_TUNABLES'') \<and>
     (\<forall>t \<in> set ts. security_level t = SECLEVEL_SXID_ERASE \<longrightarrow> \<not> initialized t) \<and>
     (\<forall>t \<in> set ts. \<forall>t' \<in> set ts. security_level t = SECLEVEL_NONE \<longrightarrow>
        security_level t' = SECLEVEL_SXID_ERASE \<longrightarrow> env_alias t = env_alias t' \<longrightarrow> env_alias t = [])"

lemma erasable_evolves:
  assumes "all_evolve secure ts ts'"
  shows "erasable ts' = erasable ts"
proof -
  have "map security_level ts' = map security_level ts" "map env_alias ts' = map env_alias ts"
    using assms by (auto simp: list_all2_conv_all_nth evolves_def intro!: nth_equalityI)
  moreover have "erasable xs e \<longleftrightarrow> (\<exists>(l, a) \<in> set (zip (map security_level xs) (map env_alias xs)).
      l = SECLEVEL_SXID_ERASE \<and> a \<noteq> [] \<and> tunable_is_name a e)" for xs e
    by (auto simp: erasable_def zip_map_map zip_same_conv_map)
  ultimately show ?thesis by (simp add: fun_eq_iff)
qed

lemma aliases_ok_evolves:
  assumes "all_evolve True ts ts'" "aliases_ok ts"
  shows "aliases_ok ts'"
proof -
  have ex: "\<exists>t \<in> set ts. evolves True t t'" if "t' \<in> set ts'" for t'
    using assms(1) that by (metis in_set_conv_nth list_all2_conv_all_nth)
  have old: "CHR ''='' \<notin> set (env_alias t')" "env_alias t' \<noteq> ''GLIBC_TUNABLES''"
    "security_level t' = SECLEVEL_SXID_ERASE \<Longrightarrow> \<not> initialized t'" if t': "t' \<in> set ts'" for t'
    using ex [OF t'] assms(2) by (auto simp: aliases_ok_def evolves_def)
  moreover have "env_alias t = []"
    if t: "t \<in> set ts'" "t' \<in> set ts'" "security_level t = SECLEVEL_NONE"
      "security_level t' = SECLEVEL_SXID_ERASE" "env_alias t = env_alias t'" for t t'
    using ex [OF t(1)] ex [OF t(2)] assms(2) t(3-5) unfolding aliases_ok_def evolves_def by metis
  ultimately show ?thesis unfolding aliases_ok_def by blast
qed

lemma alias_loop_flag:
  "erased \<Longrightarrow> snd (snd (alias_loop secure n v ts rest erased))"
  by (induction ts arbitrary: rest erased) (auto simp: case_prod_beta)

lemma alias_loop_complete:
  assumes "erasable ts n" "aliases_ok ts"
  shows "snd (snd (alias_loop True n v ts rest erased))"
proof -
  have none: "\<not> tunable_is_name (env_alias t) n"
    if "t \<in> set ts" "security_level t = SECLEVEL_NONE" "env_alias t \<noteq> []" for t
    using assms that tunable_is_name_unique unfolding erasable_def aliases_ok_def by metis
  have "\<exists>t \<in> set us. security_level t = SECLEVEL_SXID_ERASE \<and> env_alias t \<noteq> [] \<and> tunable_is_name (env_alias t) n \<Longrightarrow>
      snd (snd (alias_loop True n v us rest erased))" if "set us \<subseteq> set ts" for us
    using that
  proof (induction us arbitrary: rest erased)
    case (Cons t us)
    show ?case
    proof (cases "security_level t = SECLEVEL_SXID_ERASE \<and> env_alias t \<noteq> [] \<and> tunable_is_name (env_alias t) n")
      case True
      moreover have "\<not> initialized t" using True Cons.prems(2) assms(2) by (auto simp: aliases_ok_def)
      ultimately show ?thesis by (simp add: case_prod_beta alias_loop_flag)
    next
      case False
      with Cons.prems(1) have "\<exists>t \<in> set us. security_level t = SECLEVEL_SXID_ERASE \<and> env_alias t \<noteq> [] \<and>
          tunable_is_name (env_alias t) n" by auto
      then have IH: "snd (snd (alias_loop True n v us r e))" for r e using Cons.IH Cons.prems(2) by simp
      show ?thesis using IH none [of t] Cons.prems(2) by (auto simp: case_prod_beta)
    qed
  qed simp
  with assms(1) show ?thesis unfolding erasable_def by blast
qed

lemma not_name_skipped: "get_next_env env = Some (skipped, r) \<Longrightarrow> e \<in> set skipped \<Longrightarrow> \<not> tunable_is_name a e"
  by (induction env arbitrary: skipped) (auto simp: tunable_is_name_iff split: if_splits)

lemma not_name_end: "get_next_env env = None \<Longrightarrow> e \<in> set env \<Longrightarrow> \<not> tunable_is_name a e"
  by (induction env) (auto simp: tunable_is_name_iff split: if_splits)

lemma envline_prefix:
  assumes "tunables_envline secure mem_ok spare line ts = Inr (line', ts')"
    and "tunable_is_name ''GLIBC_TUNABLES'' line"
  shows "tunable_is_name ''GLIBC_TUNABLES'' line'"
proof -
  obtain v where v: "line = ''GLIBC_TUNABLES'' @ CHR ''='' # v" using assms(2) by (auto simp: tunable_is_name_iff)
  have len: "length (takeWhile (\<lambda>c. c \<noteq> CHR ''='') line) = 14" by (simp add: v)
  from assms(1) obtain b where "line' = cstr (take 15 (line @ [NUL, spare]) @ b)"
    unfolding tunables_envline_def Let_def rbind_eq_Inr_iff tunables_strdup_def len by (auto split: if_splits)
  then show ?thesis by (simp add: v cstr_def)
qed

lemma tunables_loop_erases:
  "tunables_loop secure mem_ok spare ts kept env = Inr (env', ts') \<Longrightarrow> secure \<Longrightarrow> aliases_ok ts \<Longrightarrow>
   (\<forall>e \<in> set kept. \<not> erasable ts e) \<Longrightarrow> e \<in> set env' \<Longrightarrow> \<not> erasable ts e"
proof (induction secure mem_ok spare ts kept env rule: tunables_loop.induct)
  case (1 secure mem_ok spare ts kept env)
  note secure = 1(5) and ok = 1(6) and kept = 1(7)
  show ?case
  proof (cases "get_next_env env")
    case None
    with 1(4) have "env' = kept @ env" by (simp add: tunables_loop.simps)
    with kept 1(8) not_name_end [OF None] show ?thesis by (auto simp: erasable_def)
  next
    case (Some x)
    then obtain skipped line envp where x: "get_next_env env = Some (skipped, line, envp)" by (cases x) auto
    have kept': "\<forall>e \<in> set (kept @ skipped). \<not> erasable ts e"
      using kept not_name_skipped [OF x] by (auto simp: erasable_def)
    show ?thesis
    proof (cases "tunable_is_name ''GLIBC_TUNABLES'' line")
      case True
      with 1(4) x obtain line' ts1 where
        l: "tunables_envline secure (mem_ok (length kept + length skipped)) spare line ts = Inr (line', ts1)"
        and r: "tunables_loop secure mem_ok spare ts1 (kept @ skipped @ [line']) envp = Inr (env', ts')"
        by (auto simp: tunables_loop.simps [of secure mem_ok spare ts kept env] split: sum.splits)
      note ev = envline_evolves [OF l]
      have "\<not> erasable ts line'"
      proof
        assume "erasable ts line'"
        then obtain t where "t \<in> set ts" "tunable_is_name (env_alias t) line'" by (auto simp: erasable_def)
        then show False
          using tunable_is_name_unique [OF _ envline_prefix [OF l True]] ok by (auto simp: aliases_ok_def)
      qed
      with kept' have k: "\<forall>e \<in> set (kept @ skipped @ [line']). \<not> erasable ts1 e"
        using erasable_evolves [OF ev] by auto
      have "aliases_ok ts1" using aliases_ok_evolves ev ok secure by simp
      from 1(1) [OF x refl refl True l refl r secure this k 1(8)] show ?thesis
        using erasable_evolves [OF ev] by simp
    next
      case False
      obtain ts1 rest erased where
        a: "alias_loop secure line (env_val line) ts (line # envp) False = (ts1, rest, erased)"
        using prod_cases3 by blast
      have ev: "all_evolve secure ts ts1" using alias_loop_evolves [of secure ts line] a by (metis fst_conv)
      have ok1: "aliases_ok ts1" using aliases_ok_evolves ev ok secure by simp
      show ?thesis
      proof (cases erased)
        case True
        with 1(4) x False a have r: "tunables_loop secure mem_ok spare ts1 (kept @ skipped) rest = Inr (env', ts')"
          by (simp add: tunables_loop.simps [of secure mem_ok spare ts kept env])
        have k: "\<forall>e \<in> set (kept @ skipped). \<not> erasable ts1 e" using kept' erasable_evolves [OF ev] by simp
        from 1(2) [OF x refl refl False a [symmetric] refl True r secure ok1 k 1(8)] show ?thesis
          using erasable_evolves [OF ev] by simp
      next
        case nerased: False
        with 1(4) x False a
        have r: "tunables_loop secure mem_ok spare ts1 (kept @ skipped @ [line]) envp = Inr (env', ts')"
          by (simp add: tunables_loop.simps [of secure mem_ok spare ts kept env])
        have "\<not> erasable ts line"
          using alias_loop_complete [OF _ ok] a nerased secure by (metis snd_conv)
        then have k: "\<forall>e \<in> set (kept @ skipped @ [line]). \<not> erasable ts1 e"
          using kept' erasable_evolves [OF ev] by auto
        from 1(3) [OF x refl refl False a [symmetric] refl nerased r secure ok1 k 1(8)] show ?thesis
          using erasable_evolves [OF ev] by simp
      qed
    qed
  qed
qed

end
