(* ===== verification/TunablesParse.thy ===== *)
theory TunablesParse
  imports Tunables
begin

text \<open>
  The parser of \<open>GLIBC_TUNABLES\<close> on strings whose last field has at most one equals sign: it is a
  fold over the colon-separated fields, and in a secure process the rewritten string is the
  list of the fields that may be inherited.  A last value with an equals sign in it is parsed again, which
  in a secure process writes behind the buffer.
\<close>

section \<open>The parser on well-formed strings\<close>

text \<open>What one field does to the table and to the string that is passed on.\<close>

definition index_of :: "tunable list \<Rightarrow> string \<Rightarrow> nat option" where
  "index_of ts n = find (\<lambda>i. name (ts ! i) = n) [0..<length ts]"

definition parse_field :: "bool \<Rightarrow> tunable list \<times> string \<Rightarrow> string \<Rightarrow> tunable list \<times> string" where
  "parse_field secure acc f =
     (case acc of (ts, out) \<Rightarrow>
        if CHR ''='' \<notin> set f then (ts, out)
        else
          let n = takeWhile (\<lambda>c. c \<noteq> CHR ''='') f; v = tl (dropWhile (\<lambda>c. c \<noteq> CHR ''='') f) in
          case index_of ts n of
            None \<Rightarrow> (ts, out)
          | Some i \<Rightarrow>
              (if secure \<and> security_level (ts ! i) \<noteq> SECLEVEL_NONE then ts
               else ts[i := tunable_initialize (ts ! i) v],
               if secure \<and> security_level (ts ! i) \<noteq> SECLEVEL_SXID_ERASE
               then out @ (if out = [] then [] else '':'') @ f else out))"

definition names_ok :: "tunable list \<Rightarrow> bool" where
  "names_ok ts \<longleftrightarrow> (\<forall>t \<in> set ts. CHR ''='' \<notin> set (name t))"

lemma is_name_eq:
  "CHR ''='' \<notin> set a \<Longrightarrow> CHR ''='' \<notin> set n \<Longrightarrow> tunable_is_name a (n @ CHR ''='' # x) \<longleftrightarrow> a = n"
  using tunable_is_name_unique [of a "n @ CHR ''='' # x" n] by (auto simp: tunable_is_name_iff)

lemma find_upt_Suc: "find P [0..<Suc n] = (if P 0 then Some 0 else map_option Suc (find (\<lambda>i. P (Suc i)) [0..<n]))"
proof -
  have "[0..<Suc n] = 0 # map Suc [0..<n]" by (simp add: map_Suc_upt upt_conv_Cons del: upt_Suc)
  moreover have "find P (map Suc xs) = map_option Suc (find (\<lambda>i. P (Suc i)) xs)" for xs
    by (induction xs) auto
  ultimately show ?thesis by simp
qed

lemma find_tunable_index:
  "names_ok ts \<Longrightarrow> CHR ''='' \<notin> set n \<Longrightarrow> find_tunable ts (n @ CHR ''='' # x) = index_of ts n"
proof (induction ts)
  case (Cons t ts)
  then show ?case by (simp add: index_of_def find_upt_Suc names_ok_def is_name_eq del: upt_Suc)
qed (simp add: index_of_def)

lemma names_ok_update: "names_ok ts \<Longrightarrow> names_ok (ts[i := tunable_initialize (ts ! i) v])"
proof (cases "i < length ts")
  case True
  assume ok: "names_ok ts"
  have "name (tunable_initialize (ts ! i) v) = name (ts ! i)" by (simp add: tunable_initialize_def update_identity)
  with ok True show ?thesis by (auto simp: names_ok_def dest!: set_update_subset_insert [THEN subsetD])
qed (simp add: list_update_beyond)

lemma names_ok_field: "names_ok ts \<Longrightarrow> names_ok (fst (parse_field secure (ts, out) f))"
  by (auto simp: parse_field_def Let_def names_ok_update split: option.splits)

lemma nul_free_field: "nul_free out \<Longrightarrow> nul_free f \<Longrightarrow> nul_free (snd (parse_field secure (ts, out) f))"
  by (auto simp: parse_field_def Let_def split: option.splits)

lemma scan_to_found:
  assumes "\<forall>c \<in> set u. c \<notin> set stops" "d \<in> set stops"
  shows "scan_to stops (pre @ u @ d # post) (length pre) = Inr (length pre + length u)"
proof -
  have "dropWhile (\<lambda>c. c \<notin> set stops) (u @ d # post) = d # post"
    using assms by (simp add: dropWhile_append2)
  then show ?thesis by (simp add: scan_to_def)
qed


text \<open>The last characters of a string that has been moved to the left are those of its last part.\<close>

lemma moved_tail:
  assumes "m \<le> length (y @ v)"
  shows "set (drop (length (x @ v @ drop m (y @ v)) - length v) (x @ v @ drop m (y @ v))) \<subseteq> set v"
proof (cases "m \<le> length y")
  case True
  then have "x @ v @ drop m (y @ v) = (x @ v @ drop m y) @ v" by simp
  then show ?thesis by (metis add_diff_cancel_right' append_eq_conv_conj length_append order_refl)
next
  case False
  then have d: "drop m (y @ v) = drop (m - length y) v" by simp
  let ?k = "m - length y"
  have "length (x @ v @ drop ?k v) - length v = length x + (length v - ?k)" using False assms by simp
  then have "drop (length (x @ v @ drop ?k v) - length v) (x @ v @ drop ?k v) =
      drop (length v - ?k) (v @ drop ?k v)" by simp
  then show ?thesis unfolding d by (auto dest: in_set_dropD)
qed

lemma drop_within: "k \<le> length a \<Longrightarrow> drop k (a @ b) = drop k a @ b"
  by simp

lemma keep_tunable_spec:
  assumes buf: "tunestr st = out @ junk @ f @ R" "f = n @ CHR ''='' # v" "off st = length out"
    and vals: "valstring st = vp @ f @ vs" "length vp = length out + length junk"
    and room: "out = [] \<or> junk \<noteq> []" and cur: "name cur = n"
    and out1_def: "out1 = (if secure \<and> security_level cur \<noteq> SECLEVEL_SXID_ERASE
    then out @ (if out = [] then [] else '':'') @ f else out)"
  shows "\<exists>junk1. keep_tunable secure cur (length vp + length n + 1) (length v) st =
      Inr (st\<lparr>tunestr := out1 @ junk1 @ R, off := length out1\<rparr>) \<and>
    length out1 + length junk1 = length out + length junk + length f \<and>
    set (drop (length vp + length n + 1) (out1 @ junk1)) \<subseteq> set v \<and>
    (\<not> secure \<longrightarrow> out1 @ junk1 = out @ junk @ f)"
proof (cases "secure \<and> security_level cur \<noteq> SECLEVEL_SXID_ERASE")
  case False
  then have "out1 = out" by (auto simp: out1_def)
  moreover have "st = st\<lparr>tunestr := out @ junk @ f @ R, off := length out\<rparr>" using buf(1,3) by simp
  moreover have "drop (length vp + length n + 1) (out @ junk @ f) = v" using vals(2) buf(2) by simp
  ultimately show ?thesis using False vals(2) by (intro exI [of _ "junk @ f"]) (auto simp: keep_tunable_def)
next
  case True
  define t where "t = (if 0 < off st then '':'' else []) @ n @ ''='' @ v"
  have tx: "t = (if out = [] then [] else '':'') @ f" by (simp add: t_def buf(2,3))
  have out1: "out1 = out @ t" unfolding tx out1_def using True by simp
  have v: "take (length v) (drop (length vp + length n + 1) (valstring st)) = v"
    by (simp add: vals(1) buf(2))
  have le: "length t \<le> length (junk @ f)"
    using room tx by (cases junk) auto
  have "put_chars t (length out) (out @ (junk @ f @ R)) = Inr (out @ t @ drop (length t) (junk @ f @ R))"
    using le by (intro put_chars_at) simp
  moreover have "drop (length t) (junk @ f @ R) = drop (length t) (junk @ f) @ R"
    using drop_within [OF le, of R] by simp
  ultimately have put: "put_chars t (off st) (tunestr st) = Inr (out1 @ drop (length t) (junk @ f) @ R)"
    by (simp add: buf(1,3) out1)
  have "\<not> length (valstring st) < length vp + length n + 1 + length v" by (simp add: vals(1) buf(2))
  then have "keep_tunable secure cur (length vp + length n + 1) (length v) st =
      rbind (put_chars t (off st) (tunestr st)) (\<lambda>b. Inr (st\<lparr>tunestr := b, off := off st + length t\<rparr>))"
    using True unfolding keep_tunable_def Let_def v cur t_def by simp
  then have run: "keep_tunable secure cur (length vp + length n + 1) (length v) st =
      Inr (st\<lparr>tunestr := out1 @ drop (length t) (junk @ f) @ R, off := length out1\<rparr>)"
    unfolding put rbind_simps by (simp only: buf(3) out1 length_append)
  have len: "length out1 + length (drop (length t) (junk @ f)) = length out + length junk + length f"
    using le unfolding out1 by simp
  let ?x = "out @ (if out = [] then [] else '':'') @ n @ ''=''" and ?y = "junk @ n @ ''=''"
  have parts: "out1 = ?x @ v" "junk @ f = ?y @ v" unfolding out1 tx buf(2) by simp_all
  have total: "length (out1 @ drop (length t) (junk @ f)) - length v = length vp + length n + 1"
    unfolding length_append [of out1] len vals(2) by (simp add: buf(2))
  have m: "length t \<le> length (?y @ v)" using le unfolding parts(2) .
  have "out1 @ drop (length t) (junk @ f) = ?x @ v @ drop (length t) (?y @ v)"
    unfolding parts by (simp only: append_assoc)
  then have tail: "set (drop (length vp + length n + 1) (out1 @ drop (length t) (junk @ f))) \<subseteq> set v"
    using moved_tail [OF m, of ?x] total by (simp only:)
  show ?thesis
    by (intro exI [of _ "drop (length t) (junk @ f)"] conjI run len tail impI) (use True in simp)
qed

lemma set_tunable_spec:
  assumes "valstring st = vp @ n @ CHR ''='' # v @ d # vs" "nul_free v" "p = length vp + length n + 1"
  shows "set_tunable secure i p (length v) st =
    Inr (if secure \<and> security_level (tunable_list st ! i) \<noteq> SECLEVEL_NONE then st
         else st\<lparr>valstring := vp @ n @ CHR ''='' # v @ NUL # vs,
           tunable_list := (tunable_list st)[i := tunable_initialize (tunable_list st ! i) v]\<rparr>)"
proof -
  have "put_chars [NUL] (length (vp @ n @ CHR ''='' # v)) ((vp @ n @ CHR ''='' # v) @ d # vs) =
      Inr ((vp @ n @ CHR ''='' # v) @ [NUL] @ drop 1 (d # vs))"
    by (subst put_chars_at) simp_all
  then have "put_chars [NUL] (p + length v) (valstring st) = Inr (vp @ n @ CHR ''='' # v @ NUL # vs)"
    by (simp add: assms(1,3) add.assoc)
  moreover have "cstr (drop p (vp @ n @ CHR ''='' # v @ NUL # vs)) = v"
    using assms(2,3) by simp
  ultimately show ?thesis by (simp add: set_tunable_def Let_def)
qed

lemma parse_end:
  assumes "tunestr st = pre @ u @ NUL # sp" "\<forall>c \<in> set u. c \<noteq> CHR ''='' \<and> c \<noteq> colon \<and> c \<noteq> NUL"
    and "take (off st) (tunestr st) = out" "off st = length out" "off st < length (tunestr st)" "nul_free out"
  shows "\<exists>st'. parse_loop (Suc fuel) secure (length pre) st = Inr st' \<and> tunable_list st' = tunable_list st \<and>
    (if secure then cstr (tunestr st') = out else tunestr st' = tunestr st)"
proof -
  have "scan_to [CHR ''='', colon, NUL] (tunestr st) (length pre) = Inr (length pre + length u)"
    unfolding assms(1) by (rule scan_to_found) (use assms(2) in auto)
  moreover have "tunestr st ! (length pre + length u) = NUL" by (simp add: assms(1) nth_append)
  moreover have "put_chars [NUL] (off st) (tunestr st) = Inr (out @ NUL # drop (Suc (off st)) (tunestr st))"
    using assms(3,5) by (simp add: put_chars_def)
  ultimately show ?thesis using assms(6) by simp
qed


lemma split_equals:
  assumes "CHR ''='' \<in> set f"
  obtains n v where "f = n @ CHR ''='' # v" "CHR ''='' \<notin> set n"
    "takeWhile (\<lambda>c. c \<noteq> CHR ''='') f = n" "tl (dropWhile (\<lambda>c. c \<noteq> CHR ''='') f) = v"
proof -
  obtain n v where nv: "f = n @ CHR ''='' # v" "CHR ''='' \<notin> set n" using assms by (meson split_list_first)
  have "takeWhile (\<lambda>c. c \<noteq> CHR ''='') f = n" "dropWhile (\<lambda>c. c \<noteq> CHR ''='') f = CHR ''='' # v"
    unfolding nv(1) using nv(2) by (induction n) auto
  with nv that show thesis by simp
qed

text \<open>One turn of the loop on a field that is followed by \<open>d\<close>, a colon or the terminator.\<close>

lemma parse_field_step:
  assumes buf: "tunestr st = out @ junk @ f @ d # R" "off st = length out"
    and vals: "valstring st = vp @ f @ d # vs" "length vp = length out + length junk"
    and room: "out = [] \<or> junk \<noteq> []" and f: "nul_free f" "colon \<notin> set f" "CHR ''='' \<in> set f"
    and d: "d = colon \<or> d = NUL" and names: "names_ok (tunable_list st)"
  obtains st1 out1 junk1 e v where
    "parse_loop (Suc fuel) secure (length vp) st =
       parse_loop fuel secure (if d = NUL then length vp + length f - length v else length vp + length f + 1) st1"
    "parse_field secure (tunable_list st, out) f = (tunable_list st1, out1)"
    "tunestr st1 = out1 @ junk1 @ d # R" "off st1 = length out1"
    "valstring st1 = vp @ f @ e # vs" "length out1 + length junk1 = length vp + length f"
    "length v \<le> length f" "set (drop (length vp + length f - length v) (out1 @ junk1)) \<subseteq> set v"
    "CHR ''='' \<in> set v \<Longrightarrow> 1 < length (filter (\<lambda>c. c = CHR ''='') f)" "set v \<subseteq> set f"
    "\<not> secure \<longrightarrow> out1 = out \<and> tunestr st1 = tunestr st"
proof -
  obtain n v where nv: "f = n @ CHR ''='' # v" "CHR ''='' \<notin> set n"
    "takeWhile (\<lambda>c. c \<noteq> CHR ''='') f = n" "tl (dropWhile (\<lambda>c. c \<noteq> CHR ''='') f) = v"
    using split_equals [OF f(3)] by blast
  let ?p = "length vp + length n + 1"
  have pre: "length vp = length (out @ junk)" using vals(2) by simp
  have scan1: "scan_to [CHR ''='', colon, NUL] (tunestr st) (length vp) = Inr (length vp + length n)"
    using scan_to_found [of n "[CHR ''='', colon, NUL]" "CHR ''=''" "out @ junk" "v @ d # R"] nv f
    unfolding pre by (auto simp: buf(1) nul_free_def)
  have at1: "tunestr st ! (length vp + length n) = CHR ''=''"
    unfolding pre by (simp add: buf(1) nv(1) nth_append)
  have scan2: "scan_to [colon, NUL] (tunestr st) ?p = Inr (?p + length v)"
    using scan_to_found [of v "[colon, NUL]" d "out @ junk @ n @ ''=''" R] nv(1) f d
    unfolding pre by (auto simp: buf(1) nul_free_def add.assoc)
  have look: "find_tunable (tunable_list st) (drop (length vp) (tunestr st)) = index_of (tunable_list st) n"
    using find_tunable_index [OF names nv(2)] unfolding pre by (simp add: buf(1) nv(1))
  define out1 where "out1 = snd (parse_field secure (tunable_list st, out) f)"
  have "\<exists>st1 junk1 e. add_tunable secure (length vp) ?p (length v) st = Inr st1 \<and>
      parse_field secure (tunable_list st, out) f = (tunable_list st1, out1) \<and>
      tunestr st1 = out1 @ junk1 @ d # R \<and> off st1 = length out1 \<and> valstring st1 = vp @ f @ e # vs \<and>
      length out1 + length junk1 = length vp + length f \<and> set (drop ?p (out1 @ junk1)) \<subseteq> set v \<and>
      (\<not> secure \<longrightarrow> out1 = out \<and> tunestr st1 = tunestr st)"
  proof (cases "index_of (tunable_list st) n")
    case None
    then have "parse_field secure (tunable_list st, out) f = (tunable_list st, out)"
      using nv(3) by (simp add: parse_field_def)
    moreover have "out1 = out" using calculation by (simp add: out1_def)
    moreover have "set (drop ?p (out @ junk @ f)) \<subseteq> set v" unfolding pre by (simp add: nv(1))
    ultimately show ?thesis
      using None look buf vals by (intro exI [of _ st] exI [of _ "junk @ f"] exI [of _ d])
        (simp add: add_tunable_def)
  next
    case (Some i)
    let ?cur = "tunable_list st ! i"
    have nm: "name ?cur = n" using Some by (auto simp: index_of_def find_Some_iff)
    have fld: "parse_field secure (tunable_list st, out) f =
        (if secure \<and> security_level ?cur \<noteq> SECLEVEL_NONE then tunable_list st
         else (tunable_list st)[i := tunable_initialize ?cur v], out1)"
      using Some nv f(3) by (simp add: parse_field_def out1_def Let_def)
    have o1: "out1 = (if secure \<and> security_level ?cur \<noteq> SECLEVEL_SXID_ERASE
        then out @ (if out = [] then [] else '':'') @ f else out)"
      using Some nv f(3) by (simp add: parse_field_def out1_def Let_def)
    obtain junk1 where k: "keep_tunable secure ?cur ?p (length v) st =
        Inr (st\<lparr>tunestr := out1 @ junk1 @ d # R, off := length out1\<rparr>)"
      "length out1 + length junk1 = length out + length junk + length f"
      "set (drop ?p (out1 @ junk1)) \<subseteq> set v" "\<not> secure \<longrightarrow> out1 @ junk1 = out @ junk @ f"
      using keep_tunable_spec [OF buf(1) nv(1) buf(2) vals room nm o1] by blast
    let ?st = "st\<lparr>tunestr := out1 @ junk1 @ d # R, off := length out1\<rparr>"
    have "valstring ?st = vp @ n @ CHR ''='' # v @ d # vs" by (simp add: vals(1) nv(1))
    moreover have "nul_free v" using f(1) nv(1) by simp
    ultimately have s: "set_tunable secure i ?p (length v) ?st =
      Inr (if secure \<and> security_level ?cur \<noteq> SECLEVEL_NONE then ?st
         else ?st\<lparr>valstring := vp @ n @ CHR ''='' # v @ NUL # vs,
           tunable_list := (tunable_list st)[i := tunable_initialize ?cur v]\<rparr>)"
      using set_tunable_spec [of ?st vp n v d vs ?p secure i] by simp
    have add: "add_tunable secure (length vp) ?p (length v) st = set_tunable secure i ?p (length v) ?st"
      by (simp add: add_tunable_def look Some k(1) del: One_nat_def)
    have tail: "\<not> secure \<longrightarrow> out1 = out \<and> out1 @ junk1 @ d # R = tunestr st"
      using k(4) o1 by (simp add: buf(1))
    show ?thesis
    proof (cases "secure \<and> security_level ?cur \<noteq> SECLEVEL_NONE")
      case True
      then show ?thesis using add s fld k(2,3) vals tail
        by (intro exI [of _ ?st] exI [of _ junk1] exI [of _ d]) simp
    next
      case False
      let ?st1 = "?st\<lparr>valstring := vp @ n @ CHR ''='' # v @ NUL # vs,
         tunable_list := (tunable_list st)[i := tunable_initialize ?cur v]\<rparr>"
      have "add_tunable secure (length vp) ?p (length v) st = Inr ?st1"
        using add s unfolding if_not_P [OF False] by (simp only:)
      moreover have "parse_field secure (tunable_list st, out) f = (tunable_list ?st1, out1)"
        using fld unfolding if_not_P [OF False] by simp
      moreover have "tunestr ?st1 = out1 @ junk1 @ d # R" "off ?st1 = length out1"
        "valstring ?st1 = vp @ f @ NUL # vs" by (simp_all add: nv(1))
      moreover have "length out1 + length junk1 = length vp + length f" using k(2) vals(2) by simp
      moreover have "\<not> secure \<longrightarrow> out1 = out \<and> tunestr ?st1 = tunestr st" using tail by auto
      ultimately show ?thesis using k(3)
        by (intro exI [of _ ?st1] exI [of _ junk1] exI [of _ NUL] conjI) assumption+
    qed
  qed
  then obtain st1 junk1 e where st1: "add_tunable secure (length vp) ?p (length v) st = Inr st1"
      "parse_field secure (tunable_list st, out) f = (tunable_list st1, out1)"
      "tunestr st1 = out1 @ junk1 @ d # R" "off st1 = length out1" "valstring st1 = vp @ f @ e # vs"
      "length out1 + length junk1 = length vp + length f" "set (drop ?p (out1 @ junk1)) \<subseteq> set v"
      "\<not> secure \<longrightarrow> out1 = out \<and> tunestr st1 = tunestr st" by (elim exE conjE) (rule that)
  have pos: "?p + length v = length (out1 @ junk1)" "length vp + length f - length v = ?p"
    using st1(6) nv(1) by simp_all
  have "tunestr st1 ! (?p + length v) = d" "?p + length v < length (tunestr st1)"
    unfolding pos by (simp_all add: st1(3) nth_append)
  then have "parse_loop (Suc fuel) secure (length vp) st =
      parse_loop fuel secure (if d = NUL then ?p else ?p + length v + 1) st1"
    using scan1 at1 scan2 st1(1) by (simp add: Let_def)
  moreover have "?p + length v + 1 = length vp + length f + 1" using nv(1) by simp
  ultimately have F1: "parse_loop (Suc fuel) secure (length vp) st =
      parse_loop fuel secure (if d = NUL then length vp + length f - length v else length vp + length f + 1) st1"
    by (simp only: pos(2))
  have F2: "length v \<le> length f" "set v \<subseteq> set f" by (auto simp: nv(1))
  have F3: "set (drop (length vp + length f - length v) (out1 @ junk1)) \<subseteq> set v"
    using st1(7) by (simp only: pos(2))
  have F4: "1 < length (filter (\<lambda>c. c = CHR ''='') f)" if "CHR ''='' \<in> set v"
    using that by (auto simp: nv(1) filter_empty_conv)
  show thesis by (rule that [OF F1 st1(2-6) F2(1) F3 F4 F2(2) st1(8)])
qed

lemma parse_skip_step:
  assumes "tunestr st = pre @ f @ colon # R" "\<forall>c \<in> set f. c \<noteq> CHR ''='' \<and> c \<noteq> colon \<and> c \<noteq> NUL"
  shows "parse_loop (Suc fuel) secure (length pre) st = parse_loop fuel secure (length pre + length f + 1) st"
proof -
  have "scan_to [CHR ''='', colon, NUL] (tunestr st) (length pre) = Inr (length pre + length f)"
    unfolding assms(1) by (rule scan_to_found) (use assms(2) in auto)
  moreover have "tunestr st ! (length pre + length f) = colon" by (simp add: assms(1) nth_append)
  ultimately show ?thesis by simp
qed

declare parse_loop.simps(2) [simp del]

text \<open>The loop invariant, for the part of the string that is still unread.\<close>

definition parse_inv :: "bool \<Rightarrow> parse_state \<Rightarrow> string \<Rightarrow> string \<Rightarrow> nat \<Rightarrow> bool" where
  "parse_inv secure st out rest p \<longleftrightarrow>
     (\<exists>junk sp vp vs. tunestr st = out @ junk @ rest @ NUL # sp \<and> off st = length out \<and>
        valstring st = vp @ rest @ NUL # vs \<and> length vp = length out + length junk \<and> p = length vp \<and>
        (out = [] \<or> junk \<noteq> [])) \<and>
     nul_free out \<and> nul_free rest \<and> (\<not> secure \<longrightarrow> out = []) \<and> names_ok (tunable_list st)"

definition parse_result :: "bool \<Rightarrow> parse_state \<Rightarrow> tunable list \<times> string \<Rightarrow> parse_state res \<Rightarrow> bool" where
  "parse_result secure st r x \<longleftrightarrow>
     (\<exists>st'. x = Inr st' \<and> tunable_list st' = fst r \<and>
        (if secure then cstr (tunestr st') = snd r else tunestr st' = tunestr st))"

lemma parse_result_cong:
  "tunestr st1 = tunestr st \<or> secure \<Longrightarrow> parse_result secure st1 r x \<Longrightarrow> parse_result secure st r x"
  by (auto simp: parse_result_def)

lemma parse_last_plain:
  assumes "parse_inv secure st out f p" "\<forall>c \<in> set f. c \<noteq> CHR ''='' \<and> c \<noteq> colon"
  shows "parse_result secure st (tunable_list st, out) (parse_loop (Suc fuel) secure p st)"
proof -
  obtain junk sp where buf: "tunestr st = (out @ junk) @ f @ NUL # sp" "off st = length out"
      "p = length (out @ junk)" "nul_free out" "nul_free f"
    using assms(1) by (auto simp: parse_inv_def)
  have "\<exists>st'. parse_loop (Suc fuel) secure (length (out @ junk)) st = Inr st' \<and> tunable_list st' = tunable_list st \<and>
      (if secure then cstr (tunestr st') = out else tunestr st' = tunestr st)"
    using buf(2,4,5) assms(2) by (intro parse_end [OF buf(1)]) (auto simp: buf(1) nul_free_def)
  then show ?thesis unfolding buf(3) parse_result_def fst_conv snd_conv .
qed

lemma parse_next_plain:
  assumes "parse_inv secure st out (f @ colon # rest) p" "\<forall>c \<in> set f. c \<noteq> CHR ''='' \<and> c \<noteq> colon"
  shows "parse_loop (Suc fuel) secure p st = parse_loop fuel secure (p + length f + 1) st"
    "parse_inv secure st out rest (p + length f + 1)"
proof -
  obtain junk sp vp vs where buf: "tunestr st = (out @ junk) @ f @ colon # rest @ NUL # sp"
      "off st = length out" "p = length (out @ junk)" "nul_free f"
      "valstring st = vp @ f @ colon # rest @ NUL # vs" "length vp = length out + length junk"
    using assms(1) by (auto simp: parse_inv_def)
  have "\<forall>c \<in> set f. c \<noteq> CHR ''='' \<and> c \<noteq> colon \<and> c \<noteq> NUL" using assms(2) buf(4) by (auto simp: nul_free_def)
  from parse_skip_step [OF buf(1) this] show "parse_loop (Suc fuel) secure p st = parse_loop fuel secure (p + length f + 1) st"
    unfolding buf(3) .
  have "tunestr st = out @ (junk @ f @ [colon]) @ rest @ NUL # sp" "valstring st = (vp @ f @ [colon]) @ rest @ NUL # vs"
    "length (vp @ f @ [colon]) = length out + length (junk @ f @ [colon])"
    "p + length f + 1 = length (vp @ f @ [colon])"
    using buf(1,3,5,6) by simp_all
  moreover have "out = [] \<or> junk @ f @ [colon] \<noteq> []" by simp
  moreover have "nul_free out" "nul_free rest" "\<not> secure \<longrightarrow> out = []" "names_ok (tunable_list st)"
    using assms(1) by (auto simp: parse_inv_def)
  ultimately show "parse_inv secure st out rest (p + length f + 1)"
    using buf(2) unfolding parse_inv_def by blast
qed

lemma field_delimiter:
  assumes "tail = [] \<or> (\<exists>rest. tail = colon # rest)"
  obtains d R Rv where "tail @ NUL # sp = d # R" "tail @ NUL # vs = d # Rv" "d = colon \<or> d = NUL"
    "d = NUL \<longleftrightarrow> tail = []" "tail = [] \<longrightarrow> R = sp"
    "\<forall>rest. tail = colon # rest \<longrightarrow> R = rest @ NUL # sp \<and> Rv = rest @ NUL # vs"
  using assms
proof (elim disjE exE)
  assume t: "tail = []"
  show thesis by (rule that [of NUL sp vs]) (simp_all add: t)
next
  fix rest
  assume t: "tail = colon # rest"
  show thesis by (rule that [of colon "rest @ NUL # sp" "rest @ NUL # vs"]) (simp_all add: t)
qed

lemma parse_pair:
  assumes inv: "parse_inv secure st out (f @ tail) p" and f: "CHR ''='' \<in> set f" "colon \<notin> set f"
    and tail: "tail = [] \<or> (\<exists>rest. tail = colon # rest)"
  obtains st1 out1 q where
    "parse_loop (Suc fuel) secure p st = parse_loop fuel secure q st1"
    "parse_field secure (tunable_list st, out) f = (tunable_list st1, out1)"
    "tunestr st1 = tunestr st \<or> secure"
    "\<And>rest. tail = colon # rest \<Longrightarrow> parse_inv secure st1 out1 rest q"
    "tail = [] \<Longrightarrow> length (filter (\<lambda>c. c = CHR ''='') f) \<le> 1 \<Longrightarrow>
       parse_result secure st1 (tunable_list st1, out1) (parse_loop (Suc fuel1) secure q st1)"
proof -
  obtain junk sp vp vs where buf: "tunestr st = out @ junk @ f @ tail @ NUL # sp" "off st = length out"
      "valstring st = vp @ f @ tail @ NUL # vs" "length vp = length out + length junk" "p = length vp"
      "out = [] \<or> junk \<noteq> []"
    and nf: "nul_free out" "nul_free f" "nul_free tail" and ns: "\<not> secure \<longrightarrow> out = []"
    and names: "names_ok (tunable_list st)"
    using inv unfolding parse_inv_def append_assoc nul_free_simps by (elim exE conjE) (rule that)
  obtain d R Rv where d: "tail @ NUL # sp = d # R" "tail @ NUL # vs = d # Rv" "d = colon \<or> d = NUL"
      "d = NUL \<longleftrightarrow> tail = []" "tail = [] \<longrightarrow> R = sp" "\<forall>rest. tail = colon # rest \<longrightarrow> R = rest @ NUL # sp \<and> Rv = rest @ NUL # vs"
    by (rule field_delimiter [OF tail]) (rule that)
  obtain st1 out1 junk1 e v where s:
    "parse_loop (Suc fuel) secure (length vp) st =
       parse_loop fuel secure (if d = NUL then length vp + length f - length v else length vp + length f + 1) st1"
    "parse_field secure (tunable_list st, out) f = (tunable_list st1, out1)"
    "tunestr st1 = out1 @ junk1 @ d # R" "off st1 = length out1"
    "valstring st1 = vp @ f @ e # Rv" "length out1 + length junk1 = length vp + length f"
    "length v \<le> length f" "set (drop (length vp + length f - length v) (out1 @ junk1)) \<subseteq> set v"
    "CHR ''='' \<in> set v \<Longrightarrow> 1 < length (filter (\<lambda>c. c = CHR ''='') f)" "set v \<subseteq> set f"
    "\<not> secure \<longrightarrow> out1 = out \<and> tunestr st1 = tunestr st"
    by (rule parse_field_step [OF buf(1) [unfolded d(1)] buf(2) buf(3) [unfolded d(2)] buf(4) buf(6) nf(2) f(2,1) d(3) names])
      (rule that)
  have nf1: "nul_free out1" using nul_free_field [OF nf(1,2), of secure "tunable_list st"] s(2) by simp
  have names1: "names_ok (tunable_list st1)" using names_ok_field [OF names, of secure out f] s(2) by simp
  have ns1: "\<not> secure \<longrightarrow> out1 = []" using ns s(11) by simp
  let ?q = "if d = NUL then length vp + length f - length v else length vp + length f + 1"
  have next': "parse_inv secure st1 out1 rest ?q" if r: "tail = colon # rest" for rest
  proof -
    have dR: "d = colon" "R = rest @ NUL # sp" "Rv = rest @ NUL # vs" using d r by auto
    have "tunestr st1 = out1 @ (junk1 @ [colon]) @ rest @ NUL # sp" "valstring st1 = (vp @ f @ [e]) @ rest @ NUL # vs"
      "length (vp @ f @ [e]) = length out1 + length (junk1 @ [colon])" "?q = length (vp @ f @ [e])"
      using s(3,5,6) dR by simp_all
    moreover have "nul_free rest" using nf(3) r by simp
    moreover have "out1 = [] \<or> junk1 @ [colon] \<noteq> []" by simp
    ultimately show ?thesis using s(4) nf1 ns1 names1 unfolding parse_inv_def by blast
  qed
  have last': "parse_result secure st1 (tunable_list st1, out1) (parse_loop (Suc fuel1) secure ?q st1)"
    if t: "tail = []" and one: "length (filter (\<lambda>c. c = CHR ''='') f) \<le> 1"
  proof -
    have dR: "d = NUL" using d(4) t by simp
    define k where "k = length vp + length f - length v"
    define w where "w = out1 @ junk1"
    have k: "k = length (take k w)" using s(6) by (simp add: k_def w_def)
    have "tunestr st1 = w @ NUL # R" using s(3) dR by (simp add: w_def)
    then have buf1: "tunestr st1 = take k w @ drop k w @ NUL # R" by (metis append_assoc append_take_drop_id)
    have plain: "\<forall>c \<in> set (drop k w). c \<noteq> CHR ''='' \<and> c \<noteq> colon \<and> c \<noteq> NUL"
      using s(8-10) one f(2) nf(2) by (auto simp: nul_free_def k_def [symmetric] w_def [symmetric])
    have qk: "?q = k" using dR by (simp add: k_def)
    have "\<exists>st'. parse_loop (Suc fuel1) secure (length (take k w)) st1 = Inr st' \<and> tunable_list st' = tunable_list st1 \<and>
        (if secure then cstr (tunestr st') = out1 else tunestr st' = tunestr st1)"
      by (rule parse_end [OF buf1 plain _ s(4) _ nf1]) (simp_all add: s(3,4))
    then show ?thesis unfolding qk parse_result_def fst_conv snd_conv k [symmetric] .
  qed
  have step: "parse_loop (Suc fuel) secure p st = parse_loop fuel secure ?q st1" unfolding buf(5) by (rule s(1))
  show thesis by (rule that [OF step s(2) _ next' last']) (use s(11) in auto)
qed

lemma first_colon_field:
  obtains f tail where "rest = f @ tail" "colon \<notin> set f"
    "tail = [] \<and> split_on (\<lambda>c. c = colon) rest = [f] \<or>
      (\<exists>r. tail = colon # r \<and> split_on (\<lambda>c. c = colon) rest = f # split_on (\<lambda>c. c = colon) r)"
proof (cases "colon \<in> set rest")
  case True
  then obtain f r where r: "rest = f @ colon # r" "colon \<notin> set f" by (meson split_list_first)
  have "split_on (\<lambda>c. c = colon) (f @ colon # r) = f # split_on (\<lambda>c. c = colon) r"
    using r(2) by (intro split_on_append) auto
  then show thesis by (intro that [of f "colon # r"]) (simp_all add: r)
next
  case False
  then have "split_on (\<lambda>c. c = colon) rest = [rest]" by (intro split_on_no_sep) auto
  then show thesis by (intro that [of rest "[]"]) (simp_all add: False)
qed

lemma parse_loop_fields:
  assumes "parse_inv secure st out rest p" "length rest + 2 \<le> fuel"
    and "length (filter (\<lambda>c. c = CHR ''='') (last (split_on (\<lambda>c. c = colon) rest))) \<le> 1"
  shows "parse_result secure st (foldl (parse_field secure) (tunable_list st, out) (split_on (\<lambda>c. c = colon) rest))
    (parse_loop fuel secure p st)"
  using assms
proof (induction "length rest" arbitrary: rest st out p fuel rule: less_induct)
  case less
  obtain f tail where tail: "rest = f @ tail" "tail = [] \<and> split_on (\<lambda>c. c = colon) rest = [f] \<or>
      (\<exists>r. tail = colon # r \<and> split_on (\<lambda>c. c = colon) rest = f # split_on (\<lambda>c. c = colon) r)"
    and fc: "colon \<notin> set f" by (rule first_colon_field [of rest])
  define fuel' where "fuel' = fuel - 2"
  have fuel: "fuel = Suc (Suc fuel')" using less.prems(2) by (simp add: fuel'_def)
  show ?case
  proof (cases "CHR ''='' \<in> set f")
    case False
    then have plain: "\<forall>c \<in> set f. c \<noteq> CHR ''='' \<and> c \<noteq> colon" using fc by auto
    have fld: "parse_field secure (tunable_list st, out) f = (tunable_list st, out)"
      using False by (simp add: parse_field_def)
    from tail(2) show ?thesis
    proof (elim disjE exE conjE)
      assume "tail = []" "split_on (\<lambda>c. c = colon) rest = [f]"
      then show ?thesis using parse_last_plain [of secure st out f p] less.prems(1) plain tail(1) fld fuel by simp
    next
      fix r
      assume r: "tail = colon # r" "split_on (\<lambda>c. c = colon) rest = f # split_on (\<lambda>c. c = colon) r"
      note st = parse_next_plain [OF less.prems(1) [unfolded tail(1) r(1)] plain]
      show ?thesis
        using less.hyps [OF _ st(2), of "Suc fuel'"] less.prems(2,3) tail(1) r fld fuel st(1)
        by simp
    qed
  next
    case True
    have tl: "tail = [] \<or> (\<exists>rest. tail = colon # rest)" using tail(2) by blast
    obtain st1 out1 q where s:
      "parse_loop (Suc (Suc fuel')) secure p st = parse_loop (Suc fuel') secure q st1"
      "parse_field secure (tunable_list st, out) f = (tunable_list st1, out1)"
      "tunestr st1 = tunestr st \<or> secure"
      "\<And>rest. tail = colon # rest \<Longrightarrow> parse_inv secure st1 out1 rest q"
      "tail = [] \<Longrightarrow> length (filter (\<lambda>c. c = CHR ''='') f) \<le> 1 \<Longrightarrow>
         parse_result secure st1 (tunable_list st1, out1) (parse_loop (Suc fuel') secure q st1)"
      by (rule parse_pair [OF less.prems(1) [unfolded tail(1)] True fc tl]) (rule that)
    from tail(2) show ?thesis
    proof (elim disjE exE conjE)
      assume "tail = []" "split_on (\<lambda>c. c = colon) rest = [f]"
      then show ?thesis using s(1,2) s(5) less.prems(3) fuel parse_result_cong [OF s(3)] by simp
    next
      fix r
      assume r: "tail = colon # r" "split_on (\<lambda>c. c = colon) rest = f # split_on (\<lambda>c. c = colon) r"
      have "parse_result secure st1 (foldl (parse_field secure) (tunable_list st1, out1) (split_on (\<lambda>c. c = colon) r))
          (parse_loop (Suc fuel') secure q st1)"
        using less.hyps [OF _ s(4) [OF r(1)], of "Suc fuel'"] less.prems(2,3) tail(1) r fuel by simp
      then show ?thesis using s(1,2) r(2) fuel parse_result_cong [OF s(3)] by simp
    qed
  qed
qed

end
