(* ===== verification/TunablesInit.thy ===== *)
theory TunablesInit
  imports TunablesParse
begin

text \<open>
  What the tunables promise, over the whole of elf/dl-tunables.c: bounds that only narrow, nothing
  but safe tunables changed in a secure process, nothing erasable left in its environment, the
  parser as a fold over the fields, and the write behind the buffer of a malformed string.
\<close>
section \<open>Properties\<close>

definition demo_tunables :: "tunable list" where
  "demo_tunables =
     [\<lparr>name = ''glibc.malloc.check'', type_code = TUNABLE_TYPE_INT_32, type_min = 0, type_max = 3, val = Numval 0,
       initialized = False, security_level = SECLEVEL_SXID_ERASE, env_alias = ''MALLOC_CHECK_''\<rparr>,
      \<lparr>name = ''glibc.malloc.perturb'', type_code = TUNABLE_TYPE_INT_32, type_min = 0, type_max = 255,
       val = Numval 0, initialized = False, security_level = SECLEVEL_SXID_IGNORE, env_alias = ''MALLOC_PERTURB_''\<rparr>,
      \<lparr>name = ''glibc.rtld.nns'', type_code = TUNABLE_TYPE_SIZE_T, type_min = 1, type_max = 16, val = Numval 4,
       initialized = False, security_level = SECLEVEL_NONE, env_alias = []\<rparr>]"

lemma demo_tunables_ok: "\<forall>t \<in> set demo_tunables. tunable_ok t" "names_ok demo_tunables" "aliases_ok demo_tunables"
  by (simp_all add: demo_tunables_def tunable_ok_def names_ok_def aliases_ok_def tunable_val_lt_def
      unsigned_tunable_type_def)

lemma malloc_check_ok: "\<forall>t \<in> set ts. tunable_ok t \<Longrightarrow> cid < length ts \<Longrightarrow>
    \<forall>t \<in> set (maybe_enable_malloc_check secure dbg cid ts). tunable_ok t"
  by (auto simp: maybe_enable_malloc_check_def tunable_ok_def dest!: set_update_subset_insert [THEN subsetD])

lemma set_val_ok:
  assumes "\<forall>t \<in> set ts. tunable_ok t" "i < length ts"
  shows "\<forall>t \<in> set (tunable_set_val ts i valp minp maxp). tunable_ok t"
  using assms update_ok(1) [of "ts ! i"]
  by (auto simp: tunable_set_val_def dest!: set_update_subset_insert [THEN subsetD])

lemma set_val_narrows:
  assumes "\<forall>t \<in> set ts. tunable_ok t" "i < length ts"
  shows "\<forall>j < length ts. narrows (ts ! j) (tunable_set_val ts i valp minp maxp ! j)"
proof (intro allI impI)
  fix j
  assume "j < length ts"
  then show "narrows (ts ! j) (tunable_set_val ts i valp minp maxp ! j)"
    using assms update_ok(2) [of "ts ! i"] by (cases "j = i") (simp_all add: tunable_set_val_def)
qed

lemma set_val_number:
  assumes "\<forall>t \<in> set ts. tunable_ok t" "i < length ts"
  shows "type_code (ts ! i) \<noteq> TUNABLE_TYPE_STRING \<longrightarrow>
    tunable_set_val ts i (Numval n) None None =
      (if tunable_val_lt n (type_min (ts ! i)) (ucmp (ts ! i)) \<or> tunable_val_lt (type_max (ts ! i)) n (ucmp (ts ! i))
       then ts else ts[i := (ts ! i)\<lparr>val := Numval n, initialized := True\<rparr>])"
proof
  assume t: "type_code (ts ! i) \<noteq> TUNABLE_TYPE_STRING"
  have "tunable_ok (ts ! i)" using assms by simp
  then have "\<not> tunable_val_lt (type_max (ts ! i)) (type_min (ts ! i)) (ucmp (ts ! i))"
    using t by (simp add: tunable_ok_def)
  then show "tunable_set_val ts i (Numval n) None None =
      (if tunable_val_lt n (type_min (ts ! i)) (ucmp (ts ! i)) \<or> tunable_val_lt (type_max (ts ! i)) n (ucmp (ts ! i))
       then ts else ts[i := (ts ! i)\<lparr>val := Numval n, initialized := True\<rparr>])"
    using t by (simp add: tunable_set_val_def do_tunable_update_val_def val_order)
qed

text \<open>\<open>__tunable_set_val\<close> keeps every tunable well-formed (ordered bounds, a value that is set lies between
  them), only ever narrows the bounds of a tunable, and stores a value without new bounds exactly when
  it lies within those in force.\<close>

theorem tunable_set_val_bounds:
  assumes "\<forall>t \<in> set ts. tunable_ok t" "i < length ts"
  shows "(\<forall>t \<in> set (tunable_set_val ts i valp minp maxp). tunable_ok t) \<and>
    (\<forall>j < length ts. narrows (ts ! j) (tunable_set_val ts i valp minp maxp ! j)) \<and>
    (type_code (ts ! i) \<noteq> TUNABLE_TYPE_STRING \<longrightarrow>
      tunable_set_val ts i (Numval n) None None =
        (if tunable_val_lt n (type_min (ts ! i)) (ucmp (ts ! i)) \<or> tunable_val_lt (type_max (ts ! i)) n (ucmp (ts ! i))
         then ts else ts[i := (ts ! i)\<lparr>val := Numval n, initialized := True\<rparr>]))"
  using set_val_ok [OF assms] set_val_narrows [OF assms] set_val_number [OF assms] by blast

theorem tunable_set_val_bounds_witness:
  "list_all tunable_ok (tunable_set_val demo_tunables 2 (Numval 9) (Some 0) (Some 12)) \<and>
   val (tunable_set_val demo_tunables 2 (Numval 9) None None ! 2) = Numval 9 \<and>
   tunable_set_val demo_tunables 2 (Numval 17) None None = demo_tunables"
proof -
  have l: "2 < length demo_tunables" by (simp add: demo_tunables_def)
  have t: "type_code (demo_tunables ! 2) \<noteq> TUNABLE_TYPE_STRING" by (simp add: demo_tunables_def)
  show ?thesis
    using tunable_set_val_bounds [OF demo_tunables_ok(1) l, of "Numval 9" "Some 0" "Some 12" 9]
      tunable_set_val_bounds [OF demo_tunables_ok(1) l, of "Numval 9" "Some 0" "Some 12" 17] t
    unfolding list_all_iff by (simp add: demo_tunables_def tunable_val_lt_def unsigned_tunable_type_def)
qed
lemma malloc_check_evolves:
  assumes "tunables_init secure dbg cid mem_ok spare ts env = Inr (env', ts')"
  shows "all_evolve secure (maybe_enable_malloc_check secure dbg cid ts) ts'"
  using assms unfolding tunables_init_def by (rule tunables_loop_evolves)

lemma malloc_check_other:
  "j \<noteq> cid \<or> \<not> secure \<or> \<not> dbg \<Longrightarrow> maybe_enable_malloc_check secure dbg cid ts ! j = ts ! j"
  "length (maybe_enable_malloc_check secure dbg cid ts) = length ts"
  by (auto simp: maybe_enable_malloc_check_def)

text \<open>C31: whatever the environment holds, when \<open>__tunables_init\<close> returns it leaves every tunable with ordered bounds and a
  value that is either the built-in one or lies between them.\<close>

theorem tunables_init_bounds:
  assumes "tunables_init secure dbg cid mem_ok spare ts env = Inr (env', ts')"
    and "\<forall>t \<in> set ts. tunable_ok t" "cid < length ts"
  shows "length ts' = length ts \<and> (\<forall>t \<in> set ts'. tunable_ok t)"
proof -
  let ?ts = "maybe_enable_malloc_check secure dbg cid ts"
  have ev: "all_evolve secure ?ts ts'" by (rule malloc_check_evolves [OF assms(1)])
  have "tunable_ok (ts' ! i)" if "i < length ts'" for i
    using ev that malloc_check_ok [OF assms(2,3), of secure dbg]
    by (auto simp: list_all2_conv_all_nth evolves_def)
  then show ?thesis using list_all2_lengthD [OF ev] malloc_check_other(2) by (auto simp: in_set_conv_nth)
qed

text \<open>C30: when \<open>__tunables_init\<close> has returned in a secure process, and there is no /etc/suid-debug, the environment has no
  line that sets the alias of a tunable of \<open>SECLEVEL_SXID_ERASE\<close>, wherever and however often it occurred.\<close>

theorem tunables_init_erases:
  assumes "tunables_init True False cid mem_ok spare ts env = Inr (env', ts')" "aliases_ok ts"
  shows "\<forall>e \<in> set env'. \<forall>t \<in> set ts. security_level t = SECLEVEL_SXID_ERASE \<longrightarrow>
    env_alias t \<noteq> [] \<longrightarrow> \<not> tunable_is_name (env_alias t) e"
proof -
  have "tunables_loop True mem_ok spare ts [] env = Inr (env', ts')"
    using assms(1) by (simp add: tunables_init_def maybe_enable_malloc_check_def)
  from tunables_loop_erases [OF this _ assms(2)] show ?thesis by (auto simp: erasable_def)
qed

definition demo_environ :: "string list" where
  "demo_environ = [''MALLOC_CHECK_=3'', ''HOME=/root'', ''MALLOC_PERTURB_=7'', ''MALLOC_CHECK_=1'',
     ''GLIBC_TUNABLES=glibc.rtld.nns=8:glibc.malloc.check=2:glibc.malloc.perturb=5'']"

definition demo_environ_after :: "string list" where
  "demo_environ_after = [''HOME=/root'', ''MALLOC_PERTURB_=7'',
     ''GLIBC_TUNABLES=glibc.rtld.nns=8:glibc.malloc.perturb=5'']"

definition demo_tunables_after :: "tunable list" where
  "demo_tunables_after = demo_tunables[2 := (demo_tunables ! 2)\<lparr>val := Numval 8, initialized := True\<rparr>]"

lemma demo_init:
  "tunables_init True False 0 (\<lambda>_. True) NUL demo_tunables demo_environ = Inr (demo_environ_after, demo_tunables_after)"
  by code_simp

theorem tunables_init_bounds_witness:
  "length demo_tunables_after = length demo_tunables \<and> list_all tunable_ok demo_tunables_after"
  using tunables_init_bounds [OF demo_init demo_tunables_ok(1)] by (simp add: list_all_iff demo_tunables_def)

theorem tunables_init_erases_witness:
  "list_all (\<lambda>e. \<not> tunable_is_name ''MALLOC_CHECK_'' e) demo_environ_after"
proof -
  have "demo_tunables ! 0 \<in> set demo_tunables" "security_level (demo_tunables ! 0) = SECLEVEL_SXID_ERASE"
    "env_alias (demo_tunables ! 0) = ''MALLOC_CHECK_''" by (simp_all add: demo_tunables_def)
  with tunables_init_erases [OF demo_init demo_tunables_ok(3)] show ?thesis by (metis list.distinct(1) list_all_iff)
qed

lemma fold_no_output:
  "\<not> secure \<Longrightarrow> snd (foldl (parse_field secure) (ts, []) fs) = []"
proof (induction fs arbitrary: ts)
  case (Cons f fs)
  have "snd (parse_field secure (ts, []) f) = []"
    using Cons.prems by (simp add: parse_field_def Let_def split: option.splits)
  with Cons show ?case by (metis foldl_Cons prod.collapse)
qed simp

text \<open>The state \<open>tunables_envline\<close> starts the parser in.\<close>

definition parse_start :: "char \<Rightarrow> tunable list \<Rightarrow> string \<Rightarrow> parse_state" where
  "parse_start spare ts s = \<lparr>tunestr = s @ [NUL, spare], valstring = s @ [NUL], off = 0, tunable_list = ts\<rparr>"

definition one_equals :: "string \<Rightarrow> bool" where
  "one_equals s \<longleftrightarrow> length (filter (\<lambda>c. c = CHR ''='') (last (split_on (\<lambda>c. c = colon) s))) \<le> 1"

lemma parse_tunables_run:
  assumes "names_ok ts" "nul_free s" "s \<noteq> []" "one_equals s"
  shows "parse_result secure (parse_start spare ts s) (foldl (parse_field secure) (ts, []) (split_on (\<lambda>c. c = colon) s))
    (parse_tunables secure (parse_start spare ts s))"
proof -
  let ?st = "parse_start spare ts s"
  have inv: "parse_inv secure ?st [] s 0"
    using assms(1,2) by (simp add: parse_inv_def parse_start_def)
  have "cget (tunestr ?st) 0 \<noteq> NUL" using assms(2,3) by (cases s) (simp_all add: parse_start_def)
  then have run: "parse_tunables secure ?st = parse_loop (Suc (length (tunestr ?st))) secure 0 ?st"
    by (simp add: parse_tunables_def parse_start_def)
  show ?thesis
    using parse_loop_fields [OF inv _ assms(4) [unfolded one_equals_def], of "Suc (length (tunestr ?st))"] run
    by (simp add: parse_start_def)
qed

text \<open>C28: for every string whose last field has at most one equals sign, the in-place parser of \<open>GLIBC_TUNABLES\<close> ends
  without a fault, sets the tunables as a fold over the colon-separated fields does, and leaves in the buffer of a secure
  process exactly the fields that may be inherited.\<close>

theorem parse_tunables_fields:
  assumes "names_ok ts" "nul_free s" "s \<noteq> []"
    and "length (filter (\<lambda>c. c = CHR ''='') (last (split_on (\<lambda>c. c = colon) s))) \<le> 1"
  shows "\<exists>st'. parse_tunables secure (parse_start spare ts s) = Inr st' \<and>
    (tunable_list st', if secure then cstr (tunestr st') else []) =
      foldl (parse_field secure) (ts, []) (split_on (\<lambda>c. c = colon) s) \<and>
    (\<not> secure \<longrightarrow> tunestr st' = s @ [NUL, spare])"
proof -
  let ?st = "parse_start spare ts s" and ?r = "foldl (parse_field secure) (ts, []) (split_on (\<lambda>c. c = colon) s)"
  obtain st' where st': "parse_tunables secure ?st = Inr st'" "tunable_list st' = fst ?r"
      "if secure then cstr (tunestr st') = snd ?r else tunestr st' = tunestr ?st"
    using parse_tunables_run [OF assms(1-3), of secure spare] assms(4) unfolding parse_result_def one_equals_def by blast
  have "snd ?r = []" if "\<not> secure" using that by (rule fold_no_output)
  with st' show ?thesis by (cases secure) (auto simp: prod_eq_iff parse_start_def)
qed

theorem parse_tunables_fields_witness:
  "\<exists>st'. parse_tunables True (parse_start NUL demo_tunables ''glibc.rtld.nns=8:x:glibc.malloc.check=2'') = Inr st' \<and>
     cstr (tunestr st') = ''glibc.rtld.nns=8''"
proof -
  let ?s = "''glibc.rtld.nns=8:x:glibc.malloc.check=2''"
  have s: "split_on (\<lambda>c. c = colon) ?s = [''glibc.rtld.nns=8'', ''x'', ''glibc.malloc.check=2'']" by code_simp
  have p1: "parse_field True (demo_tunables, []) ''glibc.rtld.nns=8'' = (demo_tunables_after, ''glibc.rtld.nns=8'')"
    by code_simp
  have p2: "parse_field True (demo_tunables_after, o1) ''x'' = (demo_tunables_after, o1)" for o1
    by (simp add: parse_field_def)
  have p3: "parse_field True (demo_tunables_after, ''glibc.rtld.nns=8'') ''glibc.malloc.check=2'' =
      (demo_tunables_after, ''glibc.rtld.nns=8'')" by code_simp
  have f: "foldl (parse_field True) (demo_tunables, []) (split_on (\<lambda>c. c = colon) ?s) =
      (demo_tunables_after, ''glibc.rtld.nns=8'')" unfolding s foldl.simps p1 p2 p3 ..
  have l: "length (filter (\<lambda>c. c = CHR ''='') (last (split_on (\<lambda>c. c = colon) ?s))) \<le> 1"
    unfolding s by simp
  have n: "nul_free ?s" "?s \<noteq> []" by (simp_all add: nul_free_def)
  from parse_tunables_fields [OF demo_tunables_ok(2) n l, of True NUL, unfolded f if_True prod.inject]
  show ?thesis by (elim exE conjE) (intro exI conjI)
qed


section \<open>Ends of the initialization\<close>

text \<open>The parser gets ahead in every round, so its fuel is enough; it can only fail by leaving its buffers.\<close>

lemma scan_to_bound: "scan_to stops b i = Inr q \<Longrightarrow> i \<le> q \<and> q < length b"
proof -
  assume "scan_to stops b i = Inr q"
  then obtain c r where r: "dropWhile (\<lambda>c. c \<notin> set stops) (drop i b) = c # r" "q = length b - length (c # r)"
    by (auto simp: scan_to_def split: list.splits)
  moreover have "length (c # r) \<le> length b - i"
    using length_dropWhile_le [of "\<lambda>c. c \<notin> set stops" "drop i b"] unfolding r(1) by simp
  ultimately show ?thesis by auto
qed

lemma scan_to_fault: "scan_to stops b i = Inl f \<Longrightarrow> f = Oob_read"
  by (auto simp: scan_to_def split: list.splits)

lemma keep_tunable_ends:
  "case keep_tunable secure cur p len st of
     Inl f \<Rightarrow> f \<in> {Oob_read, Oob_write} | Inr st' \<Rightarrow> length (tunestr st') = length (tunestr st)"
  by (auto simp: keep_tunable_def Let_def put_chars_def)

lemma set_tunable_ends:
  "case set_tunable secure i p len st of
     Inl f \<Rightarrow> f \<in> {Oob_read, Oob_write} | Inr st' \<Rightarrow> length (tunestr st') = length (tunestr st)"
  by (auto simp: set_tunable_def Let_def put_chars_def)

lemma add_tunable_ends:
  "case add_tunable secure nm p len st of
     Inl f \<Rightarrow> f \<in> {Oob_read, Oob_write} | Inr st' \<Rightarrow> length (tunestr st') = length (tunestr st)"
proof (cases "find_tunable (tunable_list st) (drop nm (tunestr st))")
  case (Some i)
  note kept = keep_tunable_ends [where secure = secure and cur = "tunable_list st ! i" and p = p and len = len and st = st]
  show ?thesis
  proof (cases "keep_tunable secure (tunable_list st ! i) p len st")
    case (Inl f)
    then show ?thesis using Some kept by (simp add: add_tunable_def)
  next
    case (Inr st1)
    then show ?thesis
      using Some kept set_tunable_ends [where secure = secure and i = i and p = p and len = len and st = st1]
      by (cases "set_tunable secure i p len st1") (simp_all add: add_tunable_def)
  qed
qed (simp add: add_tunable_def)

lemma parse_loop_faults:
  "p \<le> length (tunestr st) \<Longrightarrow> length (tunestr st) < p + fuel \<Longrightarrow> parse_loop fuel secure p st = Inl f \<Longrightarrow>
   f \<in> {Oob_read, Oob_write}"
proof (induction fuel arbitrary: p st)
  case (Suc fuel)
  show ?case
  proof (cases "scan_to [CHR ''='', colon, NUL] (tunestr st) p")
    case (Inl e)
    then show ?thesis using Suc.prems(3) scan_to_fault [OF Inl] by (simp add: parse_loop.simps(2))
  next
    case (Inr q)
    note q = scan_to_bound [OF Inr]
    consider "tunestr st ! q = NUL" | "tunestr st ! q = colon" | "tunestr st ! q \<noteq> NUL" "tunestr st ! q \<noteq> colon" by blast
    then show ?thesis
    proof cases
      case 1
      then show ?thesis using Suc.prems(3) Inr by (auto simp: parse_loop.simps(2) put_chars_def split: if_splits)
    next
      case 2
      then show ?thesis using Suc.prems Suc.IH [of "Suc q" st] Inr q by (simp add: parse_loop.simps(2))
    next
      case 3
      show ?thesis
      proof (cases "scan_to [colon, NUL] (tunestr st) (Suc q)")
        case (Inl e)
        then show ?thesis using Suc.prems(3) scan_to_fault [OF Inl] Inr 3 by (simp add: parse_loop.simps(2) Let_def)
      next
        case e: (Inr e)
        note be = scan_to_bound [OF e]
        show ?thesis
        proof (cases "add_tunable secure p (Suc q) (e - Suc q) st")
          case (Inl x)
          then show ?thesis
            using Suc.prems(3) Inr 3 e add_tunable_ends [where secure = secure and nm = p and p = "Suc q" and len = "e - Suc q" and st = st] by (simp add: parse_loop.simps(2) Let_def)
        next
          case st1: (Inr st1)
          have len: "length (tunestr st1) = length (tunestr st)"
            using add_tunable_ends [where secure = secure and nm = p and p = "Suc q" and len = "e - Suc q" and st = st] st1 by simp
          have "parse_loop fuel secure (if tunestr st1 ! e \<noteq> NUL then Suc e else Suc q) st1 = Inl f"
            using Suc.prems(3) Inr 3 e st1 be len by (simp add: parse_loop.simps(2) Let_def split: if_splits)
          then show ?thesis
            using Suc.IH [of "Suc e" st1] Suc.IH [of "Suc q" st1] len be q Suc.prems(2) by (simp split: if_splits)
        qed
      qed
    qed
  qed
qed simp

lemma parse_tunables_faults: "parse_tunables secure st = Inl f \<Longrightarrow> f \<in> {Oob_read, Oob_write}"
  using parse_loop_faults [of 0 "st\<lparr>off := 0\<rparr>" "Suc (length (tunestr st))" secure f]
  by (auto simp: parse_tunables_def split: if_splits)

lemma envline_start:
  assumes "tunable_is_name ''GLIBC_TUNABLES'' line"
  shows "tunables_envline secure ok spare line ts =
    (if ok then rbind (parse_tunables secure (parse_start spare ts (env_val line)))
       (\<lambda>st. Inr (cstr (''GLIBC_TUNABLES='' @ tunestr st), tunable_list st)) else Inl Fatal)"
proof -
  obtain v where v: "line = ''GLIBC_TUNABLES'' @ CHR ''='' # v" using assms by (auto simp: tunable_is_name_iff)
  then have "length (takeWhile (\<lambda>c. c \<noteq> CHR ''='') line) = 14" "env_val line = v" by (simp_all add: env_val_def)
  then show ?thesis using v by (simp add: tunables_envline_def tunables_strdup_def parse_start_def)
qed

lemma envline_ends:
  assumes "tunable_is_name ''GLIBC_TUNABLES'' line" "nul_free line" "names_ok ts"
    and "tunables_envline secure ok spare line ts = Inl f"
  shows "f = Fatal \<and> \<not> ok \<or> f \<in> {Oob_read, Oob_write} \<and> \<not> one_equals (env_val line)"
proof (cases ok)
  case True
  let ?v = "env_val line"
  have fault: "parse_tunables secure (parse_start spare ts ?v) = Inl f"
    using assms(4) True unfolding envline_start [OF assms(1)]
    by (cases "parse_tunables secure (parse_start spare ts ?v)") simp_all
  have "nul_free ?v" using assms(1,2) by (auto simp: tunable_is_name_iff env_val_def)
  moreover have "?v \<noteq> []" using fault by (auto simp: parse_tunables_def parse_start_def)
  ultimately have "\<not> one_equals ?v"
    using parse_tunables_run [OF assms(3), of ?v secure spare] fault by (auto simp: parse_result_def)
  then show ?thesis using parse_tunables_faults [OF fault] by simp
qed (use assms(4) envline_start [OF assms(1)] in simp)

lemma names_ok_evolves: "all_evolve secure ts ts' \<Longrightarrow> names_ok ts \<Longrightarrow> names_ok ts'"
  unfolding names_ok_def by (metis evolves_def in_set_conv_nth list_all2_conv_all_nth)

lemma alias_loop_subset: "set (fst (snd (alias_loop secure n v ts rest erased))) \<subseteq> set rest"
proof (induction ts arbitrary: rest erased)
  case (Cons cur ts)
  have "set (fst (snd (alias_loop secure n v ts (filter P rest) e))) \<subseteq> set rest" for P e
    using Cons.IH [of "filter P rest" e] by auto
  with Cons.IH show ?case by (cases secure) (simp_all add: case_prod_beta)
qed simp

lemma tunables_loop_ends:
  "tunables_loop secure mem_ok spare ts kept env = Inl f \<Longrightarrow> names_ok ts \<Longrightarrow> list_all nul_free env \<Longrightarrow>
   f = Fatal \<and> (\<exists>i. \<not> mem_ok i) \<or> f \<in> {Oob_read, Oob_write} \<and>
     (\<exists>line \<in> set env. tunable_is_name ''GLIBC_TUNABLES'' line \<and> \<not> one_equals (env_val line))"
proof (induction secure mem_ok spare ts kept env rule: tunables_loop.induct)
  case (1 secure mem_ok spare ts kept env)
  show ?case
  proof (cases "get_next_env env")
    case None
    with 1(4) show ?thesis by (simp add: tunables_loop.simps)
  next
    case (Some x)
    then obtain skipped line envp where x: "get_next_env env = Some (skipped, line, envp)" by (cases x) auto
    then have env: "env = skipped @ line # envp" using get_next_env_length by blast
    then have nf: "nul_free line" "list_all nul_free envp" using 1(6) by auto
    show ?thesis
    proof (cases "tunable_is_name ''GLIBC_TUNABLES'' line")
      case True
      show ?thesis
      proof (cases "tunables_envline secure (mem_ok (length kept + length skipped)) spare line ts")
        case (Inl e)
        then have "e = f" using 1(4) x True by (simp add: tunables_loop.simps [of secure mem_ok spare ts kept env])
        then show ?thesis using envline_ends [OF True nf(1) 1(5)] Inl env True by fastforce
      next
        case (Inr r)
        then obtain line' ts1 where l: "tunables_envline secure (mem_ok (length kept + length skipped)) spare line ts = Inr (line', ts1)"
          by (cases r) auto
        then have r: "tunables_loop secure mem_ok spare ts1 (kept @ skipped @ [line']) envp = Inl f"
          using 1(4) x True by (simp add: tunables_loop.simps [of secure mem_ok spare ts kept env])
        have "names_ok ts1" using names_ok_evolves envline_evolves [OF l] 1(5) by blast
        from 1(1) [OF x refl refl True l refl r this nf(2)] show ?thesis using env by auto
      qed
    next
      case False
      obtain ts1 rest erased where
        a: "alias_loop secure line (env_val line) ts (line # envp) False = (ts1, rest, erased)"
        using prod_cases3 by blast
      have names: "names_ok ts1" using names_ok_evolves alias_loop_evolves [of secure ts line] a 1(5) by (metis fst_conv)
      have sub: "set rest \<subseteq> set (line # envp)" using alias_loop_subset [of secure line "env_val line" ts "line # envp" False] a by simp
      show ?thesis
      proof (cases erased)
        case True
        with 1(4) x False a have r: "tunables_loop secure mem_ok spare ts1 (kept @ skipped) rest = Inl f"
          by (simp add: tunables_loop.simps [of secure mem_ok spare ts kept env])
        have "list_all nul_free rest" using sub nf by (auto simp: list_all_iff)
        from 1(2) [OF x refl refl False a [symmetric] refl True r names this] show ?thesis using env sub by auto
      next
        case nerased: False
        with 1(4) x False a
        have r: "tunables_loop secure mem_ok spare ts1 (kept @ skipped @ [line]) envp = Inl f"
          by (simp add: tunables_loop.simps [of secure mem_ok spare ts kept env])
        from 1(3) [OF x refl refl False a [symmetric] refl nerased r names nf(2)] show ?thesis using env by auto
      qed
    qed
  qed
qed

text \<open>C29: in a secure process (set-user-ID), when \<open>__tunables_init\<close> returns, every tunable that is not of \<open>SECLEVEL_NONE\<close> is
  exactly as the table has it; only \<open>glibc.malloc.check\<close> is an exception, and only if /etc/suid-debug exists.  It does not
  return only if an allocation fails, which ends the process, or if a last field of some \<open>GLIBC_TUNABLES\<close> has more than one
  equals sign, where it may leave its buffers.\<close>

theorem tunables_init_secure:
  assumes "names_ok ts" "list_all nul_free env"
    and "j < length ts" "security_level (ts ! j) \<noteq> SECLEVEL_NONE" "j \<noteq> cid \<or> \<not> dbg"
  shows "case tunables_init True dbg cid mem_ok spare ts env of
      Inr (env', ts') \<Rightarrow> ts' ! j = ts ! j
    | Inl f \<Rightarrow> f = Fatal \<and> (\<exists>i. \<not> mem_ok i) \<or> f \<in> {Oob_read, Oob_write} \<and>
        (\<exists>line \<in> set env. tunable_is_name ''GLIBC_TUNABLES'' line \<and> \<not> one_equals (env_val line))"
proof (cases "tunables_init True dbg cid mem_ok spare ts env")
  case (Inl f)
  have "names_ok (maybe_enable_malloc_check True dbg cid ts)"
  proof (cases "cid < length ts")
    case True
    then show ?thesis using assms(1)
      by (auto simp: maybe_enable_malloc_check_def names_ok_def dest!: set_update_subset_insert [THEN subsetD])
  qed (use assms(1) in \<open>simp add: maybe_enable_malloc_check_def list_update_beyond\<close>)
  then show ?thesis using tunables_loop_ends [OF Inl [unfolded tunables_init_def] _ assms(2)] Inl by simp
next
  case (Inr r)
  obtain env' ts' where r: "r = (env', ts')" by (cases r)
  have "evolves True (maybe_enable_malloc_check True dbg cid ts ! j) (ts' ! j)"
    using malloc_check_evolves [OF Inr [unfolded r]] assms(3) malloc_check_other(2)
    by (metis list_all2_conv_all_nth)
  then show ?thesis using Inr r malloc_check_other(1) [of j cid True dbg ts] assms(4,5) by (simp add: evolves_def)
qed

theorem tunables_init_secure_witness:
  "\<exists>env' ts'. tunables_init True False 0 (\<lambda>_. True) NUL demo_tunables demo_environ = Inr (env', ts') \<and> ts' ! 1 = demo_tunables ! 1"
proof -
  have "list_all nul_free demo_environ" by code_simp
  with tunables_init_secure [OF demo_tunables_ok(2) this, of 1 0 False "\<lambda>_. True" NUL] demo_init
  show ?thesis by (auto simp: demo_tunables_def)
qed

lemma set_tunable_form:
  assumes "set_tunable secure i p len st = Inr st'"
  shows "st' = st \<or> (\<exists>v x. length v = length (valstring st) \<and>
    st' = st\<lparr>valstring := v, tunable_list := (tunable_list st)[i := tunable_initialize (tunable_list st ! i) x]\<rparr>)"
proof (cases "secure \<and> security_level (tunable_list st ! i) \<noteq> SECLEVEL_NONE")
  case True
  with assms show ?thesis by (simp add: set_tunable_def Let_def)
next
  case False
  have "set_tunable secure i p len st = rbind (put_chars [NUL] (p + len) (valstring st))
      (\<lambda>v. Inr (st\<lparr>valstring := v, tunable_list := (tunable_list st)[i := tunable_initialize (tunable_list st ! i) (cstr (drop p v))]\<rparr>))"
    unfolding set_tunable_def Let_def if_not_P [OF False] ..
  with assms obtain v where "put_chars [NUL] (p + len) (valstring st) = Inr v"
    "st' = st\<lparr>valstring := v, tunable_list := (tunable_list st)[i := tunable_initialize (tunable_list st ! i) (cstr (drop p v))]\<rparr>"
    by (cases "put_chars [NUL] (p + len) (valstring st)") simp_all
  then show ?thesis using put_chars_length by (intro disjI2 exI conjI) assumption+
qed

lemma index_of_update: "index_of (ts[i := tunable_initialize (ts ! i) x]) n = index_of ts n"
proof (cases "i < length ts")
  case True
  have "name (ts[i := tunable_initialize (ts ! i) x] ! j) = name (ts ! j)" if "j < length ts" for j
    using True that by (cases "j = i") (simp_all add: tunable_initialize_def update_identity)
  then show ?thesis unfolding index_of_def by (intro find_cong) simp_all
qed (simp add: list_update_beyond)

lemma set_tunable_frame:
  assumes "set_tunable secure i p len st = Inr st'" "i < length (tunable_list st)"
  shows "tunestr st' = tunestr st \<and> off st' = off st \<and> length (valstring st') = length (valstring st) \<and>
    (names_ok (tunable_list st) \<longrightarrow> names_ok (tunable_list st')) \<and>
    name (tunable_list st' ! i) = name (tunable_list st ! i) \<and>
    security_level (tunable_list st' ! i) = security_level (tunable_list st ! i) \<and>
    index_of (tunable_list st') n = index_of (tunable_list st) n"
  using set_tunable_form [OF assms(1)]
proof (elim disjE exE conjE)
  fix v x
  assume "length v = length (valstring st)"
    "st' = st\<lparr>valstring := v, tunable_list := (tunable_list st)[i := tunable_initialize (tunable_list st ! i) x]\<rparr>"
  then show ?thesis using assms(2)
    by (simp add: index_of_update names_ok_update) (simp add: tunable_initialize_def update_identity)
qed simp

lemma set_tunable_defined:
  "p + len < length (valstring st) \<Longrightarrow> \<exists>st'. set_tunable secure i p len st = Inr st'"
  by (simp add: set_tunable_def Let_def put_chars_def)
lemma index_of_Some: "index_of ts n = Some i \<Longrightarrow> i < length ts \<and> name (ts ! i) = n"
  by (auto simp: index_of_def find_Some_iff)

text \<open>A last field \<open>n=n=v\<close>: after the first round the output is the whole field, and the second round has no room.\<close>

lemma parse_again_overflows:
  assumes buf: "tunestr st = (n @ ''='') @ (n @ CHR ''='' # v) @ [NUL, spare]"
    and off: "off st = length n + length n + length v + 2" "length (valstring st) = Suc (off st)"
    and i: "index_of (tunable_list st) n = Some i" "names_ok (tunable_list st)"
      "security_level (tunable_list st ! i) \<noteq> SECLEVEL_SXID_ERASE"
    and n: "nul_free n" "nul_free v" "CHR ''='' \<notin> set n" "colon \<notin> set n" "colon \<notin> set v" "n \<noteq> []"
  shows "parse_loop (Suc fuel) True (Suc (length n)) st = Inl Oob_write"
proof -
  have l: "length (n @ ''='') = Suc (length n)" by simp
  have scan1: "scan_to [CHR ''='', colon, NUL] (tunestr st) (Suc (length n)) = Inr (Suc (length n) + length n)"
    using scan_to_found [of n "[CHR ''='', colon, NUL]" "CHR ''=''" "n @ ''=''" "v @ [NUL, spare]"] n
    unfolding buf l by (auto simp: nul_free_def)
  have at: "tunestr st ! (Suc (length n) + length n) = CHR ''=''" by (simp add: buf nth_append)
  have scan2: "scan_to [colon, NUL] (tunestr st) (Suc (Suc (length n) + length n)) = Inr (off st)"
    using scan_to_found [of v "[colon, NUL]" NUL "(n @ ''='') @ n @ ''=''" "[spare]"] n
    by (auto simp: nul_free_def buf off)
  have find: "find_tunable (tunable_list st) (drop (Suc (length n)) (tunestr st)) = Some i"
    using find_tunable_index [OF i(2) n(3), of "v @ [NUL, spare]"] i(1) by (simp add: buf)
  have "put_chars ((if 0 < off st then '':'' else []) @ name (tunable_list st ! i) @ ''='' @ w) (off st) (tunestr st) = Inl Oob_write" for w
    using n(6) index_of_Some [OF i(1)] by (cases n) (simp_all add: put_chars_def off buf)
  then have "keep_tunable True (tunable_list st ! i) (Suc (Suc (length n) + length n)) (length v) st = Inl Oob_write"
    using i(3) off by (simp add: keep_tunable_def Let_def)
  moreover have "off st - Suc (Suc (length n) + length n) = length v" using off by simp
  ultimately have "add_tunable True (Suc (length n)) (Suc (Suc (length n) + length n)) (off st - Suc (Suc (length n) + length n)) st = Inl Oob_write"
    using find by (simp add: add_tunable_def)
  then show ?thesis using scan1 at scan2 by (simp add: parse_loop.simps(2) Let_def)
qed
lemma parse_first_round:
  assumes st: "tunestr st = (n @ CHR ''='' # w) @ [NUL, spare]" "off st = 0" "valstring st = (n @ CHR ''='' # w) @ [NUL]"
    and i: "index_of (tunable_list st) n = Some i" "names_ok (tunable_list st)"
      "security_level (tunable_list st ! i) \<noteq> SECLEVEL_SXID_ERASE"
    and n: "nul_free n" "nul_free w" "CHR ''='' \<notin> set n" "colon \<notin> set n" "colon \<notin> set w"
  obtains st' where "parse_loop (Suc fuel) True 0 st = parse_loop fuel True (Suc (length n)) st'"
    "tunestr st' = tunestr st" "off st' = length n + length w + 1" "length (valstring st') = length (valstring st)"
    "index_of (tunable_list st') n = Some i" "names_ok (tunable_list st')"
    "security_level (tunable_list st' ! i) \<noteq> SECLEVEL_SXID_ERASE"
proof -
  define e where "e = length n + length w + 1"
  have scan1: "scan_to [CHR ''='', colon, NUL] (tunestr st) 0 = Inr (length n)"
    using scan_to_found [of n "[CHR ''='', colon, NUL]" "CHR ''=''" "[]" "w @ [NUL, spare]"] n
    by (auto simp: nul_free_def st(1))
  have at: "tunestr st ! length n = CHR ''=''" by (simp add: st(1) nth_append)
  have scan2: "scan_to [colon, NUL] (tunestr st) (Suc (length n)) = Inr e"
    using scan_to_found [of w "[colon, NUL]" NUL "n @ ''=''" "[spare]"] n
    by (auto simp: nul_free_def st(1) e_def)
  have find: "find_tunable (tunable_list st) (drop 0 (tunestr st)) = Some i"
    using find_tunable_index [OF i(2) n(3), of "w @ [NUL, spare]"] i(1) by (simp add: st(1))
  define st1 where "st1 = st\<lparr>off := e\<rparr>"
  have "take (length w) (drop (Suc (length n)) (valstring st)) = w" by (simp add: st(3))
  moreover have "put_chars (n @ ''='' @ w) 0 (tunestr st) = Inr (tunestr st)" by (simp add: put_chars_def st(1))
  moreover have "\<not> length (valstring st) < Suc (length n) + length w" by (simp add: st(3))
  ultimately have keep: "keep_tunable True (tunable_list st ! i) (Suc (length n)) (length w) st = Inr st1"
    using i(3) index_of_Some [OF i(1)] st(2) by (simp add: keep_tunable_def Let_def st1_def e_def)
  obtain st' where set: "set_tunable True i (Suc (length n)) (length w) st1 = Inr st'"
    using set_tunable_defined [of "Suc (length n)" "length w" st1 True i] st(3) by (auto simp: st1_def)
  have "i < length (tunable_list st1)" using index_of_Some [OF i(1)] by (simp add: st1_def)
  note fr = set_tunable_frame [OF set this, of n]
  have len: "e - Suc (length n) = length w" "Suc (length n + length w) = e" by (simp_all add: e_def)
  have add: "add_tunable True 0 (Suc (length n)) (length w) st = Inr st'"
    unfolding add_tunable_def find using keep set by simp
  have "tunestr st' ! e = NUL" "e < length (tunestr st')"
    using fr by (simp_all add: st1_def st(1) e_def nth_append)
  then have "parse_loop (Suc fuel) True 0 st = parse_loop fuel True (Suc (length n)) st'"
    using scan1 at scan2 add len by (simp add: parse_loop.simps(2) Let_def)
  then show thesis
    by (rule that) (use fr i in \<open>simp_all add: st1_def e_def\<close>)
qed

text \<open>C32: in a secure process a \<open>GLIBC_TUNABLES\<close> whose only field is \<open>n=n=v\<close>, for any tunable \<open>n\<close> that is not
  erased, makes \<open>parse_tunables\<close> write behind its copy of the string: the read position does not move past
  the last value, which is therefore parsed and copied a second time.\<close>

theorem parse_tunables_overflow:
  assumes i: "index_of ts n = Some i" "names_ok ts" "security_level (ts ! i) \<noteq> SECLEVEL_SXID_ERASE"
    and n: "nul_free n" "nul_free v" "colon \<notin> set n" "colon \<notin> set v" "n \<noteq> []"
  shows "parse_tunables True (parse_start spare ts (n @ ''='' @ n @ ''='' @ v)) = Inl Oob_write"
proof -
  let ?s = "n @ ''='' @ n @ ''='' @ v"
  let ?st = "parse_start spare ts ?s"
  have ne: "CHR ''='' \<notin> set n" using i index_of_Some [OF i(1)] by (auto simp: names_ok_def)
  have "cget (tunestr ?st) 0 \<noteq> NUL" using n(1,5) by (cases n) (simp_all add: parse_start_def)
  then have run: "parse_tunables True ?st = parse_loop (Suc (Suc (length ?s + 1))) True 0 ?st"
    by (simp add: parse_tunables_def parse_start_def)
  obtain st' where s: "parse_loop (Suc (Suc (length ?s + 1))) True 0 ?st =
        parse_loop (Suc (length ?s + 1)) True (Suc (length n)) st'"
      "tunestr st' = tunestr ?st" "off st' = length n + length (n @ ''='' @ v) + 1"
      "length (valstring st') = length (valstring ?st)"
      "index_of (tunable_list st') n = Some i" "names_ok (tunable_list st')"
      "security_level (tunable_list st' ! i) \<noteq> SECLEVEL_SXID_ERASE"
    by (rule parse_first_round [of ?st n "n @ ''='' @ v" spare i "Suc (length ?s + 1)"])
      (use i n ne in \<open>simp_all add: parse_start_def\<close>)
  have "parse_loop (Suc (length ?s + 1)) True (Suc (length n)) st' = Inl Oob_write"
    by (rule parse_again_overflows [of _ _ v spare i]) (use s n ne in \<open>simp_all add: parse_start_def\<close>)
  with run s(1) show ?thesis by simp
qed

theorem parse_tunables_overflow_witness:
  "parse_tunables True (parse_start NUL demo_tunables ''glibc.rtld.nns=glibc.rtld.nns=3'') = Inl Oob_write"
proof -
  have "index_of demo_tunables ''glibc.rtld.nns'' = Some 2" by code_simp
  from parse_tunables_overflow [OF this demo_tunables_ok(2), of "''3''" NUL]
  show ?thesis by (simp add: demo_tunables_def nul_free_def)
qed

end
