(* ===== verification/Dst.thy ===== *)
theory Dst
  imports Numconv
begin

text \<open>
  Dynamic string tokens: \<open>is_dst\<close>, \<open>_dl_dst_count\<close>, \<open>_dl_dst_substitute\<close>,
  \<open>expand_dynamic_string_token\<close> and \<open>is_trusted_path_normalize\<close> of elf/dl-load.c,
  \<open>DL_DST_REQUIRED\<close> of elf/dl-dst.h and \<open>_dl_get_origin\<close> of the Linux dl-origin.c.
  The result buffer is a list of the bytes \<open>malloc\<close> returned, whatever they hold.  Lemmas: the size
  computed beforehand is enough for every substitution, the expansion is the token-wise
  replacement, and the normalization agrees with the resolution of path components.
\<close>

section \<open>Objects and the loader's constants\<close>

text \<open>A pointer that is null, \<open>(char *) -1\<close>, or a string.\<close>

datatype origin = Origin_null | Origin_unknown | Origin string

datatype link_type = lt_executable | lt_library | lt_loaded

record dst_map =
  l_name :: string
  l_origin :: origin
  l_type :: link_type

text \<open>What the loader knows about the process and the platform.\<close>

record dst_env =
  enable_secure :: bool           \<comment> \<open>\<open>__libc_enable_secure\<close>\<close>
  platform :: "string option"     \<comment> \<open>\<open>GLRO(dl_platform)\<close>\<close>
  platformlen :: nat              \<comment> \<open>\<open>GLRO(dl_platformlen)\<close>\<close>
  dst_lib :: string               \<comment> \<open>\<open>DL_DST_LIB\<close>, from the build\<close>
  system_dirs :: "string list"    \<comment> \<open>from the generated trusted-dirs.h\<close>

section \<open>Recognizing a token\<close>

definition ident_char :: "char \<Rightarrow> bool" where
  "ident_char c \<longleftrightarrow> isalpha c \<or> isdigit c \<or> c = CHR ''_''"

definition is_dst :: "string \<Rightarrow> string \<Rightarrow> nat" where
  "is_dst input ref =
     (let is_curly = (cget input 0 = CHR ''{'');
          input = (if is_curly then drop 1 input else input);
          rlen = length ref
      in if take rlen input \<noteq> ref \<or> is_curly \<and> cget input rlen \<noteq> CHR ''}'' \<or> ident_char (cget input rlen) then 0
         else if is_curly then rlen + 2 else rlen)"

text \<open>The length of the token behind a dollar sign, whichever it is; 0 when there is none.\<close>

definition dst_length :: "string \<Rightarrow> nat" where
  "dst_length input =
     (if is_dst input ''ORIGIN'' \<noteq> 0 then is_dst input ''ORIGIN''
      else if is_dst input ''PLATFORM'' \<noteq> 0 then is_dst input ''PLATFORM''
      else is_dst input ''LIB'')"

function dl_dst_count :: "string \<Rightarrow> nat" where
  "dl_dst_count input =
     (case dropWhile (\<lambda>c. c \<noteq> CHR ''$'') input of
        [] \<Rightarrow> 0
      | _ # input \<Rightarrow>
          (let len = dst_length input in (if len \<noteq> 0 then 1 else 0) + dl_dst_count (drop len input)))"
  by pat_completeness auto
termination
proof (relation "measure length")
  fix input x and rest :: string
  assume "dropWhile (\<lambda>c. c \<noteq> CHR ''$'') input = x # rest"
  then have "length rest < length input" by (metis length_Cons length_dropWhile_le less_eq_Suc_le)
  then show "(drop len rest, input) \<in> measure length" for len by simp
qed simp

declare dl_dst_count.simps [simp del]

section \<open>Normalizing a path\<close>

text \<open>
  The output is kept in reverse: \<open>wnp[-1]\<close> is the head.  \<open>cap\<close> is the number of bytes of \<open>npath\<close>.
\<close>

definition back_up :: "string \<Rightarrow> string" where
  "back_up out = drop 1 (dropWhile (\<lambda>c. c \<noteq> slash) out)"

definition push_char :: "nat \<Rightarrow> char \<Rightarrow> string \<Rightarrow> string res" where
  "push_char cap c out = (if length out < cap then Inr (c # out) else Inl Oob_write)"

function normalize_loop :: "nat \<Rightarrow> string \<Rightarrow> string \<Rightarrow> string res" where
  "normalize_loop cap out [] = Inr out"
| "normalize_loop cap out (c # path) =
     (if c = slash \<and> cget path 0 = CHR ''.'' \<and> cget path 1 = CHR ''.'' \<and> (cget path 2 = slash \<or> cget path 2 = NUL)
      then normalize_loop cap (back_up out) (drop 2 path)
      else if c = slash \<and> cget path 0 = CHR ''.'' \<and> (cget path 1 = slash \<or> cget path 1 = NUL)
      then normalize_loop cap out (drop 1 path)
      else if c = slash \<and> cget out 0 = slash
      then normalize_loop cap out path
      else rbind (push_char cap c out) (\<lambda>out. normalize_loop cap out path))"
  by pat_completeness auto
termination
  by (relation "measure (\<lambda>(_, _, path). length path)") auto

text \<open>
  \<open>path\<close> is the memory at the pointer up to the end of its object; it is read up to its
  first null byte, wherever that is, and \<open>len\<close> only sizes the output.
\<close>

definition is_trusted_path_normalize :: "string list \<Rightarrow> char list \<Rightarrow> nat \<Rightarrow> bool res" where
  "is_trusted_path_normalize dirs path len =
     (if len = 0 then Inr False
      else if NUL \<notin> set path then Inl Oob_read
      else
        rbind (normalize_loop (len + 2) [] (cstr path)) (\<lambda>out.
        rbind (if cget out 0 = slash then Inr out else push_char (len + 2) slash out) (\<lambda>out.
          Inr (list_ex (\<lambda>dir. length dir \<le> length out \<and> take (length dir) (rev out) = dir) dirs))))"

section \<open>Substituting tokens\<close>

text \<open>The replacement of the token behind a dollar sign and the new value of \<open>check_for_trusted\<close>.\<close>

definition dst_replacement :: "dst_env \<Rightarrow> 'a dst_map_scheme \<Rightarrow> bool \<Rightarrow> string \<Rightarrow> bool \<Rightarrow> origin \<times> bool" where
  "dst_replacement env l at_start input check =
     (let len = is_dst input ''ORIGIN'' in
      if len \<noteq> 0 then
        (if enable_secure env \<and> \<not> (at_start \<and> (cget input len = NUL \<or> cget input len = slash))
         then Origin_unknown else l_origin l,
         enable_secure env \<and> l_type l = lt_executable)
      else if is_dst input ''PLATFORM'' \<noteq> 0 then
        (case platform env of None \<Rightarrow> Origin_null | Some s \<Rightarrow> Origin s, check)
      else if is_dst input ''LIB'' \<noteq> 0 then (Origin (dst_lib env), check)
      else (Origin_null, check))"

text \<open>\<open>result\<close> is the whole buffer and \<open>wp\<close> the position to write; the value \<open>None\<close> is a discarded path.\<close>

function substitute_loop ::
  "dst_env \<Rightarrow> 'a dst_map_scheme \<Rightarrow> bool \<Rightarrow> string \<Rightarrow> char list \<Rightarrow> nat \<Rightarrow> bool \<Rightarrow> (char list \<times> nat \<times> bool) option res" where
  "substitute_loop env l at_start [] result wp check = Inr (Some (result, wp, check))"
| "substitute_loop env l at_start (c # input) result wp check =
     (if c = CHR ''$'' then
        (case dst_replacement env l at_start input check of (repl, check) \<Rightarrow>
          (case repl of
             Origin s \<Rightarrow>
               rbind (put_chars (s @ [NUL]) wp result)
                 (\<lambda>result. substitute_loop env l False (drop (dst_length input) input) result (wp + length s) check)
           | _ \<Rightarrow>
               if dst_length input \<noteq> 0 then Inr None
               else
                 rbind (put_chars ''$'' wp result)
                   (\<lambda>result. substitute_loop env l False input result (wp + 1) check)))
      else
        rbind (put_chars [c] wp result) (\<lambda>result. substitute_loop env l False input result (wp + 1) check))"
  by pat_completeness auto
termination
  by (relation "measure (\<lambda>(_, _, _, input, _, _, _). length input)") auto

definition dl_dst_substitute ::
  "dst_env \<Rightarrow> 'a dst_map_scheme \<Rightarrow> string \<Rightarrow> char list \<Rightarrow> char list res" where
  "dl_dst_substitute env l input result =
     (if input = [] then Inl Oob_read
      else
        rbind (substitute_loop env l True input result 0 False) (\<lambda>r.
          case r of
            None \<Rightarrow> put_chars [NUL] 0 result
          | Some (result, wp, check) \<Rightarrow>
              if check then
                rbind (is_trusted_path_normalize (system_dirs env) result wp)
                  (\<lambda>trusted. if trusted then put_chars [NUL] wp result else put_chars [NUL] 0 result)
              else put_chars [NUL] wp result))"

section \<open>Expanding a name\<close>

text \<open>
  \<open>_dl_get_origin\<close>: \<open>link\<close> is what \<open>readlink ("/proc/self/exe")\<close> stores, \<open>None\<close> its failure, and
  \<open>origin_path\<close> is \<open>GLRO(dl_origin_path)\<close>.
\<close>

definition get_origin_env :: "bool \<Rightarrow> string option \<Rightarrow> origin res" where
  "get_origin_env mem_ok origin_path =
     (case origin_path of
        None \<Rightarrow> Inr Origin_unknown
      | Some p \<Rightarrow>
          if \<not> mem_ok then Inr Origin_unknown
          else Inr (Origin (take 1 p @ rev (dropWhile (\<lambda>c. c = slash) (rev (drop 1 p))))))"

definition dl_get_origin :: "bool \<Rightarrow> string option \<Rightarrow> string option \<Rightarrow> origin res" where
  "dl_get_origin mem_ok link origin_path =
     (case link of
        Some linkval \<Rightarrow>
          if linkval \<noteq> [] \<and> cget linkval 0 \<noteq> CHR ''['' then
            if cget linkval 0 \<noteq> slash then Inl Assert_fail
            else if \<not> mem_ok then Inr Origin_unknown
            else
              let dir = rev (dropWhile (\<lambda>c. c \<noteq> slash) (rev linkval)) in
              Inr (Origin (if length dir \<le> 1 then ''/'' else butlast dir))
          else get_origin_env mem_ok origin_path
      | None \<Rightarrow> get_origin_env mem_ok origin_path)"
definition origin_length :: "origin \<Rightarrow> nat" where
  "origin_length r = (case r of Origin s \<Rightarrow> length s | _ \<Rightarrow> 0)"

text \<open>
  \<open>DL_DST_REQUIRED\<close> stores the origin in the map when it is not known yet.  \<open>get_origin\<close> is
  the result of the call of \<open>_dl_get_origin\<close>, \<open>is_rtld\<close> whether \<open>l\<close> is the loader's own map.
\<close>

definition dl_dst_required ::
  "dst_env \<Rightarrow> origin res \<Rightarrow> bool \<Rightarrow> 'a dst_map_scheme \<Rightarrow> nat \<Rightarrow> nat \<Rightarrow> (nat \<times> 'a dst_map_scheme) res" where
  "dl_dst_required env get_origin is_rtld l len cnt =
     (if cnt = 0 then Inr (len, l)
      else
        rbind (if l_origin l = Origin_null then
                 if l_name l \<noteq> [] \<and> \<not> is_rtld then Inl Assert_fail
                 else rbind get_origin (\<lambda>r. Inr (l\<lparr>l_origin := r\<rparr>))
               else Inr l)
          (\<lambda>l. let dst_len = max (max (origin_length (l_origin l)) (platformlen env)) (length (dst_lib env)) in
             Inr (if 4 < dst_len then len + cnt * (dst_len - 4) else len, l)))"

text \<open>\<open>malloc n\<close> is the memory a call of \<open>malloc (n)\<close> returns, \<open>None\<close> its failure.\<close>

definition expand_dynamic_string_token ::
  "dst_env \<Rightarrow> origin res \<Rightarrow> bool \<Rightarrow> (nat \<Rightarrow> char list option) \<Rightarrow> 'a dst_map_scheme \<Rightarrow> string \<Rightarrow>
   (char list option \<times> 'a dst_map_scheme) res" where
  "expand_dynamic_string_token env get_origin is_rtld malloc l input =
     (let cnt = dl_dst_count input in
      if cnt = 0 then
        Inr (case malloc (length input + 1) of None \<Rightarrow> None | Some _ \<Rightarrow> Some (cbuf input), l)
      else
        rbind (dl_dst_required env get_origin is_rtld l (length input) cnt) (\<lambda>(total, l).
          case malloc (total + 1) of
            None \<Rightarrow> Inr (None, l)
          | Some result \<Rightarrow>
              rbind (dl_dst_substitute env l input result) (\<lambda>result. Inr (Some result, l))))"

section \<open>Tokens of a name\<close>

text \<open>The reference: a name is a list of literal characters and tokens.  A leading \<open>$ORIGIN\<close> that is a whole path
  component is marked, since only that one is replaced in a secure process.\<close>

datatype dst_item = Lit char | Tok_origin bool | Tok_platform | Tok_lib

definition first_token :: "bool \<Rightarrow> string \<Rightarrow> dst_item option" where
  "first_token at_start input =
     (if is_dst input ''ORIGIN'' \<noteq> 0 then
        Some (Tok_origin (at_start \<and> (let c = cget input (is_dst input ''ORIGIN'') in c = NUL \<or> c = slash)))
      else if is_dst input ''PLATFORM'' \<noteq> 0 then Some Tok_platform
      else if is_dst input ''LIB'' \<noteq> 0 then Some Tok_lib else None)"

function dst_items :: "bool \<Rightarrow> string \<Rightarrow> dst_item list" where
  "dst_items at_start [] = []"
| "dst_items at_start (c # input) =
     (case (if c = CHR ''$'' then first_token at_start input else None) of
        None \<Rightarrow> Lit c # dst_items False input
      | Some t \<Rightarrow> t # dst_items False (drop (dst_length input) input))"
  by pat_completeness auto
termination
  by (relation "measure (\<lambda>(_, input). length input)") auto

definition item_text :: "dst_env \<Rightarrow> 'a dst_map_scheme \<Rightarrow> dst_item \<Rightarrow> string option" where
  "item_text env l t =
     (case t of
        Lit c \<Rightarrow> Some [c]
      | Tok_origin leading \<Rightarrow>
          if enable_secure env \<and> \<not> leading then None
          else (case l_origin l of Origin s \<Rightarrow> Some s | _ \<Rightarrow> None)
      | Tok_platform \<Rightarrow> platform env
      | Tok_lib \<Rightarrow> Some (dst_lib env))"

definition items_text :: "dst_env \<Rightarrow> 'a dst_map_scheme \<Rightarrow> dst_item list \<Rightarrow> string option" where
  "items_text env l ts =
     (if None \<in> set (map (item_text env l) ts) then None else Some (concat (map (the \<circ> item_text env l) ts)))"

lemma items_text_simps [simp]:
  "items_text env l [] = Some []"
  "items_text env l (t # ts) =
     (case item_text env l t of
        None \<Rightarrow> None
      | Some s \<Rightarrow> map_option (\<lambda>r. s @ r) (items_text env l ts))"
  by (auto simp: items_text_def split: option.splits)

definition has_origin :: "dst_item list \<Rightarrow> bool" where
  "has_origin ts \<longleftrightarrow> Tok_origin True \<in> set ts \<or> Tok_origin False \<in> set ts"

lemma is_dst_bound:
  assumes "is_dst input ref \<noteq> 0"
  shows "length ref \<le> is_dst input ref \<and> is_dst input ref \<le> length input"
proof -
  define i where "i = (if cget input 0 = CHR ''{'' then drop 1 input else input)"
  have "take (length ref) i = ref"
    using assms by (auto simp: is_dst_def Let_def i_def split: if_splits)
  then have len: "length ref \<le> length i" by (metis length_take min.absorb_iff2 min.commute)
  show ?thesis
  proof (cases "cget input 0 = CHR ''{''")
    case False
    then show ?thesis using len assms by (auto simp: is_dst_def Let_def i_def split: if_splits)
  next
    case True
    then have "cget i (length ref) = CHR ''}''" using assms by (auto simp: is_dst_def Let_def i_def split: if_splits)
    then have "length ref < length i" by (cases "length ref < length i") (simp_all add: cget_nth)
    with True assms show ?thesis by (cases input) (auto simp: is_dst_def Let_def i_def split: if_splits)
  qed
qed

lemma ident_NUL [simp]: "\<not> ident_char NUL"
  by (simp add: ident_char_def isalpha_def isdigit_def)

lemma dst_length_bound: "dst_length input \<noteq> 0 \<Longrightarrow> 3 \<le> dst_length input \<and> dst_length input \<le> length input"
  using is_dst_bound [of input "''ORIGIN''"] is_dst_bound [of input "''PLATFORM''"] is_dst_bound [of input "''LIB''"]
  by (auto simp: dst_length_def split: if_splits)

lemma first_token_length: "first_token at_start input = None \<longleftrightarrow> dst_length input = 0"
  by (auto simp: first_token_def dst_length_def)

lemma dst_count_simps [simp]:
  "dl_dst_count [] = 0"
  "c \<noteq> CHR ''$'' \<Longrightarrow> dl_dst_count (c # input) = dl_dst_count input"
  "dl_dst_count (CHR ''$'' # input) =
     (if dst_length input = 0 then dl_dst_count input else Suc (dl_dst_count (drop (dst_length input) input)))"
  by (simp_all add: dl_dst_count.simps [of "[]"] dl_dst_count.simps [of "c # input"]
      dl_dst_count.simps [of "CHR ''$'' # input"] flip: dl_dst_count.simps [of input])

lemma replacement_token:
  "dst_replacement env l at_start input check =
     (case first_token at_start input of
        None \<Rightarrow> (Origin_null, check)
      | Some t \<Rightarrow>
          (case item_text env l t of
             Some s \<Rightarrow> Origin s
           | None \<Rightarrow> fst (dst_replacement env l at_start input check),
           if has_origin [t] then enable_secure env \<and> l_type l = lt_executable else check))"
  by (auto simp: dst_replacement_def first_token_def item_text_def has_origin_def Let_def split: option.splits origin.splits)

lemma replacement_missing:
  "first_token at_start input = Some t \<Longrightarrow> item_text env l t = None \<Longrightarrow>
   fst (dst_replacement env l at_start input check) \<in> {Origin_null, Origin_unknown}"
  by (auto simp: dst_replacement_def first_token_def item_text_def Let_def split: option.splits origin.splits if_splits)
section \<open>The substitution fits its buffer\<close>

definition fits_dst :: "dst_env \<Rightarrow> 'a dst_map_scheme \<Rightarrow> nat \<Rightarrow> bool" where
  "fits_dst env l m \<longleftrightarrow>
     length (dst_lib env) \<le> m \<and> (\<forall>s. platform env = Some s \<longrightarrow> length s \<le> m) \<and>
     (\<forall>s. l_origin l = Origin s \<longrightarrow> length s \<le> m)"

lemma fits_item:
  "fits_dst env l m \<Longrightarrow> first_token at_start input = Some t \<Longrightarrow> item_text env l t = Some s \<Longrightarrow> length s \<le> m"
  by (auto simp: fits_dst_def first_token_def item_text_def split: if_splits origin.splits)

definition cleared :: "nat \<Rightarrow> char list \<Rightarrow> bool" where
  "cleared wp b \<longleftrightarrow> set (drop wp b) \<subseteq> {NUL}"

lemma cleared_later: "cleared wp b \<Longrightarrow> cleared (wp + k) b"
  unfolding cleared_def by (metis add.commute drop_drop set_drop_subset subset_trans)

lemma put_chars_run:
  assumes "wp + length s \<le> length b"
  shows "put_chars s wp b = Inr (take wp b @ s @ drop (wp + length s) b)"
  using assms by (simp add: put_chars_def)

lemma put_chars_parts:
  assumes "wp + length s + length z \<le> length b"
  defines "b' \<equiv> take wp b @ (s @ z) @ drop (wp + length (s @ z)) b"
  shows "length b' = length b" "take (wp + length s) b' = take wp b @ s"
    "set z \<subseteq> {NUL} \<Longrightarrow> cleared wp b \<Longrightarrow> cleared (wp + length s) b'"
proof -
  have wp: "length (take wp b) = wp" using assms(1) by simp
  show "length b' = length b" using assms(1) by (simp add: b'_def)
  show "take (wp + length s) b' = take wp b @ s" using wp by (simp add: b'_def)
  have "drop (wp + length s) b' = z @ drop (wp + length (s @ z)) b" using wp by (simp add: b'_def)
  then show "cleared (wp + length s) b'" if "set z \<subseteq> {NUL}" "cleared wp b"
    using that cleared_later [of wp b "length (s @ z)"] by (simp add: cleared_def)
qed

text \<open>What the loop leaves in the buffer.\<close>

definition substituted ::
  "char list \<Rightarrow> nat \<Rightarrow> string option \<Rightarrow> bool \<Rightarrow> (char list \<times> nat \<times> bool) option res \<Rightarrow> bool" where
  "substituted b wp r check x \<longleftrightarrow>
     (case r of
        None \<Rightarrow> x = Inr None
      | Some s \<Rightarrow> \<exists>b'. x = Inr (Some (b', wp + length s, check)) \<and> length b' = length b \<and> wp + length s < length b \<and>
          take (wp + length s) b' = take wp b @ s \<and> (cleared wp b \<longrightarrow> cleared (wp + length s) b'))"

lemma substituted_step:
  assumes "wp + length s + length z \<le> length b"
    and "set z \<subseteq> {NUL}"
    and "substituted (take wp b @ (s @ z) @ drop (wp + length (s @ z)) b) (wp + length s) r check x"
  shows "substituted b wp (map_option (\<lambda>t. s @ t) r) check x"
proof (cases r)
  case None
  with assms(3) show ?thesis by (simp add: substituted_def)
next
  case (Some t)
  let ?b1 = "take wp b @ (s @ z) @ drop (wp + length (s @ z)) b"
  note p = put_chars_parts [OF assms(1)]
  from assms(3) Some obtain b' where b': "x = Inr (Some (b', (wp + length s) + length t, check))"
      "length b' = length ?b1" "(wp + length s) + length t < length ?b1" "take ((wp + length s) + length t) b' = take (wp + length s) ?b1 @ t"
      "cleared (wp + length s) ?b1 \<longrightarrow> cleared ((wp + length s) + length t) b'"
    unfolding substituted_def by auto
  have "length b' = length b" using b'(2) p(1) by simp
  moreover have "take (wp + length (s @ t)) b' = take wp b @ s @ t"
    using b'(4) unfolding p(2) by (simp add: add.assoc)
  moreover have "cleared wp b \<longrightarrow> cleared (wp + length (s @ t)) b'"
    using b'(5) p(3) [OF assms(2)] by (simp add: add.assoc)
  moreover have "wp + length (s @ t) < length b" using b'(3) p(1) by simp
  ultimately show ?thesis using b'(1) Some by (auto simp: substituted_def add.assoc)
qed
lemma token_room:
  assumes "wp + Suc (length input) + Suc cnt * (m - 4) < n" "length s \<le> m"
    and "3 \<le> len" "len \<le> length input"
  shows "wp + length s + (length input - len) + cnt * (m - 4) < (n :: nat)"
proof -
  have "length s \<le> (m - 4) + 4" using assms(2) by simp
  with assms show ?thesis by simp
qed

lemma substitute_literal:
  assumes "\<not> (c = CHR ''$'' \<and> first_token at_start rest \<noteq> None)" "wp + 1 \<le> length result"
  shows "substitute_loop env l at_start (c # rest) result wp check =
    substitute_loop env l False rest (take wp result @ ([c] @ []) @ drop (wp + length ([c] @ [])) result) (wp + length [c]) check"
proof -
  have f: "first_token at_start rest = None" if "c = CHR ''$''" using that assms(1) by simp
  have "dst_replacement env l at_start rest check = (Origin_null, check)" "dst_length rest = 0" if "c = CHR ''$''"
    using f [OF that] replacement_token [of env l at_start rest check] first_token_length [of at_start rest] by simp_all
  then show ?thesis using assms(2) by (cases "c = CHR ''$''") (simp_all add: put_chars_run)
qed

lemma substitute_token:
  assumes "first_token at_start rest = Some t" "item_text env l t = Some s" "wp + length s < length result"
  shows "substitute_loop env l at_start (CHR ''$'' # rest) result wp check =
    substitute_loop env l False (drop (dst_length rest) rest)
      (take wp result @ (s @ [NUL]) @ drop (wp + length (s @ [NUL])) result) (wp + length s)
      (if has_origin [t] then enable_secure env \<and> l_type l = lt_executable else check)"
proof -
  have "dst_replacement env l at_start rest check =
      (Origin s, if has_origin [t] then enable_secure env \<and> l_type l = lt_executable else check)"
    using replacement_token [of env l at_start rest check] assms(1,2) by simp
  then show ?thesis using assms(3) by (simp add: put_chars_run)
qed

lemma substitute_missing:
  assumes "first_token at_start rest = Some t" "item_text env l t = None"
  shows "substitute_loop env l at_start (CHR ''$'' # rest) result wp check = Inr None"
  using replacement_missing [OF assms, of check] first_token_length [of at_start rest] assms(1)
  by (cases "dst_replacement env l at_start rest check") auto

text \<open>Whether the expanded path is to be checked.\<close>

definition to_check :: "dst_env \<Rightarrow> 'a dst_map_scheme \<Rightarrow> dst_item list \<Rightarrow> bool \<Rightarrow> bool" where
  "to_check env l ts check \<longleftrightarrow> (if has_origin ts then enable_secure env \<and> l_type l = lt_executable else check)"

lemma to_check_Cons:
  "to_check env l (t # ts) check = to_check env l ts (to_check env l [t] check)"
  by (auto simp: to_check_def has_origin_def)

lemma substituted_None [simp]: "substituted b wp None ck x \<longleftrightarrow> x = Inr None"
  by (simp add: substituted_def)

lemma substitute_loop_items:
  assumes "fits_dst env l m" "wp + length input + dl_dst_count input * (m - 4) < length result"
  shows "substituted result wp (items_text env l (dst_items at_start input)) (to_check env l (dst_items at_start input) check)
    (substitute_loop env l at_start input result wp check)"
  using assms(2)
proof (induction "length input" arbitrary: at_start input result wp check rule: less_induct)
  case less
  show ?case
  proof (cases input)
    case Nil
    then show ?thesis using less.prems by (simp add: substituted_def to_check_def has_origin_def)
  next
    case (Cons c rest)
    show ?thesis
    proof (cases "c = CHR ''$'' \<and> first_token at_start rest \<noteq> None")
      case False
      then have items: "dst_items at_start input = Lit c # dst_items False rest" using Cons by auto
      have cnt: "dl_dst_count input = dl_dst_count rest"
        using False Cons by (cases "c = CHR ''$''") (simp_all add: first_token_length)
      have room: "wp + 1 \<le> length result" using less.prems Cons by simp
      have "substituted result wp (map_option (\<lambda>t. [c] @ t) (items_text env l (dst_items False rest)))
          (to_check env l (dst_items False rest) check) (substitute_loop env l at_start input result wp check)"
        unfolding Cons substitute_literal [OF False room]
        by (rule substituted_step [OF _ _ less.hyps]) (use less.prems Cons cnt room in simp_all)
      then show ?thesis unfolding items to_check_Cons [of env l "Lit c" "dst_items False rest"]
        by (cases "items_text env l (dst_items False rest)") (simp_all add: item_text_def to_check_def has_origin_def)
    next
      case True
      then obtain t where t: "first_token at_start rest = Some t" and c: "c = CHR ''$''" by auto
      let ?rest = "drop (dst_length rest) rest"
      have items: "dst_items at_start input = t # dst_items False ?rest" using Cons t c by simp
      have lb: "3 \<le> dst_length rest" "dst_length rest \<le> length rest"
        using dst_length_bound first_token_length [of at_start rest] t by simp_all
      have cnt: "dl_dst_count input = Suc (dl_dst_count ?rest)" using Cons c lb by simp
      show ?thesis
      proof (cases "item_text env l t")
        case None
        show ?thesis unfolding items unfolding Cons c substitute_missing [OF t None] by (simp add: None)
      next
        case (Some s)
        have pos: "wp + length s + length ?rest + dl_dst_count ?rest * (m - 4) < length result"
          using token_room [OF _ fits_item [OF assms(1) t Some] lb] less.prems Cons cnt by simp
        have room: "wp + length s < length result" using pos by simp
        have "substituted result wp (map_option (\<lambda>u. s @ u) (items_text env l (dst_items False ?rest)))
            (to_check env l (dst_items False ?rest) (to_check env l [t] check))
            (substitute_loop env l at_start input result wp check)"
          unfolding Cons c substitute_token [OF t Some room, folded to_check_def]
          by (rule substituted_step [OF _ _ less.hyps]) (use pos Cons in simp_all)
        then show ?thesis unfolding items to_check_Cons [of env l t "dst_items False ?rest"] by (simp add: Some)
      qed
    qed
  qed
qed
section \<open>Normalization\<close>

lemma back_up_length: "length (back_up out) \<le> length out"
  unfolding back_up_def using length_dropWhile_le [of "\<lambda>c. c \<noteq> slash" out] by simp

text \<open>The four branches of the loop.\<close>

definition at_dot_dot :: "char \<Rightarrow> string \<Rightarrow> bool" where
  "at_dot_dot c path \<longleftrightarrow>
     c = slash \<and> cget path 0 = CHR ''.'' \<and> cget path 1 = CHR ''.'' \<and> (cget path 2 = slash \<or> cget path 2 = NUL)"

definition at_dot :: "char \<Rightarrow> string \<Rightarrow> bool" where
  "at_dot c path \<longleftrightarrow> c = slash \<and> cget path 0 = CHR ''.'' \<and> (cget path 1 = slash \<or> cget path 1 = NUL)"

lemma normalize_step:
  "at_dot_dot c path \<Longrightarrow> normalize_loop cap out (c # path) = normalize_loop cap (back_up out) (drop 2 path)"
  "\<not> at_dot_dot c path \<Longrightarrow> at_dot c path \<Longrightarrow> normalize_loop cap out (c # path) = normalize_loop cap out (drop 1 path)"
  "\<not> at_dot_dot c path \<Longrightarrow> \<not> at_dot c path \<Longrightarrow> c = slash \<and> cget out 0 = slash \<Longrightarrow>
     normalize_loop cap out (c # path) = normalize_loop cap out path"
  "\<not> at_dot_dot c path \<Longrightarrow> \<not> at_dot c path \<Longrightarrow> \<not> (c = slash \<and> cget out 0 = slash) \<Longrightarrow> length out < cap \<Longrightarrow>
     normalize_loop cap out (c # path) = normalize_loop cap (c # out) path"
  unfolding at_dot_dot_def at_dot_def by (auto simp: push_char_def)

declare normalize_loop.simps(2) [simp del]

lemma normalize_loop_fits:
  "length out + length path \<le> cap \<Longrightarrow>
   \<exists>out'. normalize_loop cap out path = Inr out' \<and> length out' \<le> length out + length path"
proof (induction "length path" arbitrary: out path rule: less_induct)
  case less
  show ?case
  proof (cases path)
    case (Cons c p)
    have IH: "length out' + length q \<le> length out + length path \<Longrightarrow> length q < length path \<Longrightarrow>
        \<exists>out''. normalize_loop cap out' q = Inr out'' \<and> length out'' \<le> length out + length path" for out' q
      using less.hyps [of q out'] less.prems by fastforce
    consider "at_dot_dot c p" | "\<not> at_dot_dot c p" "at_dot c p"
      | "\<not> at_dot_dot c p" "\<not> at_dot c p" "c = slash \<and> cget out 0 = slash"
      | "\<not> at_dot_dot c p" "\<not> at_dot c p" "\<not> (c = slash \<and> cget out 0 = slash)" by blast
    then show ?thesis
    proof cases
      case 1
      then show ?thesis using IH [of "back_up out" "drop 2 p"] back_up_length [of out] Cons
        by (simp add: normalize_step)
    next
      case 2
      then show ?thesis using IH [of out "drop 1 p"] Cons by (simp add: normalize_step)
    next
      case 3
      then show ?thesis using IH [of out p] Cons by (simp add: normalize_step)
    next
      case 4
      then show ?thesis using IH [of "c # out" p] Cons less.prems by (simp add: normalize_step)
    qed
  qed simp
qed

text \<open>The reference: components of a path and their resolution against a stack.\<close>

definition path_of :: "string list \<Rightarrow> string" where
  "path_of cs = concat (map (\<lambda>c. slash # c) cs)"

definition comp_ok :: "string \<Rightarrow> bool" where
  "comp_ok c \<longleftrightarrow> c \<noteq> [] \<and> slash \<notin> set c \<and> nul_free c"

fun resolve_comps :: "string list \<Rightarrow> string list \<Rightarrow> string list" where
  "resolve_comps st [] = st"
| "resolve_comps st (c # cs) =
     (if c = ''.'' then resolve_comps st cs
      else if c = ''..'' then resolve_comps (butlast st) cs
      else resolve_comps (st @ [c]) cs)"

lemma path_of_simps [simp]:
  "path_of [] = []" "path_of (c # cs) = slash # c @ path_of cs" "path_of (cs @ ds) = path_of cs @ path_of ds"
  by (simp_all add: path_of_def)

lemma path_of_nul_free: "\<forall>c \<in> set cs. comp_ok c \<Longrightarrow> nul_free (path_of cs)"
  by (induction cs) (auto simp: comp_ok_def)

lemma back_up_path: "comp_ok c \<Longrightarrow> back_up (rev (path_of (st @ [c]))) = rev (path_of st)"
proof -
  assume "comp_ok c"
  then have "dropWhile (\<lambda>x. x \<noteq> slash) (rev c @ slash # rev (path_of st)) = slash # rev (path_of st)"
    by (subst dropWhile_append2) (auto simp: comp_ok_def)
  then show ?thesis by (simp add: back_up_def)
qed

lemma normalize_plain:
  assumes "slash \<notin> set c" "length out + length c \<le> cap"
  shows "normalize_loop cap out (c @ rest) = normalize_loop cap (rev c @ out) rest"
  using assms by (induction c arbitrary: out) (auto simp: normalize_step at_dot_dot_def at_dot_def)

lemma cget_rest: "cget (path_of cs) 0 = (if cs = [] then NUL else slash)"
  by (cases cs) simp_all

lemma dots_component:
  assumes "comp_ok c"
  shows "at_dot_dot slash (c @ path_of cs) \<longleftrightarrow> c = ''..''" "at_dot slash (c @ path_of cs) \<longleftrightarrow> c = ''.''"
proof -
  obtain a c1 where c: "c = a # c1" using assms(1) by (cases c) (auto simp: comp_ok_def)
  have s: "cget (path_of cs) 0 = slash \<or> cget (path_of cs) 0 = NUL" by (simp add: cget_rest)
  show "at_dot slash (c @ path_of cs) \<longleftrightarrow> c = ''.''"
    using assms(1) s by (cases c1) (auto simp: at_dot_def c comp_ok_def)
  show "at_dot_dot slash (c @ path_of cs) \<longleftrightarrow> c = ''..''"
  proof (cases c1)
    case Nil
    then show ?thesis using s by (auto simp: at_dot_dot_def c)
  next
    case (Cons b c2)
    then show ?thesis using assms(1) s by (cases c2) (auto simp: at_dot_dot_def c comp_ok_def)
  qed
qed

lemma top_char: "\<forall>c \<in> set st. comp_ok c \<Longrightarrow> cget (rev (path_of st)) 0 \<noteq> slash"
proof (cases st rule: rev_cases)
  case (snoc st' c)
  moreover assume "\<forall>c \<in> set st. comp_ok c"
  ultimately show ?thesis by (cases c rule: rev_cases) (auto simp: comp_ok_def)
qed simp

lemma normalize_resolves:
  assumes "\<forall>c \<in> set cs. comp_ok c" "\<forall>c \<in> set st. comp_ok c"
    and "length (path_of st) + length (path_of cs) \<le> cap"
  shows "normalize_loop cap (rev (path_of st)) (path_of cs) = Inr (rev (path_of (resolve_comps st cs)))"
  using assms
proof (induction cs arbitrary: st)
  case (Cons c cs)
  then have ok: "comp_ok c" by simp
  note dots = dots_component [OF ok, of cs]
  consider "c = ''..''" | "c = ''.''" | "c \<noteq> ''..''" "c \<noteq> ''.''" by blast
  then show ?case
  proof cases
    case 1
    have "back_up (rev (path_of st)) = rev (path_of (butlast st))"
    proof (cases st rule: rev_cases)
      case (snoc st' d)
      with Cons.prems(2) show ?thesis using back_up_path [of d st'] by simp
    qed (simp add: back_up_def)
    moreover have "length (path_of (butlast st)) + length (path_of cs) \<le> cap"
      using Cons.prems(3) 1 by (cases st rule: rev_cases) simp_all
    moreover have "\<forall>c \<in> set (butlast st). comp_ok c" using Cons.prems(2) by (auto dest: in_set_butlastD)
    ultimately show ?thesis using Cons.IH [of "butlast st"] Cons.prems(1) 1 dots
      by (simp add: normalize_step)
  next
    case 2
    then show ?thesis using Cons.IH [of st] Cons.prems dots by (simp add: normalize_step)
  next
    case 3
    have "normalize_loop cap (rev (path_of st)) (path_of (c # cs)) =
        normalize_loop cap (slash # rev (path_of st)) (c @ path_of cs)"
      using dots 3 top_char [OF Cons.prems(2)] Cons.prems(3) by (simp add: normalize_step)
    also have "\<dots> = normalize_loop cap (rev (path_of (st @ [c]))) (path_of cs)"
      using normalize_plain [of c "slash # rev (path_of st)" cap "path_of cs"] ok Cons.prems(3)
      by (simp add: comp_ok_def)
    also have "\<dots> = Inr (rev (path_of (resolve_comps (st @ [c]) cs)))"
      using Cons.IH [of "st @ [c]"] Cons.prems ok by simp
    finally show ?thesis using 3 by simp
  qed
qed simp
section \<open>Expansion\<close>

text \<open>The text a name expands to; empty when a token has no replacement.\<close>

definition expand_text :: "dst_env \<Rightarrow> 'a dst_map_scheme \<Rightarrow> string \<Rightarrow> string" where
  "expand_text env l input = (case items_text env l (dst_items True input) of None \<Rightarrow> [] | Some s \<Rightarrow> s)"

text \<open>The decision on an expanded path that is followed by a terminator.\<close>

definition trusted_text :: "string list \<Rightarrow> string \<Rightarrow> bool" where
  "trusted_text dirs s \<longleftrightarrow> is_trusted_path_normalize dirs (cbuf s) (length s) = Inr True"

lemma put_end: "wp < length b \<Longrightarrow> take wp b = s \<Longrightarrow> \<exists>junk. put_chars [NUL] wp b = Inr (s @ NUL # junk)"
  by (simp add: put_chars_def)

lemma trusted_cleared:
  assumes "take wp b = s" "wp = length s" "wp < length b" "cleared wp b" "nul_free s"
  shows "is_trusted_path_normalize dirs b wp = Inr (trusted_text dirs s)"
proof -
  obtain k where "drop wp b = NUL # k" "set k \<subseteq> {NUL}"
    using assms(3,4) by (cases "drop wp b") (auto simp: cleared_def)
  then have b: "b = s @ NUL # k" using assms(1) by (metis append_take_drop_id)
  have c: "cstr b = cstr (cbuf s)" "NUL \<in> set b" "NUL \<in> set (cbuf s)"
    using assms(5) by (simp_all add: b) (simp add: cbuf_def)
  have eq: "is_trusted_path_normalize dirs b wp = is_trusted_path_normalize dirs (cbuf s) (length s)"
    using c assms(2) by (simp add: is_trusted_path_normalize_def)
  obtain out where out: "normalize_loop (length s + 2) [] s = Inr out" "length out \<le> length s"
    using normalize_loop_fits [of "[]" s "length s + 2"] by auto
  have "\<exists>t. is_trusted_path_normalize dirs (cbuf s) (length s) = Inr t"
    using out c(3) assms(5) by (cases "s = []") (auto simp: is_trusted_path_normalize_def push_char_def)
  with eq show ?thesis by (auto simp: trusted_text_def)
qed

lemma substitute_run:
  assumes "fits_dst env l m" "length input + dl_dst_count input * (m - 4) < length b" "input \<noteq> []"
    and "\<not> (enable_secure env \<and> l_type l = lt_executable) \<or> cleared 0 b \<and> nul_free (expand_text env l input)"
  shows "\<exists>junk. dl_dst_substitute env l input b =
    Inr ((if to_check env l (dst_items True input) False \<and> \<not> trusted_text (system_dirs env) (expand_text env l input)
          then [] else expand_text env l input) @ NUL # junk)"
proof -
  have sub: "substituted b 0 (items_text env l (dst_items True input)) (to_check env l (dst_items True input) False)
      (substitute_loop env l True input b 0 False)"
    using substitute_loop_items [OF assms(1), of 0 input b True False] assms(2) by simp
  have "0 < length b" using assms(2) by linarith
  then have start: "\<exists>junk. put_chars [NUL] 0 b' = Inr (NUL # junk)" if "length b' = length b" for b'
    using put_end [of 0 b' "[]"] that by simp
  show ?thesis
  proof (cases "items_text env l (dst_items True input)")
    case None
    then show ?thesis using sub start [of b] assms(3) by (simp add: dl_dst_substitute_def expand_text_def)
  next
    case (Some s)
    then obtain b' where b': "substitute_loop env l True input b 0 False =
          Inr (Some (b', length s, to_check env l (dst_items True input) False))"
        "length b' = length b" "length s < length b'" "take (length s) b' = s" "cleared 0 b \<longrightarrow> cleared (length s) b'"
      using sub by (auto simp: substituted_def)
    have tx: "expand_text env l input = s" using Some by (simp add: expand_text_def)
    note fin = put_end [OF b'(3,4)]
    show ?thesis
    proof (cases "to_check env l (dst_items True input) False")
      case False
      then show ?thesis using b'(1) fin assms(3) tx by (simp add: dl_dst_substitute_def)
    next
      case True
      then have "enable_secure env \<and> l_type l = lt_executable" by (auto simp: to_check_def split: if_splits)
      then have "is_trusted_path_normalize (system_dirs env) b' (length s) = Inr (trusted_text (system_dirs env) s)"
        using b' assms(4) tx by (intro trusted_cleared) auto
      then show ?thesis using b'(1) fin start [OF b'(2)] assms(3) tx True
        by (cases "trusted_text (system_dirs env) s") (simp_all add: dl_dst_substitute_def)
    qed
  qed
qed
lemma items_literal: "dl_dst_count input = 0 \<Longrightarrow> items_text env l (dst_items at_start input) = Some input"
proof (induction input arbitrary: at_start)
  case (Cons c input)
  then have "c = CHR ''$'' \<Longrightarrow> dst_length input = 0" by (simp split: if_splits)
  then have "dst_items at_start (c # input) = Lit c # dst_items False input"
    using first_token_length [of at_start input] by (cases "c = CHR ''$''") simp_all
  moreover have "dl_dst_count input = 0"
    using Cons.prems by (cases "c = CHR ''$''") (simp_all split: if_splits)
  ultimately show ?case using Cons.IH [of False] by (simp add: item_text_def)
qed simp

lemma literal_no_origin: "dl_dst_count input = 0 \<Longrightarrow> \<not> has_origin (dst_items at_start input)"
proof (induction input arbitrary: at_start)
  case (Cons c input)
  then have "c = CHR ''$'' \<Longrightarrow> dst_length input = 0" by (simp split: if_splits)
  then have "dst_items at_start (c # input) = Lit c # dst_items False input"
    using first_token_length [of at_start input] by (cases "c = CHR ''$''") simp_all
  moreover have "dl_dst_count input = 0"
    using Cons.prems by (cases "c = CHR ''$''") (simp_all split: if_splits)
  ultimately show ?case using Cons.IH [of False] by (simp add: has_origin_def)
qed (simp add: has_origin_def)

text \<open>The map after the origin is known.\<close>

definition with_origin :: "origin \<Rightarrow> string \<Rightarrow> 'a dst_map_scheme \<Rightarrow> 'a dst_map_scheme" where
  "with_origin r input l =
     (if dl_dst_count input \<noteq> 0 \<and> l_origin l = Origin_null then l\<lparr>l_origin := r\<rparr> else l)"

definition dst_ready :: "dst_env \<Rightarrow> origin res \<Rightarrow> bool \<Rightarrow> (nat \<Rightarrow> char list option) \<Rightarrow> 'a dst_map_scheme \<Rightarrow> origin \<Rightarrow> bool" where
  "dst_ready env get_origin is_rtld malloc l r \<longleftrightarrow>
     (\<forall>n b. malloc n = Some b \<longrightarrow> length b = n) \<and>
     (\<forall>s. platform env = Some s \<longrightarrow> platformlen env = length s) \<and>
     (l_origin l = Origin_null \<longrightarrow> get_origin = Inr r \<and> (l_name l = [] \<or> is_rtld))"

lemma required_fits:
  assumes "dst_ready env get_origin is_rtld malloc l r" "cnt \<noteq> 0"
  obtains m where "dl_dst_required env get_origin is_rtld l len cnt =
      Inr (len + cnt * (m - 4), if l_origin l = Origin_null then l\<lparr>l_origin := r\<rparr> else l)"
    "fits_dst env (if l_origin l = Origin_null then l\<lparr>l_origin := r\<rparr> else l) m"
proof -
  define l' where "l' = (if l_origin l = Origin_null then l\<lparr>l_origin := r\<rparr> else l)"
  define m where "m = max (max (origin_length (l_origin l')) (platformlen env)) (length (dst_lib env))"
  have "(if l_origin l = Origin_null then
       if l_name l \<noteq> [] \<and> \<not> is_rtld then Inl Assert_fail else rbind get_origin (\<lambda>r. Inr (l\<lparr>l_origin := r\<rparr>))
     else Inr l) = Inr l'"
    using assms(1) by (auto simp: dst_ready_def l'_def)
  then have run: "dl_dst_required env get_origin is_rtld l len cnt = Inr (if 4 < m then len + cnt * (m - 4) else len, l')"
    using assms(2) by (simp only: dl_dst_required_def if_False rbind_simps Let_def flip: m_def)
  have fits: "fits_dst env l' m"
    using assms(1) by (auto simp: fits_dst_def m_def dst_ready_def origin_length_def)
  have "(if 4 < m then len + cnt * (m - 4) else len) = len + cnt * (m - 4)" by simp
  with run fits show thesis unfolding l'_def by (intro that [of m]) simp_all
qed

lemma expand_run:
  assumes ready: "dst_ready env get_origin is_rtld malloc l r" and l': "l' = with_origin r input l"
    and mem: "\<not> (enable_secure env \<and> l_type l = lt_executable) \<or>
      (\<forall>n b. malloc n = Some b \<longrightarrow> b = replicate n NUL) \<and> nul_free (expand_text env l' input)"
  shows "\<exists>x. expand_dynamic_string_token env get_origin is_rtld malloc l input = Inr (x, l') \<and>
    ((\<forall>n. malloc n \<noteq> None) \<longrightarrow> x \<noteq> None) \<and>
    (\<forall>b. x = Some b \<longrightarrow> (\<exists>junk. b =
      (if to_check env l' (dst_items True input) False \<and> \<not> trusted_text (system_dirs env) (expand_text env l' input)
       then [] else expand_text env l' input) @ NUL # junk))"
proof (cases "dl_dst_count input = 0")
  case True
  then show ?thesis using literal_no_origin [OF True]
    by (auto simp: expand_dynamic_string_token_def l' with_origin_def expand_text_def items_literal to_check_def
        cbuf_def split: option.splits)
next
  case False
  then have ne: "input \<noteq> []" by auto
  obtain m where req: "dl_dst_required env get_origin is_rtld l (length input) (dl_dst_count input) =
      Inr (length input + dl_dst_count input * (m - 4), l')" and fits: "fits_dst env l' m"
    using required_fits [OF ready False, of "length input"] False unfolding l' with_origin_def by auto
  let ?n = "length input + dl_dst_count input * (m - 4) + 1"
  show ?thesis
  proof (cases "malloc ?n")
    case None
    then show ?thesis using False req by (auto simp: expand_dynamic_string_token_def)
  next
    case (Some b)
    then have len: "length b = ?n" using ready by (auto simp: dst_ready_def)
    have ty: "l_type l' = l_type l" by (simp add: l' with_origin_def)
    have "cleared 0 b" if "b = replicate ?n NUL" unfolding that by (auto simp: cleared_def)
    then have "\<not> (enable_secure env \<and> l_type l' = lt_executable) \<or> cleared 0 b \<and> nul_free (expand_text env l' input)"
      using mem Some ty by metis
    from substitute_run [OF fits _ ne this] len obtain junk where "dl_dst_substitute env l' input b =
        Inr ((if to_check env l' (dst_items True input) False \<and> \<not> trusted_text (system_dirs env) (expand_text env l' input)
          then [] else expand_text env l' input) @ NUL # junk)" by auto
    then show ?thesis using False req Some by (auto simp: expand_dynamic_string_token_def)
  qed
qed
section \<open>Properties\<close>

text \<open>C22: unless the map is the executable of a secure process, \<open>expand_dynamic_string_token\<close> returns, without a
  fault, the name with every token replaced by its text, and the empty string when a token has no
  replacement; the size it allocates is always enough.\<close>

theorem expand_dynamic_string_token_correct:
  assumes "dst_ready env get_origin is_rtld malloc l r" "\<not> (enable_secure env \<and> l_type l = lt_executable)"
    and "l' = with_origin r input l"
  shows "\<exists>x. expand_dynamic_string_token env get_origin is_rtld malloc l input = Inr (x, l') \<and>
    ((\<forall>n. malloc n \<noteq> None) \<longrightarrow> x \<noteq> None) \<and>
    (\<forall>b. x = Some b \<longrightarrow> (\<exists>junk. b = expand_text env l' input @ NUL # junk))"
proof -
  have "\<not> to_check env l' (dst_items True input) False"
    using assms(2,3) by (auto simp: to_check_def with_origin_def)
  then show ?thesis using expand_run [OF assms(1,3)] assms(2) by simp
qed

lemma prefix_take: "length d \<le> length xs \<and> take (length d) xs = d \<longleftrightarrow> prefix d xs"
  by (auto simp: prefix_def) (metis append_take_drop_id)

lemma resolve_comps_ok:
  "\<forall>c \<in> set ds. comp_ok c \<Longrightarrow> \<forall>c \<in> set st. comp_ok c \<Longrightarrow> \<forall>c \<in> set (resolve_comps st ds). comp_ok c"
proof (induction ds arbitrary: st)
  case (Cons c ds)
  have st: "\<forall>d \<in> set (butlast st). comp_ok d" "\<forall>d \<in> set (st @ [c]). comp_ok d"
    using Cons.prems by (auto dest: in_set_butlastD)
  have ds: "\<forall>d \<in> set ds. comp_ok d" using Cons.prems(1) by simp
  show ?case
    unfolding resolve_comps.simps using Cons.IH [OF ds st(1)] Cons.IH [OF ds st(2)] Cons.IH [OF ds Cons.prems(2)]
    by presburger
qed simp

lemma trusted_resolves:
  assumes "\<forall>c \<in> set cs. comp_ok c" "cs \<noteq> []"
  shows "is_trusted_path_normalize dirs (cbuf (path_of cs)) (length (path_of cs)) =
    Inr (\<exists>dir \<in> set dirs. prefix dir (path_of (resolve_comps [] cs) @ [slash]))"
proof -
  define r where "r = path_of (resolve_comps [] cs)"
  define p where "p = path_of cs"
  have run: "normalize_loop (length p + 2) [] p = Inr (rev r)"
    using normalize_resolves [OF assms(1), of "[]" "length p + 2"] by (simp add: r_def p_def)
  have len: "length (rev r) < length p + 2"
    using normalize_loop_fits [of "[]" p "length p + 2"] run by auto
  have "cget (rev r) 0 \<noteq> slash"
    using resolve_comps_ok [OF assms(1), of "[]"] unfolding r_def by (intro top_char) simp
  then have out: "(if cget (rev r) 0 = slash then Inr (rev r) else push_char (length p + 2) slash (rev r)) =
      Inr (rev (r @ [slash]))" using len by (simp add: push_char_def)
  have "nul_free p" using path_of_nul_free [OF assms(1)] by (simp add: p_def)
  then have p: "cstr (cbuf p) = p" by simp
  have q: "p \<noteq> []" "NUL \<in> set (cbuf p)" using assms(2) by (cases cs; simp add: p_def) (simp add: cbuf_def)
  have "is_trusted_path_normalize dirs (cbuf p) (length p) =
      Inr (list_ex (\<lambda>dir. length dir \<le> length (r @ [slash]) \<and> take (length dir) (r @ [slash]) = dir) dirs)"
    using q unfolding is_trusted_path_normalize_def p run rbind_simps out by simp
  then show ?thesis unfolding prefix_take list_ex_iff r_def p_def .
qed

text \<open>C23: in a secure process, when the expansion of a name with \<open>$ORIGIN\<close> for the executable is a path without empty
  components, the path lies in one of the system directories once its dot and dot-dot components are resolved, provided the
  allocator returns cleared memory.  Doubled slashes are excluded: with them the test lets other paths pass.\<close>

theorem expand_secure_trusted:
  assumes "dst_ready env get_origin is_rtld malloc l r" "enable_secure env" "l_type l = lt_executable"
    and "\<forall>n b. malloc n = Some b \<longrightarrow> b = replicate n NUL" "nul_free (expand_text env (with_origin r input l) input)"
    and "has_origin (dst_items True input)"
    and "expand_dynamic_string_token env get_origin is_rtld malloc l input = Inr (Some b, l')"
    and "cstr b = path_of cs" "\<forall>c \<in> set cs. comp_ok c" "cs \<noteq> []"
  shows "\<exists>dir \<in> set (system_dirs env). prefix dir (path_of (resolve_comps [] cs) @ [slash])"
proof -
  let ?l = "with_origin r input l" and ?t = "expand_text env (with_origin r input l) input"
  have ck: "to_check env ?l (dst_items True input) False"
    using assms(2,3,6) by (simp add: to_check_def with_origin_def)
  obtain junk where "b = (if \<not> trusted_text (system_dirs env) ?t then [] else ?t) @ NUL # junk"
    using expand_run [OF assms(1) refl, of input] assms(2-5,7) ck by auto
  then have "cstr b = (if trusted_text (system_dirs env) ?t then ?t else [])"
    using assms(5) by (auto split: if_splits)
  moreover have "path_of cs \<noteq> []" using assms(10) by (cases cs) simp_all
  ultimately have "trusted_text (system_dirs env) (path_of cs)" using assms(8) by (auto split: if_splits)
  then show ?thesis using trusted_resolves [OF assms(9,10)] by (simp add: trusted_text_def)
qed

text \<open>C24: on a path without empty components \<open>is_trusted_path_normalize\<close> decides whether the path, with dot
  and dot-dot components resolved by a stack, starts with a system directory.\<close>

theorem is_trusted_path_normalize_resolves:
  assumes "\<forall>c \<in> set cs. comp_ok c" "cs \<noteq> []"
  shows "is_trusted_path_normalize dirs (cbuf (path_of cs)) (length (path_of cs)) =
    Inr (\<exists>dir \<in> set dirs. prefix dir (path_of (resolve_comps [] cs) @ [slash]))"
  using assms by (rule trusted_resolves)
lemma normalize_double_slash:
  assumes "comp_ok c" "c \<noteq> ''.''" "c \<noteq> ''..''" "comp_ok x" "x \<noteq> ''.''" "x \<noteq> ''..''"
  shows "normalize_loop (length c + length x + 8) [] (path_of [c] @ ''//..'' @ path_of [x]) = Inr (rev (path_of [c, x]))"
proof -
  let ?cap = "length c + length x + 8" and ?t = "''//..'' @ path_of [x]"
  have sl: "slash \<notin> set c" using assms(1) by (simp add: comp_ok_def)
  have d: "\<not> at_dot_dot slash (c @ ?t)" "\<not> at_dot slash (c @ ?t)"
    using dots_component [OF assms(1), of "[[], ''..'', x]"] assms(2,3) by simp_all
  have "normalize_loop ?cap [] (path_of [c] @ ?t) = normalize_loop ?cap (rev (path_of [c])) ?t"
    using normalize_step(4) [OF d, of "[]" ?cap] normalize_plain [OF sl, of "[slash]" ?cap ?t] by simp
  also have "\<dots> = normalize_loop ?cap (slash # rev (path_of [c])) (''/..'' @ path_of [x])"
    using normalize_step(4) [of slash "''/..'' @ path_of [x]" "rev (path_of [c])" ?cap] top_char [of "[c]"] assms(1)
    by (simp add: at_dot_dot_def at_dot_def)
  also have "\<dots> = normalize_loop ?cap (rev (path_of [c])) (path_of [x])"
    using normalize_step(1) [of slash "''..'' @ path_of [x]" ?cap "slash # rev (path_of [c])"]
    by (simp add: at_dot_dot_def back_up_def)
  also have "\<dots> = Inr (rev (path_of [c, x]))"
    using normalize_resolves [of "[x]" "[c]" ?cap] assms by simp
  finally show ?thesis .
qed

lemma prefix_dir: "comp_ok c \<Longrightarrow> comp_ok x \<Longrightarrow> prefix (path_of [c] @ [slash]) (path_of [x] @ [slash]) \<Longrightarrow> c = x"
proof -
  assume ok: "comp_ok c" "comp_ok x" and "prefix (path_of [c] @ [slash]) (path_of [x] @ [slash])"
  then obtain z where "c @ slash # z = x @ [slash]" by (auto simp: prefix_def)
  moreover have tw: "takeWhile (\<lambda>a. a \<noteq> slash) (y @ slash # z) = y" if "slash \<notin> set y" for y z
    using that by (induction y) auto
  ultimately show "c = x" using ok unfolding comp_ok_def by metis
qed

text \<open>C37: a doubled slash in front of a dot-dot component hides the component: \<open>/c//../x\<close> is accepted for
  the system directory \<open>/c/\<close> although the path resolves to \<open>/x\<close>.\<close>

theorem is_trusted_double_slash:
  assumes "comp_ok c" "c \<noteq> ''.''" "c \<noteq> ''..''" "comp_ok x" "x \<noteq> ''.''" "x \<noteq> ''..''" "x \<noteq> c"
    and "p = path_of [c] @ ''//..'' @ path_of [x]"
  shows "is_trusted_path_normalize [path_of [c] @ [slash]] (cbuf p) (length p) = Inr True \<and>
    \<not> prefix (path_of [c] @ [slash]) (path_of (resolve_comps [] [c, ''..'', x]) @ [slash])"
proof
  have len: "length p + 2 = length c + length x + 8" by (simp add: assms(8))
  have nf: "cstr (cbuf p) = p" using assms(1,4,8) by (intro cstr_cbuf) (simp add: comp_ok_def)
  have run: "normalize_loop (length p + 2) [] p = Inr (rev (path_of [c, x]))"
    unfolding len using normalize_double_slash [OF assms(1-6)] assms(8) by simp
  have top: "cget (rev (path_of [c, x])) 0 \<noteq> slash" using assms(1,4) by (intro top_char) simp
  then have out: "(if cget (rev (path_of [c, x])) 0 = slash then Inr (rev (path_of [c, x]))
      else push_char (length p + 2) slash (rev (path_of [c, x]))) = Inr (rev (path_of [c, x] @ [slash]))"
    by (simp add: push_char_def assms(8))
  have q: "p \<noteq> []" "NUL \<in> set (cbuf p)" by (simp_all add: assms(8) cbuf_def)
  have "is_trusted_path_normalize [path_of [c] @ [slash]] (cbuf p) (length p) =
      Inr (prefix (path_of [c] @ [slash]) (path_of [c, x] @ [slash]))"
    using q unfolding is_trusted_path_normalize_def nf run rbind_simps out prefix_take [symmetric] by simp
  then show "is_trusted_path_normalize [path_of [c] @ [slash]] (cbuf p) (length p) = Inr True" by simp
  have "resolve_comps [] [c, ''..'', x] = [x]" using assms(2,3,5,6) by simp
  then show "\<not> prefix (path_of [c] @ [slash]) (path_of (resolve_comps [] [c, ''..'', x]) @ [slash])"
    using prefix_dir [OF assms(1,4)] assms(7) by metis
qed
definition demo_env :: dst_env where
  "demo_env = \<lparr>enable_secure = True, platform = Some ''haswell'', platformlen = 7,
     dst_lib = ''lib/x86_64-linux-gnu'', system_dirs = [''/lib/'', ''/usr/lib/'']\<rparr>"

definition demo_map :: dst_map where
  "demo_map = \<lparr>l_name = [], l_origin = Origin ''/usr/bin'', l_type = lt_executable\<rparr>"

lemma normalize_walk:
  assumes "\<forall>c \<in> set cs. comp_ok c \<and> c \<noteq> ''.'' \<and> c \<noteq> ''..''" "\<forall>c \<in> set st. comp_ok c"
    and "length (path_of st) + length (path_of cs) \<le> cap"
  shows "normalize_loop cap (rev (path_of st)) (path_of (cs @ ds)) = normalize_loop cap (rev (path_of (st @ cs))) (path_of ds)"
  using assms
proof (induction cs arbitrary: st)
  case (Cons c cs)
  then have ok: "comp_ok c" by simp
  have "normalize_loop cap (rev (path_of st)) (path_of ((c # cs) @ ds)) =
      normalize_loop cap (slash # rev (path_of st)) (c @ path_of (cs @ ds))"
    using dots_component [OF ok, of "cs @ ds"] Cons.prems top_char [OF Cons.prems(2)] by (simp add: normalize_step)
  also have "\<dots> = normalize_loop cap (rev (path_of (st @ [c]))) (path_of (cs @ ds))"
    using normalize_plain [of c "slash # rev (path_of st)" cap "path_of (cs @ ds)"] ok Cons.prems(3)
    by (simp add: comp_ok_def)
  also have "\<dots> = normalize_loop cap (rev (path_of ((st @ [c]) @ cs))) (path_of ds)"
    using Cons.IH [of "st @ [c]"] Cons.prems ok by simp
  finally show ?case by simp
qed simp

lemma normalize_plain_overflow:
  "slash \<notin> set c \<Longrightarrow> length out \<le> cap \<Longrightarrow> cap < length out + length c \<Longrightarrow> normalize_loop cap out c = Inl Oob_write"
proof (induction c arbitrary: out)
  case (Cons a c)
  then show ?case
    by (cases "length out < cap") (auto simp: normalize_loop.simps(2) push_char_def)
qed simp

text \<open>A path of plain components that is longer than the buffer for its normal form.\<close>

lemma trusted_overflow:
  assumes "\<forall>c \<in> set cs. comp_ok c \<and> c \<noteq> ''.'' \<and> c \<noteq> ''..''" "comp_ok d" "d \<noteq> ''.''" "d \<noteq> ''..''"
    and "cstr b = path_of (cs @ [d])" "NUL \<in> set b" "length (path_of cs) < len" "len + 2 \<le> length (path_of (cs @ [d]))"
  shows "is_trusted_path_normalize dirs b len = Inl Oob_write"
proof -
  let ?out = "slash # rev (path_of cs)"
  have d: "slash \<notin> set d" using assms(2) by (simp add: comp_ok_def)
  have "normalize_loop (len + 2) [] (path_of (cs @ [d])) = normalize_loop (len + 2) (rev (path_of cs)) (path_of [d])"
    using normalize_walk [OF assms(1), of "[]" "len + 2" "[d]"] assms(7) by simp
  also have "\<dots> = normalize_loop (len + 2) ?out d"
    using dots_component [OF assms(2), of "[]"] assms(1,3,4,7) top_char [of cs] by (simp add: normalize_step)
  finally have run: "normalize_loop (len + 2) [] (cstr b) = normalize_loop (len + 2) ?out d" using assms(5) by simp
  show ?thesis
  proof (cases "len + 2 < length (path_of (cs @ [d]))")
    case True
    then have "normalize_loop (len + 2) ?out d = Inl Oob_write"
      using d assms(7) by (intro normalize_plain_overflow) simp_all
    then show ?thesis using run assms(6,7) by (simp add: is_trusted_path_normalize_def)
  next
    case False
    then have "normalize_loop (len + 2) ?out d = Inr (rev (path_of (cs @ [d])))"
      using normalize_plain [of d ?out "len + 2" "[]"] d by simp
    moreover have "cget (rev (path_of (cs @ [d]))) 0 \<noteq> slash" using assms(1,2) by (intro top_char) simp
    moreover have "length (path_of (cs @ [d])) = len + 2" using False assms(8) by simp
    ultimately show ?thesis using run assms(6,7) by (simp add: is_trusted_path_normalize_def push_char_def)
  qed
qed

lemma substitute_plain:
  "CHR ''$'' \<notin> set name \<Longrightarrow> wp + length name \<le> length b \<Longrightarrow>
   substitute_loop env l False name b wp check = Inr (Some (take wp b @ name @ drop (wp + length name) b, wp + length name, check))"
proof (induction name arbitrary: b wp)
  case (Cons c name)
  have "put_chars [c] wp b = Inr (take wp b @ c # drop (wp + 1) b)" using Cons.prems(2) by (simp add: put_chars_run)
  moreover have "c \<noteq> CHR ''$''" using Cons.prems(1) by auto
  ultimately show ?case using Cons by (simp add: Suc_diff_le min_def add.commute)
qed simp

lemma substitute_origin:
  assumes "l_origin l = Origin org" "CHR ''$'' \<notin> set name" "length org + 1 + length name < length b"
  shows "substitute_loop env l True (''$ORIGIN/'' @ name) b 0 False =
    Inr (Some ((org @ slash # name) @ drop (length (org @ slash # name)) b, length (org @ slash # name),
      enable_secure env \<and> l_type l = lt_executable))"
proof -
  let ?check = "enable_secure env \<and> l_type l = lt_executable" and ?b = "org @ NUL # drop (Suc (length org)) b"
  have "is_dst (''ORIGIN/'' @ name) ''ORIGIN'' = 6" by (simp add: is_dst_def ident_char_def isalpha_def isdigit_def)
  then have "dst_replacement env l True (''ORIGIN/'' @ name) False = (Origin org, ?check)" "dst_length (''ORIGIN/'' @ name) = 6"
    using assms(1) by (simp_all add: dst_replacement_def dst_length_def)
  moreover have "put_chars (org @ [NUL]) 0 b = Inr ?b" using assms(3) by (simp add: put_chars_run)
  ultimately have "substitute_loop env l True (''$ORIGIN/'' @ name) b 0 False =
      substitute_loop env l False (slash # name) ?b (length org) ?check"
    by simp
  also have "\<dots> = Inr (Some (take (length org) ?b @ (slash # name) @ drop (length org + length (slash # name)) ?b,
      length org + length (slash # name), ?check))"
    using assms(2,3) by (intro substitute_plain) simp_all
  finally show ?thesis by (simp add: add.commute)
qed

text \<open>C38: for the executable of a secure process the decision on \<open>$ORIGIN/name\<close> is made before the terminator is written: it
  reads on in what the allocated memory holds behind the path.  Two bytes or more there, none of them a slash, before the first
  null byte, and it writes behind the buffer of the normal form, whatever the origin and the name.\<close>

theorem substitute_stale_memory:
  assumes "enable_secure env" "l_type l = lt_executable" "l_origin l = Origin (path_of cs)"
    and "\<forall>c \<in> set cs. comp_ok c \<and> c \<noteq> ''.'' \<and> c \<noteq> ''..''" "comp_ok name" "CHR ''$'' \<notin> set name"
    and "drop (length (path_of (cs @ [name]))) b = junk @ NUL # after" "nul_free junk" "slash \<notin> set junk" "2 \<le> length junk"
  shows "dl_dst_substitute env l (''$ORIGIN/'' @ name) b = Inl Oob_write"
proof -
  let ?p = "path_of (cs @ [name])" and ?d = "name @ junk"
  have "length ?p < length b" using arg_cong [OF assms(7), of length] by simp
  then have run: "substitute_loop env l True (''$ORIGIN/'' @ name) b 0 False = Inr (Some (?p @ junk @ NUL # after, length ?p, True))"
    using substitute_origin [OF assms(3,6), of b env] assms(1,2,7) by simp
  have "name \<noteq> []" using assms(5) by (simp add: comp_ok_def)
  then have long: "3 \<le> length ?d" using assms(10) by (cases name) simp_all
  then have dots: "?d \<noteq> ''.''" "?d \<noteq> ''..''" by (auto dest: arg_cong [of _ _ length])
  have d: "comp_ok ?d" using assms(5,8,9) by (simp add: comp_ok_def nul_free_def)
  have b: "cstr (?p @ junk @ NUL # after) = path_of (cs @ [?d])"
    using cstr_append_nul [of "?p @ junk" after] path_of_nul_free [of "cs @ [name]"] assms(4,5,8) by simp
  have "is_trusted_path_normalize (system_dirs env) (?p @ junk @ NUL # after) (length ?p) = Inl Oob_write"
    by (rule trusted_overflow [OF assms(4) d dots b]) (use long assms(10) in auto)
  then show ?thesis using run by (simp add: dl_dst_substitute_def)
qed

theorem substitute_stale_memory_witness:
  "dl_dst_substitute demo_env demo_map ''$ORIGIN/a'' (replicate 12 CHR ''x'' @ [NUL]) = Inl Oob_write"
  using substitute_stale_memory [of demo_env demo_map "[''usr'', ''bin'']" "''a''" "replicate 12 CHR ''x'' @ [NUL]" "''xx''" "[]"]
  by (simp add: demo_env_def demo_map_def comp_ok_def nul_free_def numeral_eq_Suc)

theorem expand_dynamic_string_token_correct_witness:
  "\<exists>x. expand_dynamic_string_token (demo_env\<lparr>enable_secure := False\<rparr>) (Inr Origin_unknown) False
      (\<lambda>n. Some (replicate n CHR ''x'')) demo_map ''${ORIGIN}/../$LIB:$X'' = Inr (x, demo_map) \<and> x \<noteq> None"
proof -
  have "dst_ready (demo_env\<lparr>enable_secure := False\<rparr>) (Inr Origin_unknown) False
      (\<lambda>n. Some (replicate n CHR ''x'')) demo_map Origin_unknown"
    by (auto simp: dst_ready_def demo_env_def demo_map_def)
  from expand_dynamic_string_token_correct [OF this _ refl, of "''${ORIGIN}/../$LIB:$X''"]
  show ?thesis by (auto simp: demo_env_def demo_map_def with_origin_def)
qed

lemma demo_ready:
  "dst_ready demo_env (Inr Origin_unknown) False (\<lambda>n. Some (replicate n NUL)) demo_map Origin_unknown"
  by (auto simp: dst_ready_def demo_env_def demo_map_def)

lemma demo_expands:
  "expand_dynamic_string_token demo_env (Inr Origin_unknown) False (\<lambda>n. Some (replicate n NUL)) demo_map
     ''$ORIGIN/../lib/app'' = Inr (Some (''/usr/bin/../lib/app'' @ replicate 16 NUL), demo_map)"
  by code_simp

theorem expand_secure_trusted_witness:
  "list_ex (\<lambda>dir. prefix dir (path_of (resolve_comps [] [''usr'', ''bin'', ''..'', ''lib'', ''app'']) @ [slash]))
     (system_dirs demo_env)"
proof -
  have "with_origin Origin_unknown ''$ORIGIN/../lib/app'' demo_map = demo_map"
    by (simp add: with_origin_def demo_map_def)
  moreover have "expand_text demo_env demo_map ''$ORIGIN/../lib/app'' = ''/usr/bin/../lib/app''" by code_simp
  moreover have "has_origin (dst_items True ''$ORIGIN/../lib/app'')" by code_simp
  ultimately show ?thesis
    using expand_secure_trusted [OF demo_ready _ _ _ _ _ demo_expands, of "[''usr'', ''bin'', ''..'', ''lib'', ''app'']"]
    unfolding list_ex_iff by (simp add: demo_env_def demo_map_def comp_ok_def nul_free_def numeral_eq_Suc)
qed

theorem is_trusted_path_normalize_resolves_witness:
  "is_trusted_path_normalize [''/lib/''] (cbuf ''/usr/../lib/./x'') 15 = Inr True"
  using is_trusted_path_normalize_resolves [of "[''usr'', ''..'', ''lib'', ''.'', ''x'']" "[''/lib/'']"]
  by (simp add: comp_ok_def nul_free_def numeral_eq_Suc)

theorem is_trusted_double_slash_witness:
  "is_trusted_path_normalize [''/lib/''] (cbuf ''/lib//../home'') 13 = Inr True"
  using is_trusted_double_slash [of "''lib''" "''home''" "''/lib//../home''"]
  by (simp add: comp_ok_def nul_free_def numeral_eq_Suc)

end
