(* ===== verification/SearchPathSpec.thy ===== *)
theory SearchPathSpec
  imports SearchPath
begin

text \<open>
  What the search paths of elf/dl-load.c promise: the directories of a path list, the inhibition
  list, the descriptor array, and the agreement of the two passes of the path query.
\<close>

section \<open>The directories of a path list\<close>

text \<open>The reference for one field: nothing when it expands to nothing, and otherwise the text with exactly one slash at its end.\<close>

definition with_slash :: "string \<Rightarrow> string" where
  "with_slash t = (let u = rev (dropWhile (\<lambda>c. c = slash) (rev t)) in if u = [] then ''/'' else u @ ''/'')"

definition known_origin :: "origin \<Rightarrow> link_map \<Rightarrow> link_map" where
  "known_origin r l = (if l_origin l = Origin_null then l\<lparr>l_origin := r\<rparr> else l)"

definition field_dir :: "ld_env \<Rightarrow> link_map \<Rightarrow> string \<Rightarrow> string option" where
  "field_dir env l f =
     (if f = [] then Some []
      else let t = expand_text (dst env) l f in if t = [] then None else Some (with_slash t))"

text \<open>The elements have addresses and names of their own.\<close>

definition dirs_ok :: "path_state \<Rightarrow> bool" where
  "dirs_ok st \<longleftrightarrow>
     distinct (map fst (all_dirs st)) \<and> (\<forall>p \<in> fst ` set (all_dirs st). p < length (all_dirs st)) \<and>
     distinct (map (dirname \<circ> snd) (all_dirs st))"

definition dir_name :: "path_state \<Rightarrow> nat \<Rightarrow> string" where
  "dir_name st p = (case map_of (all_dirs st) p of None \<Rightarrow> [] | Some e \<Rightarrow> dirname e)"

text \<open>\<open>st'\<close> has the elements of \<open>st\<close> and maybe more.\<close>

definition extends :: "path_state \<Rightarrow> path_state \<Rightarrow> bool" where
  "extends st st' \<longleftrightarrow> (\<forall>p e. map_of (all_dirs st) p = Some e \<longrightarrow> map_of (all_dirs st') p = Some e)"

lemma extends_refl [simp]: "extends st st"
  by (simp add: extends_def)

lemma extends_trans: "extends a b \<Longrightarrow> extends b c \<Longrightarrow> extends a c"
  by (auto simp: extends_def)

definition on_list :: "path_state \<Rightarrow> nat list \<Rightarrow> bool" where
  "on_list st ps \<longleftrightarrow> set ps \<subseteq> dom (map_of (all_dirs st))"

lemma extends_names: "extends st st' \<Longrightarrow> on_list st ps \<Longrightarrow> on_list st' ps \<and> map (dir_name st') ps = map (dir_name st) ps"
  by (auto simp: extends_def on_list_def dir_name_def domIff subset_iff split: option.splits)

definition add_new :: "'a list \<Rightarrow> 'a \<Rightarrow> 'a list" where
  "add_new acc d = (if d \<in> set acc then acc else acc @ [d])"

lemma foldl_add_new: "foldl add_new [] ds = rev (remdups (rev ds))"
proof (induction ds rule: rev_induct)
  case (snoc d ds)
  then show ?case by (simp add: add_new_def)
qed simp

lemma find_member: "find P xs = Some x \<Longrightarrow> x \<in> set xs \<and> P x"
  by (induction xs) (auto split: if_splits)

lemma known_dir_Some:
  assumes "known_dir st d = Some p" "dirs_ok st"
  shows "p \<in> dom (map_of (all_dirs st))" "dir_name st p = d"
proof -
  from assms(1) obtain e where "find (\<lambda>(p, e). dirname e = d) (all_dirs st) = Some (p, e)"
    by (auto simp: known_dir_def)
  then have "(p, e) \<in> set (all_dirs st)" "dirname e = d" by (auto dest: find_member)
  moreover from this assms(2) have "map_of (all_dirs st) p = Some e" by (simp add: dirs_ok_def)
  ultimately show "p \<in> dom (map_of (all_dirs st))" "dir_name st p = d" by (auto simp: dir_name_def)
qed

lemma known_dir_None: "known_dir st d = None \<Longrightarrow> d \<notin> (dirname \<circ> snd) ` set (all_dirs st)"
  by (fastforce simp: known_dir_def find_None_iff)

lemma dir_name_inj:
  assumes "dirs_ok st" "p \<in> dom (map_of (all_dirs st))" "q \<in> dom (map_of (all_dirs st))" "dir_name st p = dir_name st q"
  shows "p = q"
proof -
  obtain e f where e: "map_of (all_dirs st) p = Some e" "map_of (all_dirs st) q = Some f" using assms(2,3) by auto
  then have "(p, e) \<in> set (all_dirs st)" "(q, f) \<in> set (all_dirs st)" by (auto dest: map_of_SomeD)
  moreover have "dirname e = dirname f" using e assms(4) by (simp add: dir_name_def)
  moreover have "inj_on (dirname \<circ> snd) (set (all_dirs st))"
    using assms(1) by (simp add: dirs_ok_def distinct_map)
  ultimately have "(p, e) = (q, f)" by (intro inj_onD [of "dirname \<circ> snd"]) simp_all
  then show ?thesis by simp
qed
definition mem_ok :: "ld_env \<Rightarrow> bool" where
  "mem_ok env \<longleftrightarrow> (\<forall>n. malloc env n \<noteq> None)"

lemma dir_name_member:
  assumes "q \<in> dom (map_of (all_dirs st))"
  shows "dir_name st q \<in> (dirname \<circ> snd) ` set (all_dirs st)"
proof -
  obtain f where "map_of (all_dirs st) q = Some f" using assms by auto
  moreover from this have "(q, f) \<in> set (all_dirs st)" by (rule map_of_SomeD)
  ultimately show ?thesis by (force simp: dir_name_def)
qed

lemma new_dir_run:
  assumes "mem_ok env"
  shows "\<exists>e. dirname e = d \<and> new_dir env d wh wr st =
    Inr (length (all_dirs st), st\<lparr>all_dirs := (length (all_dirs st), e) # all_dirs st,
      max_dirnamelen := max (max_dirnamelen st) (length d)\<rparr>)"
proof -
  define n where "n = 40 + 4 * length (capstr env) + (case wr of None \<Rightarrow> 0 | Some w \<Rightarrow> length w + 1) + length d + 1"
  obtain b where "malloc env n = Some b" using assms unfolding mem_ok_def by blast
  then show ?thesis unfolding new_dir_def n_def [symmetric] Let_def
    by (intro exI [of _ "\<lparr>dirname = d, what = wh, where_ = wr,
        status = replicate (length (capstr env)) (if cget d 0 \<noteq> slash then existing else unknown)\<rparr>"]) simp
qed

lemma add_dir_run:
  assumes ok: "dirs_ok st" "on_list st result" and mem: "mem_ok env" and cap: "length result < cap"
  obtains result' st' where "add_dir env cap d wh wr result st = Inr (result', st')" "dirs_ok st'" "extends st st'"
    "on_list st' result'" "map (dir_name st') result' = add_new (map (dir_name st) result) d"
    "length result' \<le> Suc (length result)"
proof (cases "known_dir st d")
  case (Some p)
  note p = known_dir_Some [OF Some ok(1)]
  have inl: "p \<in> set result \<longleftrightarrow> d \<in> set (map (dir_name st) result)"
    using dir_name_inj [OF ok(1)] p ok(2) by (force simp: on_list_def)
  have "add_dir env cap d wh wr result st = Inr (if p \<in> set result then result else result @ [p], st)"
    using Some cap by (simp add: add_dir_def array_add_def)
  then show thesis
    by (rule that) (use ok p inl in \<open>auto simp: on_list_def add_new_def\<close>)
next
  case None
  let ?p = "length (all_dirs st)"
  obtain e where e: "new_dir env d wh wr st =
      Inr (?p, st\<lparr>all_dirs := (?p, e) # all_dirs st, max_dirnamelen := max (max_dirnamelen st) (length d)\<rparr>)" "dirname e = d"
    using new_dir_run [OF mem] by metis
  let ?st = "st\<lparr>all_dirs := (?p, e) # all_dirs st, max_dirnamelen := max (max_dirnamelen st) (length d)\<rparr>"
  have fresh: "?p \<notin> fst ` set (all_dirs st)" using ok(1) by (auto simp: dirs_ok_def)
  have d: "d \<notin> (dirname \<circ> snd) ` set (all_dirs st)" using known_dir_None [OF None] .
  have ext: "extends st ?st" using fresh by (force simp: extends_def dest: map_of_SomeD)
  have "dirs_ok ?st" using ok(1) fresh d e(2) by (auto simp: dirs_ok_def less_SucI)
  moreover have "dir_name st q \<noteq> d" if "q \<in> set result" for q
    using that ok(2) d dir_name_member [of q st] by (auto simp only: on_list_def)
  then have "d \<notin> set (map (dir_name st) result)" by auto
  moreover have "on_list ?st (result @ [?p])" using extends_names [OF ext ok(2)] by (simp add: on_list_def)
  moreover have "map (dir_name ?st) (result @ [?p]) = map (dir_name st) result @ [d]"
    using extends_names [OF ext ok(2)] e(2) by (simp add: dir_name_def)
  moreover have "add_dir env cap d wh wr result st = Inr (result @ [?p], ?st)"
    using None cap e(1) by (simp add: add_dir_def array_add_def)
  ultimately show thesis using ext by (intro that [of "result @ [?p]" ?st]) (auto simp: add_new_def)
qed
lemma strip_parts:
  fixes t :: string
  defines "u \<equiv> rev (dropWhile (\<lambda>c. c = slash) (rev t))"
  shows "t = u @ rev (takeWhile (\<lambda>c. c = slash) (rev t))" "u \<noteq> [] \<Longrightarrow> last u \<noteq> slash"
    "length t - length (takeWhile (\<lambda>c. c = slash) (rev t)) = length u"
proof -
  show t: "t = u @ rev (takeWhile (\<lambda>c. c = slash) (rev t))"
    unfolding u_def by (metis rev_append rev_rev_ident takeWhile_dropWhile_id)
  show "last u \<noteq> slash" if "u \<noteq> []"
    using that hd_dropWhile [of "\<lambda>c. c = slash" "rev t"] by (simp add: u_def last_rev)
  show "length t - length (takeWhile (\<lambda>c. c = slash) (rev t)) = length u"
    by (subst t) simp
qed

lemma dir_text_run:
  assumes "nul_free t" "t \<noteq> []"
  shows "dir_text (t @ NUL # junk) = Inr (with_slash t)"
proof -
  define u where "u = rev (dropWhile (\<lambda>c. c = slash) (rev t))"
  define z where "z = rev (takeWhile (\<lambda>c. c = slash) (rev t))"
  have t: "t = u @ z" and u: "u \<noteq> [] \<Longrightarrow> last u \<noteq> slash" and len: "strip_slash_len t = max 1 (length u)"
    using strip_parts [of t] by (simp_all add: u_def z_def strip_slash_len_def)
  have ws: "with_slash t = (if u = [] then ''/'' else u @ ''/'')" by (simp add: with_slash_def u_def)
  show ?thesis
  proof (cases "u = []")
    case True
    then have "z \<noteq> []" "t = z" using t assms(2) by simp_all
    moreover have "set z \<subseteq> {slash}" by (auto simp: z_def dest: set_takeWhileD)
    ultimately obtain z' where "t = slash # z'" by (cases z) auto
    then have "dir_text (t @ NUL # junk) = Inr ''/''" using True len assms(1) by (simp add: dir_text_def)
    then show ?thesis using True ws by simp
  next
    case False
    then have l: "strip_slash_len t = length u" using len by (cases u) simp_all
    have "(t @ NUL # junk) ! (length u - 1) \<noteq> slash"
      using u [OF False] False by (simp add: t nth_append last_conv_nth)
    moreover have "put_chars [slash] (length u) (t @ NUL # junk) = Inr (u @ [slash] @ drop (length u + 1) (t @ NUL # junk))"
      by (simp add: put_chars_def t)
    ultimately show ?thesis using False l assms(1) by (simp add: dir_text_def ws)
  qed
qed

section \<open>Filling in a path\<close>

text \<open>The texts a token can stand for have no null byte.\<close>

definition plain_env :: "ld_env \<Rightarrow> link_map \<Rightarrow> bool" where
  "plain_env env l \<longleftrightarrow>
     nul_free (dst_lib (dst env)) \<and> (\<forall>s. platform (dst env) = Some s \<longrightarrow> nul_free s) \<and>
     (\<forall>s. l_origin l = Origin s \<longrightarrow> nul_free s)"

lemma items_nul_free:
  assumes "plain_env env l" "nul_free input"
  shows "items_text (dst env) l (dst_items at_start input) = Some s \<Longrightarrow> nul_free s"
  using assms(2)
proof (induction "length input" arbitrary: at_start input s rule: less_induct)
  case less
  show ?case
  proof (cases input)
    case Nil
    with less.prems(1) show ?thesis by simp
  next
    case (Cons c rest)
    show ?thesis
    proof (cases "if c = CHR ''$'' then first_token at_start rest else None")
      case None
      then have "dst_items at_start input = Lit c # dst_items False rest" using Cons by simp
      then show ?thesis using less.prems less.hyps [of rest] Cons
        by (auto simp: item_text_def)
    next
      case (Some t)
      then have items: "dst_items at_start input = t # dst_items False (drop (dst_length rest) rest)" using Cons by simp
      then obtain a b where ab: "item_text (dst env) l t = Some a" "s = a @ b"
          "items_text (dst env) l (dst_items False (drop (dst_length rest) rest)) = Some b"
        using less.prems(1) by (auto split: option.splits)
      have "nul_free b" using less.hyps [OF _ ab(3)] less.prems(2) Cons by simp
      moreover have "nul_free a" using ab(1) assms(1) Some
        by (auto simp: item_text_def plain_env_def first_token_def split: if_splits origin.splits)
      ultimately show ?thesis using ab(2) by simp
    qed
  qed
qed

lemma expand_text_nul_free: "plain_env env l \<Longrightarrow> nul_free f \<Longrightarrow> nul_free (expand_text (dst env) l f)"
  using items_nul_free [of env l f True] by (simp add: expand_text_def split: option.splits)

definition path_ready :: "ld_env \<Rightarrow> link_map \<Rightarrow> origin \<Rightarrow> bool" where
  "path_ready env l r \<longleftrightarrow>
     dst_ready (dst env) (get_origin env) (l_is_rtld l) (malloc env) l r \<and> mem_ok env \<and>
     \<not> (enable_secure (dst env) \<and> l_type l = lt_executable) \<and> plain_env env (known_origin r l)"

lemma expand_known:
  "expand_text e (with_origin r f l) f = expand_text e (known_origin r l) f"
  by (cases "dl_dst_count f = 0")
    (simp_all add: with_origin_def known_origin_def expand_text_def items_literal)

lemma known_origin_with: "known_origin r (with_origin r f l) = known_origin r l"
  by (simp add: known_origin_def with_origin_def)

lemma path_ready_with: "path_ready env l r \<Longrightarrow> path_ready env (with_origin r f l) r"
  by (auto simp: path_ready_def known_origin_def with_origin_def dst_ready_def plain_env_def split: if_splits)
lemma strsep_scan_nul_free:
  "strsep_scan d s = (f, r) \<Longrightarrow> nul_free s \<Longrightarrow> nul_free f \<and> (\<forall>t. r = Some t \<longrightarrow> nul_free t)"
  by (induction s arbitrary: f) (auto split: if_splits prod.splits)

text \<open>A state in the course of filling in: the elements on the list so far and their names.\<close>

definition filled :: "path_state \<Rightarrow> string list \<Rightarrow> nat list \<Rightarrow> path_state \<Rightarrow> bool" where
  "filled st0 ds result st \<longleftrightarrow>
     dirs_ok st \<and> extends st0 st \<and> on_list st result \<and> map (dir_name st) result = ds"

lemma add_dir_filled:
  assumes "filled st0 ds result st" "mem_ok env" "length ds < cap"
  obtains result' st' where "add_dir env cap d wh wr result st = Inr (result', st')" "filled st0 (add_new ds d) result' st'"
proof -
  have len: "length result < cap" using assms(1,3) by (metis filled_def length_map)
  show thesis
    by (rule add_dir_run [of st result env cap d wh wr])
      (use assms len that in \<open>auto simp: filled_def intro: extends_trans\<close>)
qed

lemma expand_field:
  assumes "path_ready env l r" "nul_free f"
  obtains junk where "expand_dynamic_string_token (dst env) (get_origin env) (l_is_rtld l) (malloc env) l f =
    Inr (Some (expand_text (dst env) (known_origin r l) f @ NUL # junk), with_origin r f l)"
proof -
  have ready: "dst_ready (dst env) (get_origin env) (l_is_rtld l) (malloc env) l r" "mem_ok env"
    "\<not> (enable_secure (dst env) \<and> l_type l = lt_executable)" using assms(1) by (simp_all add: path_ready_def)
  have nc: "\<not> to_check (dst env) (with_origin r f l) (dst_items True f) False"
    using ready(3) by (auto simp: to_check_def with_origin_def)
  obtain x where x: "expand_dynamic_string_token (dst env) (get_origin env) (l_is_rtld l) (malloc env) l f =
      Inr (x, with_origin r f l)" "(\<forall>n. malloc env n \<noteq> None) \<longrightarrow> x \<noteq> None"
      "\<forall>b. x = Some b \<longrightarrow> (\<exists>junk. b = expand_text (dst env) (with_origin r f l) f @ NUL # junk)"
    using expand_run [OF ready(1) refl, of f] ready(3) nc by auto
  with ready(2) obtain b junk where "x = Some b" "b = expand_text (dst env) (with_origin r f l) f @ NUL # junk"
    by (auto simp: mem_ok_def)
  with x(1) show thesis using that expand_known by metis
qed

lemma fillin_field_run:
  assumes "filled st0 ds result st" "path_ready env l r" "length ds < cap" "nul_free f"
  obtains l' result' st' where "fillin_field env cap wh wr f l result st = Inr (l', result', st')"
    "path_ready env l' r" "known_origin r l' = known_origin r l" "l' = l \<or> l' = known_origin r l"
    "filled st0 (case field_dir env (known_origin r l) f of None \<Rightarrow> ds | Some d \<Rightarrow> add_new ds d) result' st'"
proof (cases "f = []")
  have mem: "mem_ok env" using assms(2) by (simp add: path_ready_def)
  case True
  obtain result' st' where "add_dir env cap [] wh wr result st = Inr (result', st')" "filled st0 (add_new ds []) result' st'"
    by (rule add_dir_filled [OF assms(1) mem assms(3)])
  then show thesis using True assms(2) by (intro that [of l]) (simp_all add: fillin_field_def field_dir_def)
next
  have mem: "mem_ok env" using assms(2) by (simp add: path_ready_def)
  case False
  let ?t = "expand_text (dst env) (known_origin r l) f" and ?l = "with_origin r f l"
  obtain junk where ex: "expand_dynamic_string_token (dst env) (get_origin env) (l_is_rtld l) (malloc env) l f =
      Inr (Some (?t @ NUL # junk), ?l)" by (rule expand_field [OF assms(2,4)])
  have nf: "nul_free ?t" using assms(2,4) by (intro expand_text_nul_free) (simp_all add: path_ready_def)
  have l: "path_ready env ?l r" "known_origin r ?l = known_origin r l" "?l = l \<or> ?l = known_origin r l"
    using path_ready_with [OF assms(2)] known_origin_with by (simp_all add: with_origin_def known_origin_def)
  show thesis
  proof (cases "?t = []")
    case True
    then show thesis using False ex l assms(1)
      by (intro that [of ?l result st]) (simp_all add: fillin_field_def field_dir_def)
  next
    case t: False
    obtain result' st' where "add_dir env cap (with_slash ?t) wh wr result st = Inr (result', st')"
        "filled st0 (add_new ds (with_slash ?t)) result' st'"
      by (rule add_dir_filled [OF assms(1) mem assms(3)])
    then show thesis using False ex l t nf dir_text_run [OF nf t]
      by (intro that [of ?l result' st']) (simp_all add: fillin_field_def field_dir_def Let_def)
  qed
qed

definition field_dirs :: "ld_env \<Rightarrow> link_map \<Rightarrow> string list \<Rightarrow> string list" where
  "field_dirs env l fs = List.map_filter (field_dir env l) fs"

lemma field_dirs_simps [simp]:
  "field_dirs env l [] = []"
  "field_dirs env l (f # fs) = (case field_dir env l f of None \<Rightarrow> field_dirs env l fs | Some d \<Rightarrow> d # field_dirs env l fs)"
  by (auto simp: field_dirs_def List.map_filter_simps split: option.splits)

lemma add_new_length: "length (add_new ds d) \<le> Suc (length ds)"
  by (simp add: add_new_def)

lemma fillin_loop_run:
  assumes "filled st0 ds result st" "path_ready env l r" "nul_free s" "sep \<noteq> []"
    and "length ds + length (split_on (\<lambda>c. c \<in> set sep) s) < cap"
  shows "\<exists>l' result' st'. fillin_loop env cap sep wh wr (Some s) l result st = Inr (l', result', st') \<and>
    (l' = l \<or> l' = known_origin r l) \<and>
    filled st0 (foldl add_new ds (field_dirs env (known_origin r l) (split_on (\<lambda>c. c \<in> set sep) s))) result' st'"
  using assms
proof (induction "length s" arbitrary: s ds result st l rule: less_induct)
  case less
  let ?p = "\<lambda>c. c \<in> set sep"
  obtain f re where scan: "strsep_scan sep s = (f, re)" by fastforce
  have split: "split_on ?p s = (case re of None \<Rightarrow> [f] | Some t \<Rightarrow> f # split_on ?p t)"
    using strsep_scan_split [of sep s] scan by (simp split: option.splits)
  have nf: "nul_free f" "\<And>t. re = Some t \<Longrightarrow> nul_free t"
    using strsep_scan_nul_free [OF scan less.prems(3)] by auto
  have room: "length ds < cap" using less.prems(5) by linarith
  obtain l1 r1 st1 where f: "fillin_field env cap wh wr f l result st = Inr (l1, r1, st1)" "path_ready env l1 r"
      "known_origin r l1 = known_origin r l" "l1 = l \<or> l1 = known_origin r l"
      "filled st0 (case field_dir env (known_origin r l) f of None \<Rightarrow> ds | Some d \<Rightarrow> add_new ds d) r1 st1"
    by (rule fillin_field_run [OF less.prems(1,2) room nf(1), of wh wr])
  have run: "fillin_loop env cap sep wh wr (Some s) l result st = fillin_loop env cap sep wh wr re l1 r1 st1"
    using less.prems(4) scan f(1) by (subst fillin_loop.simps) (simp add: strsep_def)
  show ?case
  proof (cases re)
    case None
    have "fillin_loop env cap sep wh wr None l1 r1 st1 = Inr (l1, r1, st1)"
      using less.prems(4) by (subst fillin_loop.simps) (simp add: strsep_def)
    then show ?thesis using run f(4,5) None split by (auto split: option.splits)
  next
    case (Some t)
    let ?ds = "case field_dir env (known_origin r l) f of None \<Rightarrow> ds | Some d \<Rightarrow> add_new ds d"
    have "length t < length s" using strsep_scan_length scan Some by blast
    moreover have "length ?ds + length (split_on ?p t) < cap"
    proof (cases "field_dir env (known_origin r l) f")
      case (Some d)
      then show ?thesis using less.prems(5) split add_new_length [of ds d] \<open>re = Some t\<close> by simp
    qed (use less.prems(5) split Some in simp)
    ultimately obtain l' r' st' where "fillin_loop env cap sep wh wr (Some t) l1 r1 st1 = Inr (l', r', st')"
        "l' = l1 \<or> l' = known_origin r l1"
        "filled st0 (foldl add_new ?ds (field_dirs env (known_origin r l1) (split_on ?p t))) r' st'"
      using less.hyps [OF _ f(5,2) nf(2) [OF Some] less.prems(4)] by blast
    then show ?thesis using run f(3,4) Some split by (auto split: option.splits)
  qed
qed
section \<open>The inhibition list\<close>

lemma inhibit_match_parts:
  assumes "colon \<notin> set w" "tail = [] \<or> (\<exists>r. tail = colon # r)"
  shows "\<exists>m f' wp. inhibit_match (f @ tail) w = (f' @ tail, wp) \<and> f = m @ f' \<and> w = m @ wp \<and>
    (f' \<noteq> [] \<longrightarrow> wp \<noteq> [] \<longrightarrow> hd f' \<noteq> hd wp)"
  using assms(1)
proof (induction f arbitrary: w)
  case Nil
  have "inhibit_match tail w = (tail, w)"
    using assms(2) Nil by (cases w) (auto simp: neq_Nil_conv)
  then show ?case by (intro exI [of _ "[]"] exI [of _ w]) simp
next
  case (Cons c f)
  show ?case
  proof (cases "w \<noteq> [] \<and> hd w = c")
    case False
    then have "inhibit_match ((c # f) @ tail) w = ((c # f) @ tail, w)" by (cases w) auto
    moreover have "w \<noteq> [] \<longrightarrow> hd (c # f) \<noteq> hd w" using False by auto
    ultimately show ?thesis by (intro exI [of _ "[]"] exI [of _ "c # f"] exI [of _ w]) simp
  next
    case True
    then obtain w1 where w: "w = c # w1" by (cases w) auto
    have "colon \<notin> set w1" using Cons.prems w by simp
    from Cons.IH [OF this] obtain m f' wp where
      "inhibit_match (f @ tail) w1 = (f' @ tail, wp)" "f = m @ f'" "w1 = m @ wp"
      "f' \<noteq> [] \<longrightarrow> wp \<noteq> [] \<longrightarrow> hd f' \<noteq> hd wp" by (elim exE conjE) (rule that)
    then show ?thesis using w by (intro exI [of _ "c # m"] exI [of _ f'] exI [of _ wp]) simp
  qed
qed

lemma inhibited_iff:
  assumes "colon \<notin> set w" "w \<noteq> []"
  shows "inhibited w inhp \<longleftrightarrow> w \<in> set (split_on (\<lambda>c. c = colon) inhp)"
proof (induction "length inhp" arbitrary: inhp rule: less_induct)
  case less
  define f where "f = takeWhile (\<lambda>c. c \<noteq> colon) inhp"
  define tail where "tail = dropWhile (\<lambda>c. c \<noteq> colon) inhp"
  have inhp: "inhp = f @ tail" by (simp add: f_def tail_def)
  have fc: "colon \<notin> set f" by (auto simp: f_def dest: set_takeWhileD)
  have tail: "tail = [] \<or> (\<exists>r. tail = colon # r)"
  proof (cases tail)
    case (Cons d r)
    then show ?thesis using hd_dropWhile [of "\<lambda>c. c \<noteq> colon" inhp] unfolding tail_def [symmetric] by simp
  qed simp
  have sp: "split_on (\<lambda>c. c = colon) inhp = (case tail of [] \<Rightarrow> [f] | d # t \<Rightarrow> f # split_on (\<lambda>c. c = colon) t)"
    by (cases tail) (simp_all add: split_on_unfold [of _ inhp] tail_def [symmetric] f_def [symmetric], simp add: inhp)
  obtain m f' wp where m: "inhibit_match inhp w = (f' @ tail, wp)" "f = m @ f'" "w = m @ wp"
      "f' \<noteq> [] \<longrightarrow> wp \<noteq> [] \<longrightarrow> hd f' \<noteq> hd wp"
    using inhibit_match_parts [OF assms(1) tail, of f] unfolding inhp [symmetric] by (elim exE conjE) (rule that)
  have hit: "wp = [] \<and> (f' @ tail = [] \<or> cget (f' @ tail) 0 = colon) \<longleftrightarrow> w = f"
  proof
    assume "wp = [] \<and> (f' @ tail = [] \<or> cget (f' @ tail) 0 = colon)"
    then show "w = f" using m(2,3) fc by (cases f') auto
  next
    assume "w = f"
    then have "wp = f'" using m(2,3) by simp
    with m(4) have "wp = [] \<and> f' = []" by (cases f') auto
    then show "wp = [] \<and> (f' @ tail = [] \<or> cget (f' @ tail) 0 = colon)" using tail by auto
  qed
  have "dropWhile (\<lambda>c. c \<noteq> colon) (f' @ tail) = tail"
    using fc m(2) tail by (subst dropWhile_append2) auto
  then have step: "inhibited w inhp \<longleftrightarrow> w = f \<or> drop 1 tail \<noteq> [] \<and> inhibited w (drop 1 tail)"
    using hit m(1) by (subst inhibited.simps) auto
  show ?case
  proof (cases tail)
    case Nil
    then show ?thesis using step sp by simp
  next
    case (Cons d t)
    have "length t < length inhp" using inhp Cons by simp
    then have "inhibited w t \<longleftrightarrow> w \<in> set (split_on (\<lambda>c. c = colon) t)" by (rule less.hyps)
    then show ?thesis using step sp Cons assms(2) by (cases t) auto
  qed
qed
section \<open>The descriptor array\<close>

definition fd_of :: "string \<Rightarrow> int" where
  "fd_of t = c_int (uint (fst (dl_strtoul t)))"

definition fd_memory :: "int list \<Rightarrow> fd_array option" where
  "fd_memory fds = (if fds = [] then None else Some (map Some fds @ replicate (length fds) None))"

lemma fd_memory_add:
  "Some ((realloc_fds (2 * (length fds + 1)) (case fd_memory fds of None \<Rightarrow> [] | Some a \<Rightarrow> a))[length fds := Some fd]) =
   fd_memory (fds @ [fd])"
proof -
  have "realloc_fds (2 * (length fds + 1)) (map Some fds @ replicate (length fds) None) =
      map Some fds @ replicate (length fds + 2) None"
    by (simp add: realloc_fds_def flip: replicate_add)
  moreover have "realloc_fds 2 [] = replicate 2 None" by (simp add: realloc_fds_def)
  ultimately show ?thesis
    by (cases "fds = []") (simp_all add: fd_memory_def list_update_append numeral_2_eq_2)
qed

lemma openat_loop_run:
  "openat_loop (\<lambda>_. True) (Some t) save (length fds) (fd_memory fds) =
     fd_memory (fds @ filter (\<lambda>fd. 0 < fd) (map fd_of (t # tokens (\<lambda>c. c = colon) save)))"
proof (induction "length save" arbitrary: t save fds rule: less_induct)
  case less
  define fds1 where "fds1 = (if 0 < fd_of t then fds @ [fd_of t] else fds)"
  obtain token save' where n: "strtok_r None '':'' save = (token, save')" by fastforce
  have run: "openat_loop (\<lambda>_. True) (Some t) save (length fds) (fd_memory fds) =
      openat_loop (\<lambda>_. True) token save' (length fds1) (fd_memory fds1)"
    using n fd_memory_add [of fds "fd_of t"]
    by (subst openat_loop.simps) (simp add: fds1_def Let_def flip: fd_of_def)
  show ?case
  proof (cases token)
    case None
    then have "tokens (\<lambda>c. c = colon) save = []" using strtok_r_tokens [of save] n by simp
    moreover have "openat_loop (\<lambda>_. True) None save' (length fds1) (fd_memory fds1) = fd_memory fds1"
      by (subst openat_loop.simps) simp
    ultimately show ?thesis using run None by (simp add: fds1_def)
  next
    case (Some u)
    then have "tokens (\<lambda>c. c = colon) save = u # tokens (\<lambda>c. c = colon) save'" "length save' < length save"
      using strtok_r_tokens [of save] n by simp_all
    then show ?thesis using less.hyps [of save' u fds1] run Some by (simp add: fds1_def)
  qed
qed

lemma init_openat_run:
  "dl_init_openat_paths (\<lambda>_. True) (Some s) None =
     fd_memory (filter (\<lambda>fd. 0 < fd) (map fd_of (tokens (\<lambda>c. c = colon) s)))"
proof -
  obtain token save where n: "strtok_r None '':'' s = (token, save)" by fastforce
  have st: "strtok_r (Some s) '':'' [] = (token, save)" using n by (simp add: strtok_r_Some)
  show ?thesis
  proof (cases token)
    case None
    then have "tokens (\<lambda>c. c = colon) s = []" using strtok_r_tokens [of s] n by simp
    then show ?thesis using st None by (simp add: dl_init_openat_paths_def openat_loop.simps fd_memory_def)
  next
    case (Some t)
    then have tk: "tokens (\<lambda>c. c = colon) s = t # tokens (\<lambda>c. c = colon) save" using strtok_r_tokens [of s] n by simp
    have "fd_memory [] = None" by (simp add: fd_memory_def)
    then show ?thesis using openat_loop_run [of t save "[]"] st Some unfolding tk
      by (simp add: dl_init_openat_paths_def)
  qed
qed
section \<open>Properties\<close>

lemma field_dirs_length: "length (field_dirs env l fs) \<le> length fs"
  by (induction fs) (auto split: option.splits)

lemma fillin_rpath_run:
  assumes "path_ready env l r" "dirs_ok st" "nul_free s" "sep \<noteq> []"
    and "Suc (length (filter (\<lambda>c. c \<in> set sep) s)) < cap"
  obtains l' result st' where "fillin_rpath env s cap sep wh wr l st = Inr (l', result, st')"
    "l' = l \<or> l' = known_origin r l"
    "filled st (rev (remdups (rev (field_dirs env (known_origin r l) (split_on (\<lambda>c. c \<in> set sep) s))))) result st'"
proof -
  let ?ds = "field_dirs env (known_origin r l) (split_on (\<lambda>c. c \<in> set sep) s)"
  have f: "filled st [] [] st" using assms(2) by (simp add: filled_def on_list_def)
  have "length [] + length (split_on (\<lambda>c. c \<in> set sep) s) < cap" using assms(5) by (simp add: length_split_on)
  from fillin_loop_run [OF f assms(1,3,4) this, of wh wr] obtain l' result st' where
      run: "fillin_loop env cap sep wh wr (Some s) l [] st = Inr (l', result, st')"
      "l' = l \<or> l' = known_origin r l" "filled st (foldl add_new [] ?ds) result st'" by (elim exE conjE) (rule that)
  have "length result = length (map (dir_name st') result)" by simp
  also have "\<dots> = length (remdups (rev ?ds))" using run(3) unfolding filled_def foldl_add_new by simp
  also have "\<dots> \<le> length ?ds" using length_remdups_leq [of "rev ?ds"] by simp
  also have "\<dots> \<le> length (split_on (\<lambda>c. c \<in> set sep) s)" by (rule field_dirs_length)
  finally have "length result < cap" using assms(5) by (simp add: length_split_on)
  then have "fillin_rpath env s cap sep wh wr l st = Inr (l', result, st')" using run(1) by (simp add: fillin_rpath_def)
  then show thesis using run(2,3) unfolding foldl_add_new by (rule that)
qed

text \<open>C18: \<open>decompose_rpath\<close> turns a RUNPATH or RPATH that is not inhibited into the directories of its fields, each
  expanded, with one slash at its end, and kept at its first occurrence only; it reports whether there is
  any.  It never stores behind the array it sized by counting colons, and the elements stay unique.\<close>

theorem decompose_rpath_correct:
  assumes "path_ready env l r" "dirs_ok st" "nul_free rpath" "rpath \<noteq> []" "inhibit_rpath env = None"
    and "ds = rev (remdups (rev (field_dirs env (known_origin r l) (split_on (\<lambda>c. c = colon) rpath))))"
  shows "\<exists>ps sps' l' st'. decompose_rpath env sps rpath l wh st = Inr (ds \<noteq> [], sps', l', st') \<and>
    (l' = l \<or> l' = known_origin r l) \<and> dirs_ok st' \<and> extends st st' \<and>
    dirs sps' = (if ds = [] then Dirs_none else Dirs ps) \<and> map (dir_name st') ps = ds"
proof -
  let ?n = "length (filter (\<lambda>c. c = colon) rpath)"
  have mem: "malloc env k \<noteq> None" for k using assms(1) by (simp add: path_ready_def mem_ok_def)
  obtain l' result st' where run: "fillin_rpath env rpath (?n + 2) '':'' wh (Some (l_name l)) l st = Inr (l', result, st')"
      "l' = l \<or> l' = known_origin r l" "filled st ds result st'"
    by (rule fillin_rpath_run [OF assms(1-3), of "'':''" "?n + 2" wh "Some (l_name l)"]) (auto simp: assms(6))
  moreover have "result = [] \<longleftrightarrow> ds = []" using run(3) by (auto simp: filled_def)
  ultimately show ?thesis using assms(4,5) mem
    by (intro exI [of _ result]) (auto simp: decompose_rpath_def Let_def filled_def)
qed

text \<open>The inhibition list of LD_INHIBIT_RPATH switches the paths of exactly the objects off whose name is one of its
  colon-separated fields, and of none in a secure process.\<close>

theorem decompose_rpath_inhibited:
  assumes "inhibit_rpath env = Some inhp" "colon \<notin> set (l_name l)" "l_name l \<noteq> []"
    and "l_name l \<in> set (split_on (\<lambda>c. c = colon) inhp)" "\<not> enable_secure (dst env)"
  shows "decompose_rpath env sps rpath l wh st = Inr (False, sps\<lparr>dirs := Dirs_none\<rparr>, l, st)"
  using assms inhibited_iff [OF assms(2,3), of inhp] by (simp add: decompose_rpath_def)

text \<open>C21: \<open>_dl_init_openat_paths\<close> stores the positive numbers among the tokens of LD_LIBRARY_PATH_FDS in order, and the
  array it leaves behind has nothing written after them.\<close>

theorem dl_init_openat_paths_correct:
  "dl_init_openat_paths (\<lambda>_. True) (Some s) None =
     (let fds = filter (\<lambda>fd. 0 < fd) (map (\<lambda>t. c_int (uint (fst (dl_strtoul t)))) (tokens (\<lambda>c. c = colon) s))
      in if fds = [] then None else Some (map Some fds @ replicate (length fds) None))"
  using init_openat_run [of s] by (simp add: fd_memory_def fd_of_def [abs_def] Let_def)
lemma expand_text_cong:
  assumes "l_origin l = l_origin l'"
  shows "expand_text e l x = expand_text e l' x"
proof -
  have "item_text e l = item_text e l'" unfolding item_text_def [abs_def] assms by (rule refl)
  then show ?thesis by (simp add: expand_text_def items_text_def)
qed

lemma known_origin_origin: "l_origin (known_origin r l) = (if l_origin l = Origin_null then r else l_origin l)"
  by (simp add: known_origin_def)

lemma field_dirs_cong:
  assumes "l_origin l = l_origin l'"
  shows "field_dirs env (known_origin r l) fs = field_dirs env (known_origin r l') fs"
proof -
  have eq: "expand_text (dst env) (known_origin r l) = expand_text (dst env) (known_origin r l')"
    using assms by (intro ext expand_text_cong) (simp add: known_origin_origin)
  have "field_dir env (known_origin r l) = field_dir env (known_origin r l')"
    unfolding field_dir_def [abs_def] eq by (rule refl)
  then show ?thesis by (simp add: field_dirs_def)
qed

lemma path_ready_cong:
  assumes "path_ready env l r" "l_origin l' = l_origin l" "l_type l' = l_type l" "l_name l' = l_name l" "l_is_rtld l' = l_is_rtld l"
  shows "path_ready env l' r"
  using assms by (simp add: path_ready_def dst_ready_def plain_env_def known_origin_origin)

lemma init_system_dirs_run:
  assumes "mem_ok env" "distinct (system_dirs (dst env))" "\<forall>d \<in> set (system_dirs (dst env)). cget d 0 = slash"
  obtains st where "init_system_dirs env = Inr st" "dirs_ok st"
    "on_list st [0..<length (system_dirs (dst env))]" "map (dir_name st) [0..<length (system_dirs (dst env))] = system_dirs (dst env)"
proof -
  let ?ds = "system_dirs (dst env)" and ?n = "length (system_dirs (dst env))"
  let ?all = "zip [0..<length (system_dirs (dst env))] (map (system_elem env) (system_dirs (dst env)))"
  define st where "st = \<lparr>all_dirs = ?all, max_dirnamelen = foldr (max \<circ> length) ?ds 0\<rparr>"
  have "init_system_dirs env = Inr st"
    using assms(1,3) by (simp add: init_system_dirs_def mem_ok_def list_ex_iff Let_def st_def)
  moreover have names: "map (dirname \<circ> snd) ?all = ?ds"
    by (simp add: map_snd_zip flip: map_map) (simp add: system_elem_def comp_def)
  then have "dirs_ok st" using assms(2) by (auto simp: dirs_ok_def st_def dest!: set_zip_leftD)
  moreover have at: "map_of ?all i = Some (system_elem env (?ds ! i))" if "i < ?n" for i
    using that by (intro map_of_is_SomeI) (auto simp: in_set_zip intro!: exI [of _ i])
  then have "on_list st [0..<?n]" by (auto simp: on_list_def st_def)
  moreover have "map (dir_name st) [0..<?n] = ?ds"
  proof (rule nth_equalityI)
    fix i
    assume "i < length (map (dir_name st) [0..<?n])"
    then have "i < ?n" by simp
    then have "dir_name st i = dirname (system_elem env (?ds ! i))" using at by (simp only: dir_name_def st_def path_state.simps option.case)
    then show "map (dir_name st) [0..<?n] ! i = ?ds ! i" using \<open>i < ?n\<close> by (simp add: system_elem_def)
  qed simp
  ultimately show thesis by (rule that)
qed

text \<open>C19: \<open>_dl_init_paths\<close> for an object without paths of its own makes the elements of LD_LIBRARY_PATH, split at colons and
  semicolons, the environment's search path, and the built-in directories the default path; all elements are unique,
  so a directory that is on both paths is one element.\<close>

theorem dl_init_paths_correct:
  assumes "path_ready env l r" "l = maps ld a" "main_map ld = Some a" "l_type l \<noteq> lt_loaded"
    and "dt_runpath l = None" "dt_rpath l = None" "nul_free s" "s \<noteq> []"
    and "distinct (system_dirs (dst env))" "\<forall>d \<in> set (system_dirs (dst env)). cget d 0 = slash"
    and "ds = rev (remdups (rev (field_dirs env (known_origin r l) (split_on (\<lambda>c. c = colon \<or> c = CHR '';'') s))))"
  shows "\<exists>ld' ps. dl_init_paths env rtld_map (Some s) src ld = Inr ld' \<and> dirs_ok (paths ld') \<and>
    dirs (env_path_list ld') = (if ds = [] then Dirs_none else Dirs ps) \<and> map (dir_name (paths ld')) ps = ds \<and>
    (\<exists>qs. dirs (search_dirs ld') = Dirs qs \<and> map (dir_name (paths ld')) qs = system_dirs (dst env))"
proof -
  have mem: "mem_ok env" using assms(1) by (simp add: path_ready_def)
  obtain st where st: "init_system_dirs env = Inr st" "dirs_ok st" "on_list st [0..<length (system_dirs (dst env))]"
      "map (dir_name st) [0..<length (system_dirs (dst env))] = system_dirs (dst env)"
    by (rule init_system_dirs_run [OF mem assms(9,10)])
  define l1 where "l1 = l\<lparr>l_runpath_dirs := (l_runpath_dirs l)\<lparr>dirs := Dirs_none\<rparr>, l_rpath_dirs := (l_rpath_dirs l)\<lparr>dirs := Dirs_none\<rparr>\<rparr>"
  have sel: "l_origin l1 = l_origin l" "l_type l1 = l_type l" "l_name l1 = l_name l" "l_is_rtld l1 = l_is_rtld l"
    by (simp_all add: l1_def)
  have l1: "init_main_map env l st = Inr (l1, st)" using assms(5,6) by (simp add: init_main_map_def l1_def Let_def)
  have ready: "path_ready env l1 r" using assms(1) sel by (rule path_ready_cong)
  have fd: "field_dirs env (known_origin r l1) fs = field_dirs env (known_origin r l) fs" for fs
    by (rule field_dirs_cong) (rule sel)
  let ?n = "Suc (length (filter (\<lambda>c. c = colon \<or> c = CHR '';'') s))"
  obtain l' result st' where run: "fillin_rpath env s (?n + 1) '':;'' src None l1 st = Inr (l', result, st')"
      "filled st ds result st'"
    by (rule fillin_rpath_run [OF ready st(2) assms(7), of "'':;''" "?n + 1" src None]) (auto simp: assms(11) fd)
  have emp: "result = [] \<longleftrightarrow> ds = []" using run(2) by (auto simp: filled_def)
  have "dl_init_paths env rtld_map (Some s) src ld = Inr (ld\<lparr>paths := st',
      env_path_list := \<lparr>dirs = (if result = [] then Dirs_none else Dirs result), malloced = False\<rparr>,
      search_dirs := \<lparr>dirs = Dirs [0..<length (system_dirs (dst env))], malloced = False\<rparr>, maps := (maps ld)(a := l')\<rparr>)"
    using st(1) assms(2-4,8) l1 run(1) mem by (simp add: dl_init_paths_def init_library_path_def Let_def mem_ok_def)
  moreover have "extends st st'" using run(2) by (simp add: filled_def)
  from extends_names [OF this st(3)] st(4)
  have "map (dir_name st') [0..<length (system_dirs (dst env))] = system_dirs (dst env)" by simp
  ultimately show ?thesis using run(2) emp
    by (intro exI [of _ result] exI conjI) (assumption, simp_all add: filled_def)
qed
definition demo_ld_env :: ld_env where
  "demo_ld_env = \<lparr>dst = demo_env\<lparr>enable_secure := False\<rparr>, get_origin = Inr Origin_unknown,
     malloc = (\<lambda>n. Some (replicate n NUL)), capstr = [[]], inhibit_rpath = None\<rparr>"

definition demo_link_map :: link_map where
  "demo_link_map = \<lparr>l_name = ''/bin/app'', l_origin = Origin ''/bin'', l_type = lt_executable, dt_rpath = None,
     dt_runpath = None, l_rpath_dirs = \<lparr>dirs = Dirs_null, malloced = False\<rparr>,
     l_runpath_dirs = \<lparr>dirs = Dirs_null, malloced = False\<rparr>, l_loader = None, l_ns = 0, l_nodeflib = False,
     l_is_rtld = False\<rparr>"

definition empty_paths :: path_state where
  "empty_paths = \<lparr>all_dirs = [], max_dirnamelen = 0\<rparr>"

definition demo_loader :: loader where
  "demo_loader = \<lparr>paths = empty_paths, env_path_list = \<lparr>dirs = Dirs_null, malloced = False\<rparr>,
     search_dirs = \<lparr>dirs = Dirs_null, malloced = False\<rparr>, maps = (\<lambda>_. demo_link_map), main_map = Some 0\<rparr>"

lemma demo_path_ready: "path_ready demo_ld_env demo_link_map Origin_unknown"
  by (simp add: path_ready_def dst_ready_def mem_ok_def plain_env_def known_origin_origin demo_ld_env_def
      demo_link_map_def demo_env_def nul_free_def)

lemma demo_known: "known_origin Origin_unknown demo_link_map = demo_link_map"
  by (simp add: known_origin_def demo_link_map_def)

lemma demo_field_dirs:
  "field_dirs demo_ld_env demo_link_map [''/a'', ''$ORIGIN/lib//'', [], ''/a/''] = [''/a/'', ''/bin/lib/'', [], ''/a/'']"
  by code_simp

theorem decompose_rpath_correct_witness:
  "\<exists>ps sps' l' st'. decompose_rpath demo_ld_env \<lparr>dirs = Dirs_null, malloced = False\<rparr> ''/a:$ORIGIN/lib//::/a/''
       demo_link_map ''RPATH'' empty_paths = Inr (True, sps', l', st') \<and> dirs sps' = Dirs ps \<and>
     map (dir_name st') ps = [''/a/'', ''/bin/lib/'', []]"
proof -
  have sp: "split_on (\<lambda>c. c = colon) ''/a:$ORIGIN/lib//::/a/'' = [''/a'', ''$ORIGIN/lib//'', [], ''/a/'']" by code_simp
  have ok: "dirs_ok empty_paths" "nul_free ''/a:$ORIGIN/lib//::/a/''" "''/a:$ORIGIN/lib//::/a/'' \<noteq> []"
    "inhibit_rpath demo_ld_env = None"
    by (simp_all add: empty_paths_def dirs_ok_def nul_free_def demo_ld_env_def)
  have ds: "[''/a/'', ''/bin/lib/'', []] = rev (remdups (rev (field_dirs demo_ld_env (known_origin Origin_unknown demo_link_map)
      (split_on (\<lambda>c. c = colon) ''/a:$ORIGIN/lib//::/a/''))))"
    unfolding sp demo_known demo_field_dirs by simp
  from decompose_rpath_correct [OF demo_path_ready ok ds, of "\<lparr>dirs = Dirs_null, malloced = False\<rparr>" "''RPATH''"]
  show ?thesis by auto
qed

theorem decompose_rpath_inhibited_witness:
  "decompose_rpath (demo_ld_env\<lparr>inhibit_rpath := Some ''/bin/x:/bin/app''\<rparr>) \<lparr>dirs = Dirs_null, malloced = False\<rparr> ''/a''
     demo_link_map ''RPATH'' empty_paths = Inr (False, \<lparr>dirs = Dirs_none, malloced = False\<rparr>, demo_link_map, empty_paths)"
proof -
  have sp: "split_on (\<lambda>c. c = colon) ''/bin/x:/bin/app'' = [''/bin/x'', ''/bin/app'']" by code_simp
  have "l_name demo_link_map \<in> set (split_on (\<lambda>c. c = colon) ''/bin/x:/bin/app'')"
    unfolding sp by (simp add: demo_link_map_def)
  moreover have "inhibit_rpath (demo_ld_env\<lparr>inhibit_rpath := Some ''/bin/x:/bin/app''\<rparr>) = Some ''/bin/x:/bin/app''"
    "colon \<notin> set (l_name demo_link_map)" "l_name demo_link_map \<noteq> []"
    "\<not> enable_secure (dst (demo_ld_env\<lparr>inhibit_rpath := Some ''/bin/x:/bin/app''\<rparr>))"
    by (simp_all add: demo_ld_env_def demo_env_def demo_link_map_def)
  ultimately have "decompose_rpath (demo_ld_env\<lparr>inhibit_rpath := Some ''/bin/x:/bin/app''\<rparr>) \<lparr>dirs = Dirs_null, malloced = False\<rparr> ''/a''
     demo_link_map ''RPATH'' empty_paths =
     Inr (False, \<lparr>dirs = Dirs_null, malloced = False\<rparr>\<lparr>dirs := Dirs_none\<rparr>, demo_link_map, empty_paths)"
    by (intro decompose_rpath_inhibited)
  then show ?thesis by (simp only: search_path.simps)
qed

theorem dl_init_paths_correct_witness:
  "\<exists>ld' ps. dl_init_paths demo_ld_env 1 (Some ''/a;$ORIGIN/lib//::/a/'') ''LD_LIBRARY_PATH'' demo_loader = Inr ld' \<and>
     dirs (env_path_list ld') = Dirs ps \<and> map (dir_name (paths ld')) ps = [''/a/'', ''/bin/lib/'', []]"
proof -
  let ?s = "''/a;$ORIGIN/lib//::/a/''"
  have sp: "split_on (\<lambda>c. c = colon \<or> c = CHR '';'') ?s = [''/a'', ''$ORIGIN/lib//'', [], ''/a/'']" by code_simp
  have ds: "[''/a/'', ''/bin/lib/'', []] = rev (remdups (rev (field_dirs demo_ld_env (known_origin Origin_unknown demo_link_map)
      (split_on (\<lambda>c. c = colon \<or> c = CHR '';'') ?s))))"
    unfolding sp demo_known demo_field_dirs by simp
  have "demo_link_map = maps demo_loader 0" "main_map demo_loader = Some 0" "l_type demo_link_map \<noteq> lt_loaded"
    "dt_runpath demo_link_map = None" "dt_rpath demo_link_map = None" "nul_free ?s" "?s \<noteq> []"
    "distinct (system_dirs (dst demo_ld_env))" "\<forall>d \<in> set (system_dirs (dst demo_ld_env)). cget d 0 = slash"
    by (simp_all add: demo_loader_def demo_link_map_def demo_ld_env_def demo_env_def nul_free_def)
  from dl_init_paths_correct [OF demo_path_ready this ds, of 1 "''LD_LIBRARY_PATH''"] show ?thesis by auto
qed

end
