(* ===== verification/SearchPathQuery.thy ===== *)
theory SearchPathQuery
  imports SearchPathSpec
begin

text \<open>
  The path query of \<open>dlinfo\<close> (\<open>_dl_rtld_di_serinfo\<close>): a first call counts the directories and
  the bytes of their names, a second one stores them in a buffer of that size.  The lemmas follow both passes step by
  step: once the first has filled the caches of the maps it visits, the second visits the same directories.
\<close>

section \<open>What later steps leave alone\<close>

lemma new_dir_form:
  "new_dir env d wh wr st = Inr (p, st') \<Longrightarrow>
   p = length (all_dirs st) \<and> (\<exists>e. dirname e = d \<and> all_dirs st' = (p, e) # all_dirs st)"
  by (auto simp: new_dir_def Let_def split: option.splits)

lemma add_dir_extends:
  assumes "add_dir env cap d wh wr result st = Inr (result', st')" "dirs_ok st"
  shows "dirs_ok st' \<and> extends st st'"
proof (cases "known_dir st d")
  case (Some p)
  with assms show ?thesis by (auto simp: add_dir_def array_add_def rbind_eq_Inr_iff split: if_splits)
next
  case None
  let ?p = "length (all_dirs st)"
  obtain e where e: "dirname e = d" "all_dirs st' = (?p, e) # all_dirs st"
    using assms(1) None new_dir_form by (fastforce simp: add_dir_def rbind_eq_Inr_iff)
  have fresh: "?p \<notin> fst ` set (all_dirs st)" using assms(2) by (auto simp: dirs_ok_def)
  have "d \<notin> (dirname \<circ> snd) ` set (all_dirs st)" using known_dir_None [OF None] .
  then have "dirs_ok st'" using assms(2) fresh e by (auto simp: dirs_ok_def less_SucI)
  moreover have "extends st st'" using fresh e by (force simp: extends_def dest: map_of_SomeD)
  ultimately show ?thesis by blast
qed

text \<open>Only the origin of the map changes while its path is filled in.\<close>

definition same_but_origin :: "link_map \<Rightarrow> link_map \<Rightarrow> bool" where
  "same_but_origin l l' \<longleftrightarrow> (\<exists>r. l' = l\<lparr>l_origin := r\<rparr>)"

lemma same_but_origin_refl [simp]: "same_but_origin l l"
  unfolding same_but_origin_def by (intro exI [of _ "l_origin l"]) simp

lemma same_but_origin_trans: "same_but_origin a b \<Longrightarrow> same_but_origin b c \<Longrightarrow> same_but_origin a c"
  by (auto simp: same_but_origin_def)

lemma required_origin: "dl_dst_required e g i l n c = Inr (k, l') \<Longrightarrow> same_but_origin l l'"
  by (auto simp: dl_dst_required_def rbind_eq_Inr_iff Let_def split: if_splits) (auto simp: same_but_origin_def)

lemma expand_origin:
  assumes "expand_dynamic_string_token e g i m l f = Inr (x, l')"
  shows "same_but_origin l l'"
proof (cases "dl_dst_count f = 0")
  case True
  with assms show ?thesis by (simp add: expand_dynamic_string_token_def)
next
  case False
  with assms obtain k where "dl_dst_required e g i l (length f) (dl_dst_count f) = Inr (k, l')"
    by (auto simp: expand_dynamic_string_token_def rbind_eq_Inr_iff split: option.splits)
  then show ?thesis by (rule required_origin)
qed

lemma fillin_field_frame:
  assumes "fillin_field env cap wh wr f l result st = Inr (l', result', st')" "dirs_ok st"
  shows "same_but_origin l l' \<and> dirs_ok st' \<and> extends st st'"
proof (cases "f = []")
  case True
  with assms show ?thesis by (auto simp: fillin_field_def rbind_eq_Inr_iff dest: add_dir_extends)
next
  case False
  with assms(1) obtain x l1 where e: "expand_dynamic_string_token (dst env) (get_origin env) (l_is_rtld l) (malloc env) l f = Inr (x, l1)"
    by (auto simp: fillin_field_def rbind_eq_Inr_iff)
  have "l1 = l' \<and> (result' = result \<and> st' = st \<or> (\<exists>d. add_dir env cap d wh wr result st = Inr (result', st')))"
    using assms(1) False e by (cases x) (auto simp: fillin_field_def rbind_eq_Inr_iff split: if_splits)
  with e have x: "expand_dynamic_string_token (dst env) (get_origin env) (l_is_rtld l) (malloc env) l f = Inr (x, l')"
      "result' = result \<and> st' = st \<or> (\<exists>d. add_dir env cap d wh wr result st = Inr (result', st'))" by simp_all
  then show ?thesis using expand_origin [OF x(1)] add_dir_extends assms(2) by auto
qed

lemma fillin_loop_frame:
  "fillin_loop env cap sep wh wr rpath l result st = Inr (l', result', st') \<Longrightarrow> dirs_ok st \<Longrightarrow>
   same_but_origin l l' \<and> dirs_ok st' \<and> extends st st'"
proof (induction env cap sep wh wr rpath l result st rule: fillin_loop.induct)
  case (1 env cap sep wh wr rpath l result st)
  show ?case
  proof (cases "strsep rpath sep")
    case (Inl e)
    with 1(2) show ?thesis by (simp add: fillin_loop.simps)
  next
    case (Inr x)
    then obtain cp re where x: "strsep rpath sep = Inr (cp, re)" by (cases x) auto
    show ?thesis
    proof (cases cp)
      case None
      with 1(2,3) x show ?thesis by (simp add: fillin_loop.simps [of env cap sep wh wr rpath])
    next
      case (Some f)
      with 1(2) x obtain l1 r1 st1 where f: "fillin_field env cap wh wr f l result st = Inr (l1, r1, st1)"
          and r: "fillin_loop env cap sep wh wr re l1 r1 st1 = Inr (l', result', st')"
        by (auto simp: fillin_loop.simps [of env cap sep wh wr rpath] split: sum.splits)
      note fr = fillin_field_frame [OF f 1(3)]
      have "same_but_origin l1 l' \<and> dirs_ok st' \<and> extends st1 st'"
        using 1(1) [OF _ refl _ f refl refl r] x Some fr by simp
      with fr show ?thesis using same_but_origin_trans extends_trans by blast
    qed
  qed
qed

lemma decompose_frame:
  assumes "decompose_rpath env sps rpath l wh st = Inr (found, sps', l', st')" "dirs_ok st"
  shows "same_but_origin l l' \<and> dirs_ok st' \<and> extends st st' \<and>
    (if found then \<exists>ps. dirs sps' = Dirs ps else dirs sps' = Dirs_none)"
proof -
  from assms(1) consider "found = False" "dirs sps' = Dirs_none" "l' = l" "st' = st"
    | n result where "fillin_loop env n '':'' wh (Some (l_name l)) (Some rpath) l [] st = Inr (l', result, st')"
        "if found then \<exists>ps. dirs sps' = Dirs ps else dirs sps' = Dirs_none"
    by (auto simp: decompose_rpath_def fillin_rpath_def Let_def rbind_eq_Inr_iff split: if_splits option.splits)
  then show ?thesis
  proof cases
    case 1
    then show ?thesis using assms(2) by simp
  next
    case 2
    then show ?thesis using fillin_loop_frame [OF 2(1) assms(2)] by simp
  qed
qed
section \<open>Maps with settled paths\<close>

definition map_later :: "link_map \<Rightarrow> link_map \<Rightarrow> bool" where
  "map_later l l' \<longleftrightarrow>
     (dirs (l_rpath_dirs l) \<noteq> Dirs_null \<longrightarrow> l_rpath_dirs l' = l_rpath_dirs l) \<and>
     (dirs (l_runpath_dirs l) \<noteq> Dirs_null \<longrightarrow> l_runpath_dirs l' = l_runpath_dirs l) \<and>
     l_loader l' = l_loader l \<and> l_ns l' = l_ns l \<and> l_type l' = l_type l \<and> l_nodeflib l' = l_nodeflib l \<and>
     dt_rpath l' = dt_rpath l \<and> dt_runpath l' = dt_runpath l"

definition later :: "loader \<Rightarrow> loader \<Rightarrow> bool" where
  "later ld ld' \<longleftrightarrow>
     dirs_ok (paths ld') \<and> extends (paths ld) (paths ld') \<and> env_path_list ld' = env_path_list ld \<and>
     search_dirs ld' = search_dirs ld \<and> main_map ld' = main_map ld \<and> (\<forall>a. map_later (maps ld a) (maps ld' a))"

lemma map_later_trans: "map_later a b \<Longrightarrow> map_later b c \<Longrightarrow> map_later a c"
  unfolding map_later_def by metis

lemma later_trans: "later a b \<Longrightarrow> later b c \<Longrightarrow> later a c"
  unfolding later_def by (metis map_later_trans extends_trans)

lemma later_refl: "dirs_ok (paths ld) \<Longrightarrow> later ld ld"
  by (simp add: later_def map_later_def)

lemma cache_frame:
  assumes "cache_rpath env sp info l wh st = Inr (found, sp', l', st')" "dirs_ok st"
  shows "same_but_origin l l' \<and> dirs_ok st' \<and> extends st st' \<and> (dirs sp \<noteq> Dirs_null \<longrightarrow> sp' = sp) \<and>
    (if found then \<exists>ps. dirs sp' = Dirs ps else dirs sp' = Dirs_none)"
proof (cases "dirs sp = Dirs_null \<and> info \<noteq> None")
  case True
  then obtain rpath where "decompose_rpath env sp rpath l wh st = Inr (found, sp', l', st')"
    using assms(1) by (auto simp: cache_rpath_def)
  from decompose_frame [OF this assms(2)] True show ?thesis by simp
next
  case False
  with assms show ?thesis by (auto simp: cache_rpath_def split: dirs_ptr.splits option.splits)
qed

lemma cache_rpath_settles:
  assumes "cache_rpath_at env a ld = Inr (found, ld1)" "dirs_ok (paths ld)"
  shows "later ld ld1 \<and> (if found then \<exists>ps. dirs (l_rpath_dirs (maps ld1 a)) = Dirs ps
    else dirs (l_rpath_dirs (maps ld1 a)) = Dirs_none)"
proof -
  from assms(1) obtain sp l st where c: "cache_rpath env (l_rpath_dirs (maps ld a)) (dt_rpath (maps ld a)) (maps ld a) ''RPATH'' (paths ld) =
      Inr (found, sp, l, st)" "ld1 = ld\<lparr>maps := (maps ld)(a := l\<lparr>l_rpath_dirs := sp\<rparr>), paths := st\<rparr>"
    by (auto simp: cache_rpath_at_def rbind_eq_Inr_iff)
  from cache_frame [OF c(1) assms(2)] show ?thesis
    unfolding c(2) by (auto simp: later_def map_later_def same_but_origin_def)
qed

lemma cache_runpath_settles:
  assumes "cache_runpath_at env a ld = Inr (found, ld1)" "dirs_ok (paths ld)"
  shows "later ld ld1 \<and> (if found then \<exists>ps. dirs (l_runpath_dirs (maps ld1 a)) = Dirs ps
    else dirs (l_runpath_dirs (maps ld1 a)) = Dirs_none)"
proof -
  from assms(1) obtain sp l st where c: "cache_rpath env (l_runpath_dirs (maps ld a)) (dt_runpath (maps ld a)) (maps ld a) ''RUNPATH'' (paths ld) =
      Inr (found, sp, l, st)" "ld1 = ld\<lparr>maps := (maps ld)(a := l\<lparr>l_runpath_dirs := sp\<rparr>), paths := st\<rparr>"
    by (auto simp: cache_runpath_at_def rbind_eq_Inr_iff)
  from cache_frame [OF c(1) assms(2)] show ?thesis
    unfolding c(2) by (auto simp: later_def map_later_def same_but_origin_def)
qed

text \<open>On a settled map the cache is only read.\<close>

lemma loader_same: "ld\<lparr>maps := (maps ld)(a := (maps ld a)\<lparr>l_rpath_dirs := l_rpath_dirs (maps ld a)\<rparr>), paths := paths ld\<rparr> = ld"
  "ld\<lparr>maps := (maps ld)(a := (maps ld a)\<lparr>l_runpath_dirs := l_runpath_dirs (maps ld a)\<rparr>), paths := paths ld\<rparr> = ld"
  by simp_all

lemma cache_rpath_again:
  assumes "if found then \<exists>ps. dirs (l_rpath_dirs (maps ld1 a)) = Dirs ps else dirs (l_rpath_dirs (maps ld1 a)) = Dirs_none"
    and "later ld1 ld'"
  shows "cache_rpath_at env a ld' = Inr (found, ld') \<and> l_rpath_dirs (maps ld' a) = l_rpath_dirs (maps ld1 a)"
proof -
  have eq: "l_rpath_dirs (maps ld' a) = l_rpath_dirs (maps ld1 a)"
    using assms by (cases found) (auto simp: later_def map_later_def)
  then show ?thesis using assms(1) loader_same(1) [of ld' a]
    by (cases found) (auto simp: cache_rpath_at_def cache_rpath_def)
qed

lemma cache_runpath_again:
  assumes "if found then \<exists>ps. dirs (l_runpath_dirs (maps ld1 a)) = Dirs ps else dirs (l_runpath_dirs (maps ld1 a)) = Dirs_none"
    and "later ld1 ld'"
  shows "cache_runpath_at env a ld' = Inr (found, ld') \<and> l_runpath_dirs (maps ld' a) = l_runpath_dirs (maps ld1 a)"
proof -
  have eq: "l_runpath_dirs (maps ld' a) = l_runpath_dirs (maps ld1 a)"
    using assms by (cases found) (auto simp: later_def map_later_def)
  then show ?thesis using assms(1) loader_same(2) [of ld' a]
    by (cases found) (auto simp: cache_runpath_at_def cache_rpath_def)
qed
section \<open>The passes in step\<close>

text \<open>The buffer \<open>sf\<close> of the second pass, sized for \<open>n\<close> entries and \<open>s\<close> bytes, at the point where the first pass had \<open>si\<close>.\<close>

definition in_step :: "nat \<Rightarrow> nat \<Rightarrow> serinfo \<Rightarrow> serinfo \<Rightarrow> bool" where
  "in_step n s si sf \<longleftrightarrow>
     dls_cnt sf = n \<and> dls_size sf = 16 + 16 * n + s \<and> length (names sf) = dls_cnt si \<and> used sf = dls_size si"

definition within :: "nat \<Rightarrow> nat \<Rightarrow> serinfo \<Rightarrow> bool" where
  "within n s si \<longleftrightarrow> dls_cnt si \<le> n \<and> dls_size si \<le> s"

definition grows :: "serinfo \<Rightarrow> serinfo \<Rightarrow> bool" where
  "grows a b \<longleftrightarrow> dls_cnt a \<le> dls_cnt b \<and> dls_size a \<le> dls_size b"

lemma grows_trans: "grows a b \<Longrightarrow> grows b c \<Longrightarrow> grows a c"
  by (simp add: grows_def)

lemma within_grows: "grows a b \<Longrightarrow> within n s b \<Longrightarrow> within n s a"
  by (simp add: grows_def within_def)

lemma add_path_elem_step:
  assumes "add_path_elem True r si = Inr si1" "in_step n s si sf" "within n s si1"
  shows "\<exists>sf1. add_path_elem False r sf = Inr sf1 \<and> in_step n s si1 sf1"
  using assms by (auto simp: add_path_elem_def in_step_def within_def Let_def)

lemma add_path_elem_grows: "add_path_elem True r si = Inr si1 \<Longrightarrow> grows si si1"
  by (auto simp: add_path_elem_def grows_def)

lemma add_path_elems_grows: "add_path_elems True st ps si = Inr si1 \<Longrightarrow> grows si si1"
proof (induction ps arbitrary: si)
  case (Cons p ps)
  then obtain r si2 where "add_path_elem True r si = Inr si2" "add_path_elems True st ps si2 = Inr si1"
    by (auto simp: rbind_eq_Inr_iff split: option.splits)
  then show ?case using Cons.IH add_path_elem_grows grows_trans by blast
qed (simp add: grows_def)

lemma add_path_elems_step:
  "add_path_elems True st ps si = Inr si1 \<Longrightarrow> extends st st' \<Longrightarrow> in_step n s si sf \<Longrightarrow> within n s si1 \<Longrightarrow>
   \<exists>sf1. add_path_elems False st' ps sf = Inr sf1 \<and> in_step n s si1 sf1"
proof (induction ps arbitrary: si sf)
  case (Cons p ps)
  then obtain r si2 where r: "map_of (all_dirs st) p = Some r" "add_path_elem True r si = Inr si2"
      "add_path_elems True st ps si2 = Inr si1"
    by (auto simp: rbind_eq_Inr_iff split: option.splits)
  have "within n s si2" using within_grows [OF add_path_elems_grows [OF r(3)] Cons.prems(4)] .
  then obtain sf2 where "add_path_elem False r sf = Inr sf2" "in_step n s si2 sf2"
    using add_path_elem_step [OF r(2) Cons.prems(3)] by blast
  moreover have "map_of (all_dirs st') p = Some r" using r(1) Cons.prems(2) by (simp add: extends_def)
  ultimately show ?case using Cons.IH [OF r(3) Cons.prems(2) _ Cons.prems(4)] by auto
qed simp

lemma add_path_step:
  assumes "add_path True st sps si = Inr si1" "extends st st'" "in_step n s si sf" "within n s si1"
  shows "\<exists>sf1. add_path False st' sps sf = Inr sf1 \<and> in_step n s si1 sf1"
  using assms add_path_elems_step [OF _ assms(2,3,4)]
  by (auto simp: add_path_def split: dirs_ptr.splits if_splits)

lemma add_path_grows: "add_path True st sps si = Inr si1 \<Longrightarrow> grows si si1"
  by (auto simp: add_path_def add_path_elems_grows split: dirs_ptr.splits if_splits) (simp add: grows_def)

text \<open>One step of the query: if the first pass makes it, later states let the second make it too.\<close>

definition step_ok :: "(loader \<times> serinfo \<Rightarrow> (loader \<times> serinfo) res) \<Rightarrow> (loader \<times> serinfo \<Rightarrow> (loader \<times> serinfo) res) \<Rightarrow> bool" where
  "step_ok count fill \<longleftrightarrow>
     (\<forall>ld si ld1 si1. count (ld, si) = Inr (ld1, si1) \<longrightarrow> dirs_ok (paths ld) \<longrightarrow>
        later ld ld1 \<and> grows si si1 \<and>
        (\<forall>ld' sf n s. later ld1 ld' \<longrightarrow> in_step n s si sf \<longrightarrow> within n s si1 \<longrightarrow>
           (\<exists>sf1. fill (ld', sf) = Inr (ld', sf1) \<and> in_step n s si1 sf1)))"

lemma step_ok_rpath: "step_ok (add_rpath env True a) (add_rpath env False a)"
proof (unfold step_ok_def, intro allI impI)
  fix ld si ld1 si1
  assume run: "add_rpath env True a (ld, si) = Inr (ld1, si1)" and ok: "dirs_ok (paths ld)"
  from run obtain found where c: "cache_rpath_at env a ld = Inr (found, ld1)"
      and p: "if found then add_path True (paths ld1) (l_rpath_dirs (maps ld1 a)) si = Inr si1 else si1 = si"
    by (auto simp: add_rpath_def rbind_eq_Inr_iff split: if_splits)
  note s = cache_rpath_settles [OF c ok]
  show "later ld ld1 \<and> grows si si1 \<and>
        (\<forall>ld' sf n s. later ld1 ld' \<longrightarrow> in_step n s si sf \<longrightarrow> within n s si1 \<longrightarrow>
           (\<exists>sf1. add_rpath env False a (ld', sf) = Inr (ld', sf1) \<and> in_step n s si1 sf1))"
  proof (intro conjI allI impI)
    show "later ld ld1" using s by simp
    show "grows si si1" using p add_path_grows by (cases found) (auto simp: grows_def)
  next
    fix ld' sf n m
    assume l: "later ld1 ld'" and st: "in_step n m si sf" "within n m si1"
    have again: "cache_rpath_at env a ld' = Inr (found, ld')" "l_rpath_dirs (maps ld' a) = l_rpath_dirs (maps ld1 a)"
      using cache_rpath_again [OF _ l] s by blast+
    have "extends (paths ld1) (paths ld')" using l by (simp add: later_def)
    then show "\<exists>sf1. add_rpath env False a (ld', sf) = Inr (ld', sf1) \<and> in_step n m si1 sf1"
      using again p st add_path_step [of "paths ld1"] by (cases found) (fastforce simp: add_rpath_def)+
  qed
qed
lemma step_okD:
  assumes "step_ok count fill" "count (ld, si) = Inr (ld1, si1)" "dirs_ok (paths ld)"
  shows "later ld ld1" "grows si si1" "dirs_ok (paths ld1)"
    "later ld1 ld' \<Longrightarrow> in_step n s si sf \<Longrightarrow> within n s si1 \<Longrightarrow> \<exists>sf1. fill (ld', sf) = Inr (ld', sf1) \<and> in_step n s si1 sf1"
proof -
  have *: "later ld ld1 \<and> grows si si1 \<and>
      (\<forall>ld' sf n s. later ld1 ld' \<longrightarrow> in_step n s si sf \<longrightarrow> within n s si1 \<longrightarrow>
         (\<exists>sf1. fill (ld', sf) = Inr (ld', sf1) \<and> in_step n s si1 sf1))"
    using assms unfolding step_ok_def by blast
  show "later ld ld1" "grows si si1" using * by blast+
  then show "dirs_ok (paths ld1)" by (simp add: later_def)
  show "\<exists>sf1. fill (ld', sf) = Inr (ld', sf1) \<and> in_step n s si1 sf1"
    if "later ld1 ld'" "in_step n s si sf" "within n s si1" using * that by blast
qed

lemma step_okI:
  assumes "\<And>ld si ld1 si1. count (ld, si) = Inr (ld1, si1) \<Longrightarrow> dirs_ok (paths ld) \<Longrightarrow> later ld ld1 \<and> grows si si1"
    and "\<And>ld si ld1 si1 ld' sf n s. count (ld, si) = Inr (ld1, si1) \<Longrightarrow> dirs_ok (paths ld) \<Longrightarrow> later ld1 ld' \<Longrightarrow>
      in_step n s si sf \<Longrightarrow> within n s si1 \<Longrightarrow> \<exists>sf1. fill (ld', sf) = Inr (ld', sf1) \<and> in_step n s si1 sf1"
  shows "step_ok count fill"
  unfolding step_ok_def using assms by blast

text \<open>Two steps in sequence, the second chosen by what does not change later.\<close>

lemma step_ok_seq:
  assumes "step_ok c f" "\<And>k. step_ok (c' k) (f' k)" "\<And>ld ld'. later ld ld' \<Longrightarrow> sel ld' = sel ld"
  shows "step_ok (\<lambda>x. rbind (c x) (\<lambda>x. c' (sel (fst x)) x)) (\<lambda>x. rbind (f x) (\<lambda>x. f' (sel (fst x)) x))"
proof (rule step_okI)
  fix ld si ld1 si1
  assume "rbind (c (ld, si)) (\<lambda>x. c' (sel (fst x)) x) = Inr (ld1, si1)" and ok: "dirs_ok (paths ld)"
  then obtain ld2 si2 where r: "c (ld, si) = Inr (ld2, si2)" "c' (sel ld2) (ld2, si2) = Inr (ld1, si1)"
    by (auto simp: rbind_eq_Inr_iff)
  note a = step_okD [OF assms(1) r(1) ok] and b = step_okD [OF assms(2) r(2)]
  show "later ld ld1 \<and> grows si si1" using a(1,2) b(1,2) [OF a(3)] later_trans grows_trans by blast
  fix ld' sf n s
  assume l: "later ld1 ld'" and st: "in_step n s si sf" and w: "within n s si1"
  have l2: "later ld2 ld'" using b(1) [OF a(3)] l by (rule later_trans)
  obtain sf2 where f2: "f (ld', sf) = Inr (ld', sf2)" "in_step n s si2 sf2"
    using a(4) [OF l2 st within_grows [OF b(2) [OF a(3)] w]] by blast
  then show "\<exists>sf1. rbind (f (ld', sf)) (\<lambda>x. f' (sel (fst x)) x) = Inr (ld', sf1) \<and> in_step n s si1 sf1"
    using b(4) [OF a(3) l f2(2) w] assms(3) [OF l2] by simp
qed

lemma step_ok_skip: "step_ok (\<lambda>x. Inr x) (\<lambda>x. Inr x)"
  by (rule step_okI) (auto simp: later_refl grows_def)

lemma step_ok_fail: "step_ok (\<lambda>x. Inl e) f"
  by (rule step_okI) auto

lemma later_sel:
  assumes "later ld ld'"
  shows "l_loader (maps ld' a) = l_loader (maps ld a)" "env_path_list ld' = env_path_list ld"
    "search_dirs ld' = search_dirs ld" "main_map ld' = main_map ld" "l_ns (maps ld' a) = l_ns (maps ld a)"
    "l_type (maps ld' a) = l_type (maps ld a)" "l_nodeflib (maps ld' a) = l_nodeflib (maps ld a)"
    "dt_runpath (maps ld' a) = dt_runpath (maps ld a)"
  using assms by (simp_all add: later_def map_later_def)

lemma step_ok_rpaths: "step_ok (add_rpaths fuel env True a) (add_rpaths fuel env False a)"
proof (induction fuel arbitrary: a)
  case 0
  then show ?case by (simp add: step_ok_fail)
next
  case (Suc fuel)
  show ?case
  proof (cases a)
    case None
    then show ?thesis using step_ok_skip by simp
  next
    case (Some b)
    have "step_ok (\<lambda>x. rbind (add_rpath env True b x) (\<lambda>x. add_rpaths fuel env True (l_loader (maps (fst x) b)) x))
        (\<lambda>x. rbind (add_rpath env False b x) (\<lambda>x. add_rpaths fuel env False (l_loader (maps (fst x) b)) x))"
      by (rule step_ok_seq [OF step_ok_rpath Suc.IH later_sel(1)])
    moreover have "(\<lambda>(ld, si). add_rpaths fuel env m (l_loader (maps ld b)) (ld, si)) =
        (\<lambda>x. add_rpaths fuel env m (l_loader (maps (fst x) b)) x)" for m by auto
    ultimately show ?thesis using Some by simp
  qed
qed

lemma step_ok_add_path:
  assumes "\<And>ld ld'. later ld ld' \<Longrightarrow> sel ld' = sel ld"
  shows "step_ok (\<lambda>(ld, si). rbind (add_path True (paths ld) (sel ld) si) (\<lambda>si. Inr (ld, si)))
    (\<lambda>(ld, si). rbind (add_path False (paths ld) (sel ld) si) (\<lambda>si. Inr (ld, si)))"
proof (rule step_okI)
  fix ld si ld1 si1
  assume "(case (ld, si) of (ld, si) \<Rightarrow> rbind (add_path True (paths ld) (sel ld) si) (\<lambda>si. Inr (ld, si))) = Inr (ld1, si1)"
    and ok: "dirs_ok (paths ld)"
  then have r: "ld1 = ld" "add_path True (paths ld) (sel ld) si = Inr si1" by (auto simp: rbind_eq_Inr_iff)
  show "later ld ld1 \<and> grows si si1" using r ok later_refl add_path_grows by blast
  fix ld' sf n s
  assume l: "later ld1 ld'" and st: "in_step n s si sf" "within n s si1"
  have "extends (paths ld) (paths ld')" "sel ld' = sel ld" using l assms r(1) by (auto simp: later_def)
  moreover from this(1) obtain sf1 where "add_path False (paths ld') (sel ld) sf = Inr sf1" "in_step n s si1 sf1"
    using add_path_step [OF r(2) _ st] by blast
  ultimately show "\<exists>sf1. (case (ld', sf) of (ld, si) \<Rightarrow> rbind (add_path False (paths ld) (sel ld) si) (\<lambda>si. Inr (ld, si))) = Inr (ld', sf1) \<and>
      in_step n s si1 sf1" by simp
qed

definition add_runpath :: "ld_env \<Rightarrow> bool \<Rightarrow> nat \<Rightarrow> loader \<times> serinfo \<Rightarrow> (loader \<times> serinfo) res" where
  "add_runpath env counting a x =
     (case x of (ld, si) \<Rightarrow>
        rbind (cache_runpath_at env a ld) (\<lambda>(found, ld).
          rbind (if found then add_path counting (paths ld) (l_runpath_dirs (maps ld a)) si else Inr si) (\<lambda>si. Inr (ld, si))))"

lemma step_ok_runpath: "step_ok (add_runpath env True a) (add_runpath env False a)"
proof (rule step_okI)
  fix ld si ld1 si1
  assume run: "add_runpath env True a (ld, si) = Inr (ld1, si1)" and ok: "dirs_ok (paths ld)"
  from run obtain found where c: "cache_runpath_at env a ld = Inr (found, ld1)"
      and p: "if found then add_path True (paths ld1) (l_runpath_dirs (maps ld1 a)) si = Inr si1 else si1 = si"
    by (auto simp: add_runpath_def rbind_eq_Inr_iff split: if_splits)
  note s = cache_runpath_settles [OF c ok]
  show "later ld ld1 \<and> grows si si1" using s p add_path_grows by (cases found) (auto simp: grows_def)
  fix ld' sf n m
  assume l: "later ld1 ld'" and st: "in_step n m si sf" "within n m si1"
  have again: "cache_runpath_at env a ld' = Inr (found, ld')" "l_runpath_dirs (maps ld' a) = l_runpath_dirs (maps ld1 a)"
    using cache_runpath_again [OF _ l] s by blast+
  have "extends (paths ld1) (paths ld')" using l by (simp add: later_def)
  then show "\<exists>sf1. add_runpath env False a (ld', sf) = Inr (ld', sf1) \<and> in_step n m si1 sf1"
    using again p st add_path_step [of "paths ld1"] by (cases found) (fastforce simp: add_runpath_def)+
qed
lemma step_ok_then:
  assumes "step_ok c f" "step_ok c' f'"
  shows "step_ok (\<lambda>x. rbind (c x) c') (\<lambda>x. rbind (f x) f')"
  using step_ok_seq [OF assms(1), of "\<lambda>_. c'" "\<lambda>_. f'" "\<lambda>_. ()"] assms(2) by simp

lemma step_ok_sel:
  assumes "\<And>k. step_ok (c k) (f k)" "\<And>ld ld'. later ld ld' \<Longrightarrow> sel ld' = sel ld"
  shows "step_ok (\<lambda>x. c (sel (fst x)) x) (\<lambda>x. f (sel (fst x)) x)"
  using step_ok_seq [OF step_ok_skip assms] by simp

text \<open>The query as a sequence of such steps.\<close>

definition main_rpath :: "nat \<Rightarrow> loader \<Rightarrow> nat option" where
  "main_rpath a ld =
     (case main_map ld of
        None \<Rightarrow> None
      | Some m \<Rightarrow> if l_ns (maps ld a) = 0 \<and> l_type (maps ld m) \<noteq> lt_loaded \<and> m \<noteq> a then Some m else None)"

definition query_rpaths :: "nat \<Rightarrow> ld_env \<Rightarrow> nat \<Rightarrow> bool \<Rightarrow> bool \<Rightarrow> loader \<times> serinfo \<Rightarrow> (loader \<times> serinfo) res" where
  "query_rpaths fuel env a counting runpath x =
     (if runpath then Inr x
      else rbind (add_rpaths fuel env counting (Some a) x) (\<lambda>x.
        case main_rpath a (fst x) of None \<Rightarrow> Inr x | Some m \<Rightarrow> add_rpath env counting m x))"

definition query_default :: "bool \<Rightarrow> bool \<Rightarrow> loader \<times> serinfo \<Rightarrow> (loader \<times> serinfo) res" where
  "query_default counting nodeflib x =
     (if nodeflib then Inr x
      else (case x of (ld, si) \<Rightarrow> rbind (add_path counting (paths ld) (search_dirs ld) si) (\<lambda>si. Inr (ld, si))))"

definition query :: "nat \<Rightarrow> ld_env \<Rightarrow> nat \<Rightarrow> bool \<Rightarrow> loader \<times> serinfo \<Rightarrow> (loader \<times> serinfo) res" where
  "query fuel env a counting x =
     rbind (query_rpaths fuel env a counting (dt_runpath (maps (fst x) a) \<noteq> None) x) (\<lambda>x.
     rbind ((\<lambda>(ld, si). rbind (add_path counting (paths ld) (env_path_list ld) si) (\<lambda>si. Inr (ld, si))) x) (\<lambda>x.
     rbind (add_runpath env counting a x) (\<lambda>x.
       query_default counting (l_nodeflib (maps (fst x) a)) x)))"

lemma step_ok_query: "step_ok (query fuel env a True) (query fuel env a False)"
proof -
  have main: "step_ok (\<lambda>x. case main_rpath a (fst x) of None \<Rightarrow> Inr x | Some m \<Rightarrow> add_rpath env True m x)
      (\<lambda>x. case main_rpath a (fst x) of None \<Rightarrow> Inr x | Some m \<Rightarrow> add_rpath env False m x)"
  proof (rule step_ok_sel [of "\<lambda>k x. case k of None \<Rightarrow> Inr x | Some m \<Rightarrow> add_rpath env True m x"
      "\<lambda>k x. case k of None \<Rightarrow> Inr x | Some m \<Rightarrow> add_rpath env False m x" "main_rpath a"])
    show "step_ok (\<lambda>x. case k of None \<Rightarrow> Inr x | Some m \<Rightarrow> add_rpath env True m x)
        (\<lambda>x. case k of None \<Rightarrow> Inr x | Some m \<Rightarrow> add_rpath env False m x)" for k
      using step_ok_skip step_ok_rpath by (cases k) simp_all
    show "main_rpath a ld' = main_rpath a ld" if "later ld ld'" for ld ld'
      using later_sel [OF that] by (simp add: main_rpath_def split: option.splits)
  qed
  have "step_ok (query_rpaths fuel env a True r) (query_rpaths fuel env a False r)" for r
    using step_ok_skip step_ok_then [OF step_ok_rpaths main] unfolding query_rpaths_def [abs_def] by (cases r) simp_all
  then have s1: "step_ok (\<lambda>x. query_rpaths fuel env a True (dt_runpath (maps (fst x) a) \<noteq> None) x)
      (\<lambda>x. query_rpaths fuel env a False (dt_runpath (maps (fst x) a) \<noteq> None) x)"
    by (rule step_ok_sel [where sel = "\<lambda>ld. dt_runpath (maps ld a) \<noteq> None"]) (simp add: later_sel)
  have "step_ok (query_default True d) (query_default False d)" for d
    using step_ok_skip step_ok_add_path [of search_dirs] later_sel(3)
    unfolding query_default_def [abs_def] by (cases d) simp_all
  then have s4: "step_ok (\<lambda>x. query_default True (l_nodeflib (maps (fst x) a)) x)
      (\<lambda>x. query_default False (l_nodeflib (maps (fst x) a)) x)"
    by (rule step_ok_sel [where sel = "\<lambda>ld. l_nodeflib (maps ld a)"]) (simp add: later_sel)
  have s2: "step_ok (\<lambda>(ld, si). rbind (add_path True (paths ld) (env_path_list ld) si) (\<lambda>si. Inr (ld, si)))
      (\<lambda>(ld, si). rbind (add_path False (paths ld) (env_path_list ld) si) (\<lambda>si. Inr (ld, si)))"
    by (rule step_ok_add_path) (simp add: later_sel)
  show ?thesis
    unfolding query_def [abs_def] by (intro step_ok_then s1 s2 step_ok_runpath s4)
qed

lemma serinfo_query:
  "dl_rtld_di_serinfo fuel env a counting (ld, si) =
     rbind (query fuel env a counting (ld, (if counting then si\<lparr>dls_cnt := 0, dls_size := 0\<rparr> else si)\<lparr>names := [], used := 0\<rparr>))
       (\<lambda>(ld, si). Inr (ld, if counting then si\<lparr>dls_size := dls_size si + 16 + 16 * dls_cnt si\<rparr> else si))"
proof -
  define s0 where "s0 = (if counting then si\<lparr>dls_cnt := 0, dls_size := 0\<rparr> else si)\<lparr>names := [], used := 0\<rparr>"
  have q1: "(if dt_runpath (maps ld a) \<noteq> None then Inr (ld, s0)
       else rbind (add_rpaths fuel env counting (Some a) (ld, s0)) (\<lambda>(ld, si).
         case main_map ld of
           None \<Rightarrow> Inr (ld, si)
         | Some m \<Rightarrow> if l_ns (maps ld a) = 0 \<and> l_type (maps ld m) \<noteq> lt_loaded \<and> m \<noteq> a
             then add_rpath env counting m (ld, si) else Inr (ld, si))) =
      query_rpaths fuel env a counting (dt_runpath (maps ld a) \<noteq> None) (ld, s0)"
    by (auto simp: query_rpaths_def main_rpath_def split: option.splits intro!: arg_cong [of _ _ "rbind _"] ext)
  show ?thesis
    unfolding dl_rtld_di_serinfo_def query_def prod.case Let_def s0_def [symmetric] fst_conv q1 rbind_assoc
    by (rule arg_cong [of _ _ "rbind _"], rule ext)
      (auto simp: rbind_assoc add_runpath_def query_default_def case_prod_beta intro!: arg_cong [of _ _ "rbind _"] ext)
qed

text \<open>C20: a buffer of the size that the first call of \<open>dlinfo\<close> (RTLD_DI_SERINFOSIZE) computes is filled exactly by the second
  (RTLD_DI_SERINFO): as many entries as were counted, and names that take the rest to the last byte.\<close>

theorem di_serinfo_exact:
  assumes "dl_rtld_di_serinfo fuel env a True (ld, si) = Inr (ld', si')" "dirs_ok (paths ld)"
  shows "\<exists>sf. dl_rtld_di_serinfo fuel env a False (ld', si') = Inr (ld', sf) \<and> length (names sf) = dls_cnt si' \<and>
    16 + 16 * dls_cnt si' + used sf = dls_size si'"
proof -
  define s0 where "s0 = si\<lparr>dls_cnt := 0, dls_size := 0, names := [], used := 0\<rparr>"
  from assms(1) obtain s1 where q: "query fuel env a True (ld, s0) = Inr (ld', s1)"
      "si' = s1\<lparr>dls_size := dls_size s1 + 16 + 16 * dls_cnt s1\<rparr>"
    by (auto simp: serinfo_query s0_def rbind_eq_Inr_iff)
  note st = step_okD [OF step_ok_query q(1) assms(2)]
  define f0 where "f0 = si'\<lparr>names := [], used := 0\<rparr>"
  have "in_step (dls_cnt s1) (dls_size s1) s0 f0" "within (dls_cnt s1) (dls_size s1) s1"
    by (simp_all add: in_step_def within_def f0_def q(2) s0_def)
  then obtain sf where "query fuel env a False (ld', f0) = Inr (ld', sf)" "in_step (dls_cnt s1) (dls_size s1) s1 sf"
    using st(4) [OF later_refl [OF st(3)]] by blast
  then show ?thesis by (auto simp: serinfo_query f0_def q(2) in_step_def)
qed
definition query_elem :: "string \<Rightarrow> search_elem" where
  "query_elem d = \<lparr>dirname = d, what = ''LD_LIBRARY_PATH'', where_ = None, status = [unknown]\<rparr>"

definition query_map :: link_map where
  "query_map = demo_link_map\<lparr>l_rpath_dirs := \<lparr>dirs = Dirs_none, malloced = False\<rparr>,
     l_runpath_dirs := \<lparr>dirs = Dirs_none, malloced = False\<rparr>\<rparr>"

definition query_loader :: loader where
  "query_loader = \<lparr>paths = \<lparr>all_dirs = [(2, query_elem []), (1, query_elem ''/opt/lib/''), (0, query_elem ''/'')], max_dirnamelen = 9\<rparr>,
     env_path_list = \<lparr>dirs = Dirs [1, 2], malloced = False\<rparr>, search_dirs = \<lparr>dirs = Dirs [0], malloced = False\<rparr>,
     maps = (\<lambda>_. query_map), main_map = Some 0\<rparr>"

definition query_info :: serinfo where
  "query_info = \<lparr>dls_size = 0, dls_cnt = 0, names = [], used = 0\<rparr>"

lemma query_settled: "cache_rpath_at env a query_loader = Inr (False, query_loader)"
  "cache_runpath_at env a query_loader = Inr (False, query_loader)"
  using cache_rpath_again [of False query_loader a query_loader env] cache_runpath_again [of False query_loader a query_loader env]
  by (simp_all add: query_loader_def query_map_def later_refl dirs_ok_def query_elem_def)

lemma query_first:
  "dl_rtld_di_serinfo 2 demo_ld_env 0 True (query_loader, query_info) = Inr (query_loader, query_info\<lparr>dls_cnt := 3, dls_size := 77\<rparr>)"
proof -
  have r: "add_rpath demo_ld_env True 0 (query_loader, si) = Inr (query_loader, si)" for si
    by (simp add: add_rpath_def query_settled)
  have c: "l_loader (maps query_loader 0) = None" "dt_runpath (maps query_loader 0) = None" "l_nodeflib (maps query_loader 0) = False"
    by (simp_all add: query_loader_def query_map_def demo_link_map_def)
  have "add_rpaths 2 demo_ld_env True (Some 0) (query_loader, si) = Inr (query_loader, si)" for si
    by (simp add: numeral_2_eq_2 r c)
  moreover have "main_map query_loader = Some 0" by (simp add: query_loader_def)
  moreover have "add_path True (paths query_loader) (env_path_list query_loader) (query_info\<lparr>dls_cnt := 0, dls_size := 0, names := [], used := 0\<rparr>) =
      Inr (query_info\<lparr>dls_cnt := 2, dls_size := 11\<rparr>)" by code_simp
  moreover have "add_path True (paths query_loader) (search_dirs query_loader) (query_info\<lparr>dls_cnt := 2, dls_size := 11\<rparr>) =
      Inr (query_info\<lparr>dls_cnt := 3, dls_size := 13\<rparr>)" by code_simp
  ultimately show ?thesis by (simp add: dl_rtld_di_serinfo_def c query_settled)
qed

theorem di_serinfo_exact_witness:
  "\<exists>sf. dl_rtld_di_serinfo 2 demo_ld_env 0 False (query_loader, query_info\<lparr>dls_cnt := 3, dls_size := 77\<rparr>) = Inr (query_loader, sf) \<and>
     length (names sf) = 3 \<and> 16 + 16 * 3 + used sf = 77"
proof -
  have "dirs_ok (paths query_loader)" by (simp add: query_loader_def dirs_ok_def query_elem_def)
  from di_serinfo_exact [OF query_first this] show ?thesis by simp
qed

end
