(* ===== verification/ElfFile.thy ===== *)
theory ElfFile
  imports Prelude
begin

text \<open>
  ELF files as the loader reads them (64-bit objects, x86-64): the layout of the ELF header, the program headers and
  the notes (elf/elf.h, include/elf.h), the tests of the header and the search for the ABI note in \<open>open_verify\<close>
  (elf/dl-load.c).  A piece of a file or of memory is the list of its bytes; a read behind its end is a fault.
  Lemmas: the header tests accept exactly the headers of \<open>wf_ident\<close> and never report an internal error; the search
  for the ABI note ends, stays inside the note segment and finds the first ABI note.
\<close>

unbundle bit_operations_syntax

section \<open>Little-endian fields\<close>

type_synonym byte = "8 word"

fun le_nat :: "byte list \<Rightarrow> nat" where
  "le_nat [] = 0"
| "le_nat (b # bs) = unat b + 256 * le_nat bs"

definition field :: "nat \<Rightarrow> nat \<Rightarrow> byte list \<Rightarrow> nat" where
  "field off n b = le_nat (take n (drop off b))"

lemma le_nat_bound: "le_nat bs < 256 ^ length bs"
proof (induction bs)
  case Nil
  then show ?case by simp
next
  case (Cons b bs)
  have "unat b < 256" using unsigned_less [of b] by simp
  with Cons show ?case by simp
qed

lemma field_bound: "field off n b < 256 ^ n"
proof -
  have "field off n b < 256 ^ length (take n (drop off b))" unfolding field_def by (rule le_nat_bound)
  also have "\<dots> \<le> 256 ^ n" by (rule power_increasing) simp_all
  finally show ?thesis .
qed

section \<open>Headers\<close>

record ehdr =
  e_ident :: "byte list"
  e_type :: "16 word"
  e_machine :: "16 word"
  e_version :: "32 word"
  e_entry :: "64 word"
  e_phoff :: "64 word"
  e_shoff :: "64 word"
  e_flags :: "32 word"
  e_ehsize :: "16 word"
  e_phentsize :: "16 word"
  e_phnum :: "16 word"
  e_shentsize :: "16 word"
  e_shnum :: "16 word"
  e_shstrndx :: "16 word"

definition get_ehdr :: "byte list \<Rightarrow> ehdr" where
  "get_ehdr b =
     \<lparr>e_ident = take 16 b, e_type = of_nat (field 16 2 b), e_machine = of_nat (field 18 2 b),
      e_version = of_nat (field 20 4 b), e_entry = of_nat (field 24 8 b), e_phoff = of_nat (field 32 8 b),
      e_shoff = of_nat (field 40 8 b), e_flags = of_nat (field 48 4 b), e_ehsize = of_nat (field 52 2 b),
      e_phentsize = of_nat (field 54 2 b), e_phnum = of_nat (field 56 2 b), e_shentsize = of_nat (field 58 2 b),
      e_shnum = of_nat (field 60 2 b), e_shstrndx = of_nat (field 62 2 b)\<rparr>"

record phdr =
  p_type :: "32 word"
  p_flags :: "32 word"
  p_offset :: "64 word"
  p_vaddr :: "64 word"
  p_paddr :: "64 word"
  p_filesz :: "64 word"
  p_memsz :: "64 word"
  p_align :: "64 word"

definition get_phdr :: "byte list \<Rightarrow> phdr" where
  "get_phdr b =
     \<lparr>p_type = of_nat (field 0 4 b), p_flags = of_nat (field 4 4 b), p_offset = of_nat (field 8 8 b),
      p_vaddr = of_nat (field 16 8 b), p_paddr = of_nat (field 24 8 b), p_filesz = of_nat (field 32 8 b),
      p_memsz = of_nat (field 40 8 b), p_align = of_nat (field 48 8 b)\<rparr>"

definition get_phdrs :: "nat \<Rightarrow> byte list \<Rightarrow> phdr list" where
  "get_phdrs n b = map (\<lambda>i. get_phdr (drop (56 * i) b)) [0..<n]"

section \<open>The tests of the ELF header\<close>

definition elfmag :: "byte list" where
  "elfmag = [0x7F, 0x45, 0x4C, 0x46]"

definition expected :: "byte list" where
  "expected = elfmag @ [2, 1, 1, 0, 0, 0, 0, 0, 0, 0, 0, 0]"

definition expected2 :: "byte list" where
  "expected2 = elfmag @ [2, 1, 1, 3, 0]"

definition valid_elf_header :: "byte list \<Rightarrow> byte list \<Rightarrow> nat \<Rightarrow> bool" where
  "valid_elf_header hdr ex n \<longleftrightarrow> take n hdr = take n ex \<or> take n hdr = take n expected2"

definition valid_elf_osabi :: "byte \<Rightarrow> bool" where
  "valid_elf_osabi osabi \<longleftrightarrow> osabi = 0 \<or> osabi = 3"

text \<open>\<open>libc_abi_max\<close> stands for \<open>LIBC_ABI_MAX\<close> of the generated header libc-abis.h.\<close>

definition valid_elf_abiversion :: "nat \<Rightarrow> byte \<Rightarrow> byte \<Rightarrow> bool" where
  "valid_elf_abiversion libc_abi_max osabi ver \<longleftrightarrow> ver = 0 \<or> osabi = 3 \<and> unat ver < libc_abi_max"

definition elf_machine_matches_host :: "ehdr \<Rightarrow> bool" where
  "elf_machine_matches_host h \<longleftrightarrow> e_machine h = 62"

definition elf_machine_reject_phdr_p :: "phdr list \<Rightarrow> bool" where
  "elf_machine_reject_phdr_p phdrs = False"

datatype verdict =
    Accept
  | Close_and_out bool    \<comment> \<open>not usable here, with the new value of \<open>found_other_class\<close> if true\<close>
  | Lose string           \<comment> \<open>an error with its message\<close>

text \<open>What is wrong with an \<open>e_ident\<close> that fails the combined test.\<close>

definition ident_error :: "nat \<Rightarrow> byte list \<Rightarrow> verdict" where
  "ident_error libc_abi_max i =
     (if take 4 i \<noteq> elfmag then Lose ''invalid ELF header''
      else if i ! 4 \<noteq> 2 then Close_and_out True
      else if i ! 5 \<noteq> 1 then Lose ''ELF file data encoding not little-endian''
      else if i ! 6 \<noteq> 1 then Lose ''ELF file version ident does not match current one''
      else if \<not> valid_elf_osabi (i ! 7) then Lose ''ELF file OS ABI invalid''
      else if \<not> valid_elf_abiversion libc_abi_max (i ! 7) (i ! 8) then Lose ''ELF file ABI version invalid''
      else if take 7 (drop 9 i) \<noteq> take 7 (drop 9 expected) then Lose ''nonzero padding in e_ident''
      else Lose ''internal error'')"

definition header_verdict :: "nat \<Rightarrow> ehdr \<Rightarrow> verdict" where
  "header_verdict libc_abi_max h =
     (let i = e_ident h in
      if \<not> valid_elf_header i expected 8 \<or> \<not> valid_elf_abiversion libc_abi_max (i ! 7) (i ! 8)
         \<or> take 7 (drop 9 i) \<noteq> take 7 (drop 9 expected)
      then ident_error libc_abi_max i
      else if e_version h \<noteq> 1 then Lose ''ELF file version does not match current one''
      else if \<not> elf_machine_matches_host h then Close_and_out False
      else if e_type h \<noteq> 3 \<and> e_type h \<noteq> 2 then Lose ''only ET_DYN and ET_EXEC can be loaded''
      else if e_phentsize h \<noteq> 56 then Lose ''ELF file's phentsize not the expected size''
      else Accept)"

text \<open>The headers the loader is meant to accept, as a condition on every byte of \<open>e_ident\<close>.\<close>

definition wf_ident :: "nat \<Rightarrow> byte list \<Rightarrow> bool" where
  "wf_ident libc_abi_max i \<longleftrightarrow>
     (\<exists>osabi ver. i = elfmag @ [2, 1, 1, osabi, ver] @ replicate 7 0 \<and>
        (osabi = 0 \<and> ver = 0 \<or> osabi = 3 \<and> (ver = 0 \<or> unat ver < libc_abi_max)))"

definition wf_ehdr :: "nat \<Rightarrow> ehdr \<Rightarrow> bool" where
  "wf_ehdr libc_abi_max h \<longleftrightarrow>
     wf_ident libc_abi_max (e_ident h) \<and> e_version h = 1 \<and> e_machine h = 62 \<and>
     (e_type h = 2 \<or> e_type h = 3) \<and> e_phentsize h = 56"

lemma list16:
  assumes "length i = 16"
  obtains a0 a1 a2 a3 a4 a5 a6 a7 a8 a9 a10 a11 a12 a13 a14 a15
  where "i = [a0, a1, a2, a3, a4, a5, a6, a7, a8, a9, a10, a11, a12, a13, a14, a15]"
  using assms by (auto simp: length_Suc_conv numeral_eq_Suc)

lemma header_accept_iff:
  assumes "length (e_ident h) = 16"
  shows "header_verdict n h = Accept \<longleftrightarrow> wf_ehdr n h"
proof -
  obtain a0 a1 a2 a3 a4 a5 a6 a7 a8 a9 a10 a11 a12 a13 a14 a15
    where i: "e_ident h = [a0, a1, a2, a3, a4, a5, a6, a7, a8, a9, a10, a11, a12, a13, a14, a15]"
    using assms by (rule list16)
  have ie: "ident_error n (e_ident h) \<noteq> Accept" by (simp add: ident_error_def)
  have "valid_elf_header (e_ident h) expected 8 \<and> valid_elf_abiversion n (e_ident h ! 7) (e_ident h ! 8)
      \<and> take 7 (drop 9 (e_ident h)) = take 7 (drop 9 expected) \<longleftrightarrow> wf_ident n (e_ident h)"
    unfolding i by (auto simp: valid_elf_header_def valid_elf_abiversion_def expected_def expected2_def
        elfmag_def wf_ident_def replicate_eq_replicate numeral_eq_Suc)
  then show ?thesis using ie unfolding header_verdict_def wf_ehdr_def elf_machine_matches_host_def Let_def by auto
qed

lemma no_internal_error:
  assumes "length (e_ident h) = 16"
  shows "header_verdict n h \<noteq> Lose ''internal error''"
proof -
  obtain a0 a1 a2 a3 a4 a5 a6 a7 a8 a9 a10 a11 a12 a13 a14 a15
    where i: "e_ident h = [a0, a1, a2, a3, a4, a5, a6, a7, a8, a9, a10, a11, a12, a13, a14, a15]"
    using assms by (rule list16)
  show ?thesis
    unfolding header_verdict_def Let_def i ident_error_def
    by (auto simp: valid_elf_header_def valid_elf_osabi_def expected_def expected2_def elfmag_def numeral_eq_Suc)
qed
section \<open>Notes\<close>

definition align_up :: "64 word \<Rightarrow> 64 word \<Rightarrow> 64 word" where
  "align_up base sz = (base + sz - 1) AND (- sz)"

definition elf_note_desc_offset :: "64 word \<Rightarrow> 64 word \<Rightarrow> 64 word" where
  "elf_note_desc_offset namesz align = align_up (12 + namesz) align"

definition elf_note_next_offset :: "64 word \<Rightarrow> 64 word \<Rightarrow> 64 word \<Rightarrow> 64 word" where
  "elf_note_next_offset namesz descsz align = align_up (elf_note_desc_offset namesz align + descsz) align"

definition note_word :: "nat \<Rightarrow> byte list \<Rightarrow> 32 word" where
  "note_word i b = of_nat (field (4 * i) 4 b)"

text \<open>The same numbers without a machine word in sight.\<close>

definition round_up :: "nat \<Rightarrow> nat \<Rightarrow> nat" where
  "round_up a n = (n + a - 1) div a * a"

definition note_len :: "nat \<Rightarrow> nat \<Rightarrow> nat \<Rightarrow> nat" where
  "note_len a namesz descsz = round_up a (round_up a (12 + namesz) + descsz)"

lemma and_minus_exp:
  fixes x :: "64 word"
  shows "unat (x AND (- (2 ^ n))) = unat x div 2 ^ n * 2 ^ n"
proof -
  have "x AND (- (2 ^ n)) = push_bit n (drop_bit n x)"
    by (rule bit_word_eqI) (auto simp: bit_simps minus_exp_eq_not_mask)
  also have "unat \<dots> = take_bit 64 (push_bit n (drop_bit n (unat x)))"
  proof -
    have "unat x < 2 ^ 64" using unsigned_less [of x] by simp
    then show ?thesis by (simp add: unsigned_push_bit_eq unsigned_drop_bit_eq take_bit_nat_eq_self)
  qed
  also have "\<dots> = take_bit 64 (unat x div 2 ^ n * 2 ^ n)"
    by (simp add: push_bit_eq_mult drop_bit_eq_div)
  also have "\<dots> = unat x div 2 ^ n * 2 ^ n"
  proof -
    have "unat x div 2 ^ n * 2 ^ n \<le> unat x" by (rule div_times_less_eq_dividend)
    also have "\<dots> < 2 ^ 64" using unsigned_less [of x] by simp
    finally show ?thesis by (simp add: take_bit_eq_mod)
  qed
  finally show ?thesis .
qed

lemma unat_align_up:
  assumes "sz = 4 \<or> sz = 8" "unat base + 8 < 2 ^ 64"
  shows "unat (align_up base sz) = round_up (unat sz) (unat base)"
proof -
  have s: "unat sz = 4 \<and> - sz = - (2 ^ 2) \<or> unat sz = 8 \<and> - sz = - (2 ^ 3)" using assms(1) by auto
  have "unat (base + sz - 1) = unat base + unat sz - 1"
  proof -
    have eq: "base + sz - 1 = of_nat (unat base + unat sz - 1)" using s by (auto simp: of_nat_diff)
    have "unat base + unat sz - 1 < 2 ^ 64" using s assms(2) by auto
    then show ?thesis unfolding eq by (simp add: unat_of_nat)
  qed
  with s show ?thesis
    unfolding align_up_def round_up_def
    using and_minus_exp [of "base + sz - 1" 2] and_minus_exp [of "base + sz - 1" 3] by auto
qed

lemma round_up_ge:
  assumes "0 < a"
  shows "n \<le> round_up a n"
proof -
  have "(n + a - 1) mod a < a" using assms by simp
  moreover have "(n + a - 1) div a * a + (n + a - 1) mod a = n + a - 1" by (rule div_mult_mod_eq)
  ultimately show ?thesis unfolding round_up_def by linarith
qed

lemma round_up_less:
  assumes "0 < a"
  shows "round_up a n < n + a"
proof -
  have "(n + a - 1) div a * a \<le> n + a - 1" by (rule div_times_less_eq_dividend)
  with assms show ?thesis unfolding round_up_def by linarith
qed

lemma unat_ucast32: "unat (ucast (w :: 32 word) :: 64 word) = unat w"
proof -
  have "unat w < 2 ^ 32" using unsigned_less [of w] by simp
  then show ?thesis by (simp add: unsigned_ucast_eq take_bit_nat_eq_self)
qed

lemma unat_note_next:
  fixes namesz descsz :: "32 word"
  assumes "align = 4 \<or> align = 8"
  shows "unat (elf_note_next_offset (ucast namesz) (ucast descsz) align) = note_len (unat align) (unat namesz) (unat descsz)"
proof -
  have a: "unat align = 4 \<or> unat align = 8" using assms by auto
  have n: "unat namesz < 2 ^ 32" and d: "unat descsz < 2 ^ 32" using unsigned_less [of namesz] unsigned_less [of descsz] by simp_all
  have 1: "unat (12 + ucast namesz :: 64 word) = 12 + unat namesz"
  proof -
    have eq: "(12 + ucast namesz :: 64 word) = of_nat (12 + unat namesz)" by simp
    show ?thesis unfolding eq using n by (subst unat_of_nat) simp
  qed
  define dof where "dof = elf_note_desc_offset (ucast namesz) align"
  have 2: "unat dof = round_up (unat align) (12 + unat namesz)"
    unfolding dof_def elf_note_desc_offset_def using unat_align_up [OF assms, of "12 + ucast namesz"] 1 n by simp
  have 3: "unat dof < 2 ^ 33" using round_up_less [of "unat align" "12 + unat namesz"] 2 a n by auto
  have 4: "unat (dof + ucast descsz) = unat dof + unat descsz"
  proof -
    have eq: "dof + ucast descsz = of_nat (unat dof + unat descsz)" by simp
    show ?thesis unfolding eq using 3 d by (subst unat_of_nat) simp
  qed
  show ?thesis
    unfolding elf_note_next_offset_def dof_def [symmetric] note_len_def
    using unat_align_up [OF assms, of "dof + ucast descsz"] 2 3 4 d by simp
qed

lemma note_len_ge: "0 < a \<Longrightarrow> 12 + namesz + descsz \<le> note_len a namesz descsz"
  unfolding note_len_def using round_up_ge [of a "12 + namesz"] round_up_ge [of a "round_up a (12 + namesz) + descsz"] by linarith

section \<open>The search for the ABI note\<close>

definition expected_note :: "byte list" where
  "expected_note = [4, 0, 0, 0, 16, 0, 0, 0, 1, 0, 0, 0, 0x47, 0x4E, 0x55, 0]"

definition note_align :: "bool \<Rightarrow> 64 word" where
  "note_align is8 = (if is8 then 8 else 4)"

lemma note_align_cases: "note_align is8 = 4 \<or> note_align is8 = 8"
  by (simp add: note_align_def)

text \<open>
  The loop over the notes of a segment whose alignment is 4 or 8: \<open>sz\<close> bytes are left from \<open>abi_note\<close> on.  It
  ends with \<open>sz = 0\<close> when there is no ABI note.
\<close>

function note_scan :: "bool \<Rightarrow> 64 word \<Rightarrow> byte list \<Rightarrow> (64 word \<times> byte list) res" where
  "note_scan is8 sz abi_note =
     (if length abi_note < 16 then Inl Oob_read
      else if take 16 abi_note = expected_note then Inr (sz, abi_note)
      else
        let note_size = elf_note_next_offset (ucast (note_word 0 abi_note)) (ucast (note_word 1 abi_note)) (note_align is8) in
        if sz - 32 < note_size then Inr (0, abi_note)
        else note_scan is8 (sz - note_size) (drop (unat note_size) abi_note))"
  by pat_completeness auto
termination
proof (relation "measure (\<lambda>(_, _, b). length b)", goal_cases)
  case 1
  then show ?case by simp
next
  case (2 is8 sz b ns)
  have "0 < unat (note_align is8)" by (auto simp: note_align_def)
  with note_len_ge [OF this] have "0 < unat ns"
    unfolding 2(3) unat_note_next [OF note_align_cases] by (metis add_gr_0 less_le_trans zero_less_numeral)
  with 2 show ?case by (auto simp: not_less)
qed

declare note_scan.simps [simp del]

text \<open>
  The places where a note of the segment begins with at least 32 bytes left, which an ABI note takes.
\<close>

definition note_size_at :: "bool \<Rightarrow> byte list \<Rightarrow> nat" where
  "note_size_at is8 b = note_len (if is8 then 8 else 4) (unat (note_word 0 b)) (unat (note_word 1 b))"

inductive note_at :: "bool \<Rightarrow> byte list \<Rightarrow> nat \<Rightarrow> bool" for is8 b where
  first: "32 \<le> length b \<Longrightarrow> note_at is8 b 0"
| later: "note_at is8 b k \<Longrightarrow> k + note_size_at is8 (drop k b) + 32 \<le> length b \<Longrightarrow>
          note_at is8 b (k + note_size_at is8 (drop k b))"

definition is_abi_note :: "byte list \<Rightarrow> bool" where
  "is_abi_note b \<longleftrightarrow> take 16 b = expected_note"

lemma note_size_at_word:
  "unat (elf_note_next_offset (ucast (note_word 0 b)) (ucast (note_word 1 b)) (note_align is8)) = note_size_at is8 b"
  unfolding unat_note_next [OF note_align_cases] note_size_at_def by (simp add: note_align_def)

lemma note_size_at_ge: "12 \<le> note_size_at is8 b"
  unfolding note_size_at_def
  using note_len_ge [of "if is8 then 8 else 4" "unat (note_word 0 b)" "unat (note_word 1 b)"] by (cases is8) simp_all

lemma note_at_length: "note_at is8 b k \<Longrightarrow> k + 32 \<le> length b"
  by (induction rule: note_at.induct) auto

lemma note_at_tail:
  assumes "note_at is8 b k" "note_size_at is8 b + 32 \<le> length b"
  shows "k = 0 \<or> (\<exists>j. k = note_size_at is8 b + j \<and> note_at is8 (drop (note_size_at is8 b) b) j)"
  using assms
proof (induction rule: note_at.induct)
  case first
  then show ?case by simp
next
  case (later k)
  let ?n = "note_size_at is8 b"
  from later.IH later.prems consider "k = 0" | j where "k = ?n + j" "note_at is8 (drop ?n b) j" by blast
  then show ?case
  proof cases
    case 1
    have "note_at is8 (drop ?n b) 0" using later.prems by (intro note_at.first) simp
    with 1 show ?thesis by auto
  next
    case 2
    have "note_at is8 (drop ?n b) (j + note_size_at is8 (drop j (drop ?n b)))"
      using 2 later.hyps(2) by (intro note_at.later) (auto simp: add.commute)
    with 2 show ?thesis by (auto simp: add.commute add.assoc intro!: exI [of _ "j + note_size_at is8 (drop j (drop ?n b))"])
  qed
qed

lemma note_at_first_only:
  assumes "note_at is8 b k" "length b < note_size_at is8 b + 32"
  shows "k = 0"
  using assms by (induction rule: note_at.induct) auto

lemma note_at_shift:
  assumes "note_at is8 (drop n b) j" "n = note_size_at is8 b" "32 \<le> length b"
  shows "note_at is8 b (n + j)"
  using assms(1)
proof (induction rule: note_at.induct)
  case first
  then show ?case using note_at.later [OF note_at.first, of b is8] assms(2,3) by simp
next
  case (later k)
  have "drop k (drop n b) = drop (n + k) b" by (simp add: add.commute)
  with later have "note_at is8 b ((n + k) + note_size_at is8 (drop (n + k) b))"
    by (intro note_at.later) auto
  with \<open>drop k (drop n b) = drop (n + k) b\<close> show ?case by (simp only: add.assoc)
qed

definition first_abi_note :: "bool \<Rightarrow> byte list \<Rightarrow> nat \<Rightarrow> bool" where
  "first_abi_note is8 b k \<longleftrightarrow>
     note_at is8 b k \<and> is_abi_note (drop k b) \<and> (\<forall>j < k. note_at is8 b j \<longrightarrow> \<not> is_abi_note (drop j b))"

definition no_abi_note :: "bool \<Rightarrow> byte list \<Rightarrow> bool" where
  "no_abi_note is8 b \<longleftrightarrow> (\<forall>k. note_at is8 b k \<longrightarrow> \<not> is_abi_note (drop k b))"

lemma no_abi_note_tail:
  assumes "no_abi_note is8 (drop n b)" "n = note_size_at is8 b" "n + 32 \<le> length b" "\<not> is_abi_note b"
  shows "no_abi_note is8 b"
  unfolding no_abi_note_def
proof (intro allI impI)
  fix k assume "note_at is8 b k"
  with note_at_tail [OF this] assms(2,3) consider "k = 0" | j where "k = n + j" "note_at is8 (drop n b) j" by auto
  then show "\<not> is_abi_note (drop k b)"
  proof cases
    case 2
    with assms(1) have "\<not> is_abi_note (drop j (drop n b))" by (auto simp: no_abi_note_def)
    with 2 show ?thesis by (simp add: add.commute)
  qed (use assms(4) in simp)
qed

lemma first_abi_note_tail:
  assumes "first_abi_note is8 (drop n b) k" "n = note_size_at is8 b" "n + 32 \<le> length b" "\<not> is_abi_note b"
  shows "first_abi_note is8 b (n + k)"
  unfolding first_abi_note_def
proof (intro conjI allI impI)
  show "note_at is8 b (n + k)" using assms note_at_shift [of is8 n b k] by (simp add: first_abi_note_def)
  show "is_abi_note (drop (n + k) b)" using assms(1) by (simp add: first_abi_note_def add.commute)
  fix i assume "i < n + k" "note_at is8 b i"
  with note_at_tail [of is8 b i] assms(2,3) consider "i = 0" | j where "i = n + j" "note_at is8 (drop n b) j" by auto
  then show "\<not> is_abi_note (drop i b)"
  proof cases
    case 2
    with assms(1) \<open>i < n + k\<close> have "\<not> is_abi_note (drop j (drop n b))" by (auto simp: first_abi_note_def)
    with 2 show ?thesis by (simp add: add.commute)
  qed (use assms(4) in simp)
qed

lemma note_scan_total:
  assumes "unat sz = length b" "32 \<le> length b"
  shows "\<exists>s rest. note_scan is8 sz b = Inr (s, rest) \<and>
    (s = 0 \<and> no_abi_note is8 b \<or> (\<exists>k. first_abi_note is8 b k \<and> rest = drop k b \<and> unat s = length rest))"
  using assms
proof (induction is8 sz b rule: note_scan.induct)
  case (1 is8 sz b)
  define ns where "ns = elf_note_next_offset (ucast (note_word 0 b)) (ucast (note_word 1 b)) (note_align is8)"
  have n: "unat ns = note_size_at is8 b" unfolding ns_def by (rule note_size_at_word)
  have d: "unat (sz - 32) = length b - 32"
  proof -
    have "(32 :: 64 word) \<le> sz" using 1(2,3) by (simp add: word_le_nat_alt)
    from unat_sub [OF this] 1(2) show ?thesis by simp
  qed
  consider (abi) "is_abi_note b"
    | (short) "\<not> is_abi_note b" "sz - 32 < ns" | (rec) "\<not> is_abi_note b" "\<not> sz - 32 < ns" by blast
  then show ?case
  proof cases
    case abi
    then have "note_scan is8 sz b = Inr (sz, b)"
      using 1(3) by (subst note_scan.simps) (simp add: is_abi_note_def)
    moreover have "first_abi_note is8 b 0" using abi 1(3) by (simp add: first_abi_note_def note_at.first)
    ultimately show ?thesis using 1(2) by (intro exI conjI) (auto intro!: exI [of _ 0])
  next
    case short
    then have "note_scan is8 sz b = Inr (0, b)"
      using 1(3) by (subst note_scan.simps) (simp add: is_abi_note_def ns_def Let_def)
    moreover have "length b < note_size_at is8 b + 32" using short(2) d n by (simp add: word_less_nat_alt)
    then have "no_abi_note is8 b"
      using short(1) note_at_first_only [of is8 b] by (fastforce simp: no_abi_note_def)
    ultimately show ?thesis by blast
  next
    case rec
    have fits: "unat ns + 32 \<le> length b" using rec(2) d 1(3) by (auto simp: word_less_nat_alt)
    have "ns \<le> sz" using fits 1(2) by (simp add: word_le_nat_alt)
    from unat_sub [OF this] have sub: "unat (sz - ns) = length (drop (unat ns) b)" using 1(2) by simp
    have step: "note_scan is8 sz b = note_scan is8 (sz - ns) (drop (unat ns) b)"
      using 1(3) rec by (subst note_scan.simps) (simp add: is_abi_note_def ns_def Let_def)
    have ih: "\<exists>s rest. note_scan is8 (sz - ns) (drop (unat ns) b) = Inr (s, rest) \<and>
      (s = 0 \<and> no_abi_note is8 (drop (unat ns) b) \<or>
       (\<exists>k. first_abi_note is8 (drop (unat ns) b) k \<and> rest = drop k (drop (unat ns) b) \<and> unat s = length rest))"
      using 1(1) [OF _ _ ns_def] rec 1(3) fits sub by (auto simp: is_abi_note_def)
    then obtain s rest where s: "note_scan is8 (sz - ns) (drop (unat ns) b) = Inr (s, rest)"
      and c: "s = 0 \<and> no_abi_note is8 (drop (unat ns) b) \<or>
       (\<exists>k. first_abi_note is8 (drop (unat ns) b) k \<and> rest = drop k (drop (unat ns) b) \<and> unat s = length rest)" by blast
    from c show ?thesis
    proof (elim disjE conjE exE)
      assume "s = 0" "no_abi_note is8 (drop (unat ns) b)"
      with step s no_abi_note_tail [OF _ n fits rec(1)] show ?thesis by auto
    next
      fix k assume "first_abi_note is8 (drop (unat ns) b) k" "rest = drop k (drop (unat ns) b)" "unat s = length rest"
      with step s first_abi_note_tail [OF _ n fits rec(1)] show ?thesis
        by (intro exI [of _ s] exI [of _ rest]) (auto simp: add.commute intro!: exI [of _ "unat ns + k"])
    qed
  qed
qed

end
