(* ===== verification/OpenVerify.thy ===== *)
theory OpenVerify
  imports ElfFile CString
begin

text \<open>
  Opening a library and verifying that it can be loaded: \<open>open_verify\<close> of elf/dl-load.c and the calls of the
  auditing libraries (\<open>_dl_audit_objsearch\<close>, elf/dl-audit.c).  The code runs in a monad over the history of its
  system calls, \<open>errno\<close>, the header buffer and \<open>found_other_class\<close>; it returns, raises a dynamic linking error or
  runs into undefined behaviour.  The kernel answers a call as any function of the calls made before.  Debug output
  and the storage a note is read into are left out.
\<close>

section \<open>System calls, outcomes and the state\<close>

datatype call =
    Open string
  | Openat int string
  | Read int nat
  | Pread int nat nat      \<comment> \<open>descriptor, count, offset\<close>
  | Close int
  | Stat string
  | Fstat int
  | Free string            \<comment> \<open>\<open>free\<close> of a name\<close>

text \<open>The kernel: \<open>Inl\<close> is a failure with its \<open>errno\<close>.\<close>

record fs =
  fs_open :: "call list \<Rightarrow> string \<Rightarrow> nat + int"
  fs_openat :: "call list \<Rightarrow> int \<Rightarrow> string \<Rightarrow> nat + int"
  fs_read :: "call list \<Rightarrow> int \<Rightarrow> nat \<Rightarrow> nat + byte list"
  fs_pread :: "call list \<Rightarrow> int \<Rightarrow> nat \<Rightarrow> nat \<Rightarrow> nat + byte list"
  fs_close :: "call list \<Rightarrow> int \<Rightarrow> nat option"
  fs_stat :: "call list \<Rightarrow> string \<Rightarrow> nat + bool"     \<comment> \<open>is it a directory\<close>
  fs_fstat :: "call list \<Rightarrow> int \<Rightarrow> nat + bool"       \<comment> \<open>is the set-user-ID bit set\<close>

text \<open>What the loader was built with or found out before, and the \<open>objsearch\<close> functions of the auditing libraries.\<close>

record vconf =
  files :: fs
  objsearch :: "(call list \<Rightarrow> string \<Rightarrow> nat \<Rightarrow> string option) option list"
  libc_abi_max :: nat
  abi_tag_os :: "32 word"
  dl_osversion :: "32 word"
  alloc_ok :: "nat \<Rightarrow> bool"

record io =
  trace :: "call list"
  errno :: nat
  other_class :: bool
  fb :: "byte list option"     \<comment> \<open>the bytes read into the \<open>struct filebuf\<close>; \<open>None\<close> before the first use\<close>

datatype 'a exit =
    Ret 'a
  | Signal nat string string     \<comment> \<open>\<open>_dl_signal_error\<close>: error number, object and message\<close>
  | Ub fault

type_synonym ('a, 'z) vm = "'z io_scheme \<Rightarrow> 'a exit \<times> 'z io_scheme"

definition vret :: "'a \<Rightarrow> ('a, 'z) vm" where
  "vret a st = (Ret a, st)"

definition vub :: "fault \<Rightarrow> ('a, 'z) vm" where
  "vub f st = (Ub f, st)"

definition vsignal :: "nat \<Rightarrow> string \<Rightarrow> string \<Rightarrow> ('a, 'z) vm" where
  "vsignal e name msg st = (Signal e name msg, st)"

definition vbind :: "('a, 'z) vm \<Rightarrow> ('a \<Rightarrow> ('b, 'z) vm) \<Rightarrow> ('b, 'z) vm" where
  "vbind m f st =
     (case m st of
        (Ret a, st) \<Rightarrow> f a st
      | (Signal e n s, st) \<Rightarrow> (Signal e n s, st)
      | (Ub u, st) \<Rightarrow> (Ub u, st))"

definition vmod :: "('z io_scheme \<Rightarrow> 'z io_scheme) \<Rightarrow> (unit, 'z) vm" where
  "vmod f st = (Ret (), f st)"

definition vcall :: "call \<Rightarrow> 'z io_scheme \<Rightarrow> 'z io_scheme" where
  "vcall c st = st\<lparr>trace := trace st @ [c]\<rparr>"

definition verr :: "nat + 'a \<Rightarrow> 'z io_scheme \<Rightarrow> 'z io_scheme" where
  "verr r st = (case r of Inl e \<Rightarrow> st\<lparr>errno := e\<rparr> | Inr _ \<Rightarrow> st)"

abbreviation ENOENT :: nat where "ENOENT \<equiv> 2"
abbreviation ENOMEM :: nat where "ENOMEM \<equiv> 12"
abbreviation EACCES :: nat where "EACCES \<equiv> 13"

definition sys_open :: "fs \<Rightarrow> string \<Rightarrow> (int, 'z) vm" where
  "sys_open F name st =
     (let r = fs_open F (trace st) name in
      (Ret (case r of Inl _ \<Rightarrow> -1 | Inr fd \<Rightarrow> fd), verr r (vcall (Open name) st)))"

definition sys_openat :: "fs \<Rightarrow> int \<Rightarrow> string \<Rightarrow> (int, 'z) vm" where
  "sys_openat F dir name st =
     (let r = fs_openat F (trace st) dir name in
      (Ret (case r of Inl _ \<Rightarrow> -1 | Inr fd \<Rightarrow> fd), verr r (vcall (Openat dir name) st)))"

definition sys_read :: "fs \<Rightarrow> int \<Rightarrow> nat \<Rightarrow> (nat + byte list, 'z) vm" where
  "sys_read F fd n st =
     (let r = fs_read F (trace st) fd n in (Ret r, verr r (vcall (Read fd n) st)))"

definition sys_pread :: "fs \<Rightarrow> int \<Rightarrow> nat \<Rightarrow> nat \<Rightarrow> (nat + byte list, 'z) vm" where
  "sys_pread F fd n off st =
     (let r = fs_pread F (trace st) fd n off in (Ret r, verr r (vcall (Pread fd n off) st)))"

definition sys_close :: "fs \<Rightarrow> int \<Rightarrow> (unit, 'z) vm" where
  "sys_close F fd st =
     (Ret (), verr (case fs_close F (trace st) fd of None \<Rightarrow> Inr () | Some e \<Rightarrow> Inl e) (vcall (Close fd) st))"

definition sys_stat :: "fs \<Rightarrow> string \<Rightarrow> (nat + bool, 'z) vm" where
  "sys_stat F name st =
     (let r = fs_stat F (trace st) name in (Ret r, verr r (vcall (Stat name) st)))"

definition sys_fstat :: "fs \<Rightarrow> int \<Rightarrow> (nat + bool, 'z) vm" where
  "sys_fstat F fd st =
     (let r = fs_fstat F (trace st) fd in (Ret r, verr r (vcall (Fstat fd) st)))"

section \<open>Auditing\<close>

fun objsearch_loop ::
  "(call list \<Rightarrow> string \<Rightarrow> nat \<Rightarrow> string option) option list \<Rightarrow> call list \<Rightarrow> nat \<Rightarrow> string \<Rightarrow> string option" where
  "objsearch_loop [] t code name = Some name"
| "objsearch_loop (None # hs) t code name = objsearch_loop hs t code name"
| "objsearch_loop (Some h # hs) t code name =
     (case h t name code of None \<Rightarrow> None | Some name \<Rightarrow> objsearch_loop hs t code name)"

text \<open>\<open>l\<close> is the flag \<open>l_auditing\<close> of the map, if there is a map.\<close>

definition dl_audit_objsearch :: "vconf \<Rightarrow> call list \<Rightarrow> string \<Rightarrow> bool option \<Rightarrow> nat \<Rightarrow> string option" where
  "dl_audit_objsearch E t name l code =
     (if l = None \<or> l = Some True \<or> code = 0 then Some name else objsearch_loop (objsearch E) t code name)"

section \<open>open_verify\<close>

text \<open>The label \<open>lose\<close> and the label \<open>close_and_out\<close>.\<close>

definition lose :: "vconf \<Rightarrow> int \<Rightarrow> string \<Rightarrow> bool \<Rightarrow> nat \<Rightarrow> string \<Rightarrow> ('a, 'z) vm" where
  "lose E fd name free_name errval errstring =
     vbind (if free_name then vmod (vcall (Free name)) else vret ()) (\<lambda>_.
     vbind (sys_close (files E) fd) (\<lambda>_. vsignal errval name errstring))"

definition close_and_out :: "vconf \<Rightarrow> int \<Rightarrow> (int, 'z) vm" where
  "close_and_out E fd =
     vbind (sys_close (files E) fd) (\<lambda>_. vbind (vmod (errno_update (\<lambda>_. ENOENT))) (\<lambda>_. vret (-1)))"

text \<open>Reading the header into the 832 bytes of the buffer; \<open>b\<close> has been read.\<close>

function read_header :: "vconf \<Rightarrow> int \<Rightarrow> byte list \<Rightarrow> (byte list, 'z) vm" where
  "read_header E fd b st =
     (case sys_read (files E) fd (832 - length b) st of
        (Ret (Inr bs), st) \<Rightarrow>
          if bs = [] then (Ret b, st)
          else if 832 < length (b @ bs) then (Ub Oob_write, st)
          else if length (b @ bs) < 64 then read_header E fd (b @ bs) st
          else (Ret (b @ bs), st)
      | (_, st) \<Rightarrow> (Ret b, st))"
  by pat_completeness auto
termination
  by (relation "measure (\<lambda>(_, _, b, _). 64 - length b)") (auto simp: neq_Nil_conv)

declare read_header.simps [simp del]

text \<open>
  \<open>len\<close> bytes of the file at \<open>off\<close>: from the buffer if they are there, and else read from the file, which may fail.
  The sum is computed in 64 bits.
\<close>

definition file_bytes :: "vconf \<Rightarrow> int \<Rightarrow> byte list \<Rightarrow> 64 word \<Rightarrow> 64 word \<Rightarrow> (byte list option, 'z) vm" where
  "file_bytes E fd b off len =
     (if off + len \<le> of_nat (length b)
      then if unat off + unat len \<le> length b then vret (Some (take (unat len) (drop (unat off) b))) else vub Oob_read
      else
        vbind (sys_pread (files E) fd (unat len) (unat off)) (\<lambda>r.
          vret (case r of Inl _ \<Rightarrow> None | Inr bs \<Rightarrow> if length bs = unat len then Some bs else None)))"

definition read_error :: "vconf \<Rightarrow> int \<Rightarrow> string \<Rightarrow> bool \<Rightarrow> ('a, 'z) vm" where
  "read_error E fd name free_name st = lose E fd name free_name (errno st) ''cannot read file data'' st"

text \<open>A note segment; a large one that is not in the buffer takes memory.\<close>

definition note_bytes :: "vconf \<Rightarrow> int \<Rightarrow> byte list \<Rightarrow> phdr \<Rightarrow> (byte list option, 'z) vm" where
  "note_bytes E fd b ph =
     (if \<not> p_offset ph + p_filesz ph \<le> of_nat (length b) \<and> 65536 \<le> p_filesz ph \<and> \<not> alloc_ok E (unat (p_filesz ph))
      then vbind (vmod (errno_update (\<lambda>_. ENOMEM))) (\<lambda>_. vret None)
      else file_bytes E fd b (p_offset ph) (p_filesz ph))"

definition note_segment :: "phdr \<Rightarrow> bool" where
  "note_segment ph \<longleftrightarrow> p_type ph = 4 \<and> 32 \<le> p_filesz ph \<and> (p_align ph = 4 \<or> p_align ph = 8)"

definition abi_matches :: "vconf \<Rightarrow> byte list \<Rightarrow> bool" where
  "abi_matches E n \<longleftrightarrow>
     (let osversion = (note_word 5 n AND 0xff) * 65536 + (note_word 6 n AND 0xff) * 256 + (note_word 7 n AND 0xff) in
      note_word 4 n = abi_tag_os E \<and> (dl_osversion E = 0 \<or> osversion \<le> dl_osversion E))"

fun check_notes :: "vconf \<Rightarrow> int \<Rightarrow> string \<Rightarrow> bool \<Rightarrow> byte list \<Rightarrow> phdr list \<Rightarrow> (int, 'z) vm" where
  "check_notes E fd name free_name b [] = vret fd"
| "check_notes E fd name free_name b (ph # phs) =
     (if \<not> note_segment ph then check_notes E fd name free_name b phs
      else
        vbind (note_bytes E fd b ph) (\<lambda>r.
          case r of
            None \<Rightarrow> read_error E fd name free_name
          | Some bs \<Rightarrow>
              (case note_scan (p_align ph = 8) (p_filesz ph) bs of
                 Inl f \<Rightarrow> vub f
               | Inr (sz, abi_note) \<Rightarrow>
                   if sz = 0 then check_notes E fd name free_name b phs
                   else if length abi_note < 32 then vub Oob_read
                   else if abi_matches E abi_note then vret fd
                   else close_and_out E fd)))"

definition check_phdrs :: "vconf \<Rightarrow> int \<Rightarrow> string \<Rightarrow> bool \<Rightarrow> byte list \<Rightarrow> (int, 'z) vm" where
  "check_phdrs E fd name free_name b =
     (let h = get_ehdr b in
      vbind (file_bytes E fd b (e_phoff h) (ucast (e_phnum h) * 56)) (\<lambda>r.
        case r of
          None \<Rightarrow> read_error E fd name free_name
        | Some tb \<Rightarrow>
            let phdrs = get_phdrs (unat (e_phnum h)) tb in
            if elf_machine_reject_phdr_p phdrs then close_and_out E fd
            else check_notes E fd name free_name b phdrs))"

text \<open>The file is open.\<close>

definition verify :: "vconf \<Rightarrow> int \<Rightarrow> string \<Rightarrow> bool \<Rightarrow> (int, 'z) vm" where
  "verify E fd name free_name =
     vbind (vmod (errno_update (\<lambda>_. 0))) (\<lambda>_.
     vbind (read_header E fd []) (\<lambda>b.
     vbind (vmod (fb_update (\<lambda>_. Some b))) (\<lambda>_ st.
       if length b < 64
       then lose E fd name free_name (errno st) (if errno st = 0 then ''file too short'' else ''cannot read file data'') st
       else
         (case header_verdict (libc_abi_max E) (get_ehdr b) of
            Lose msg \<Rightarrow> lose E fd name free_name 0 msg st
          | Close_and_out other \<Rightarrow> close_and_out E fd (if other then st\<lparr>other_class := True\<rparr> else st)
          | Accept \<Rightarrow> check_phdrs E fd name free_name b st))))"

text \<open>\<open>loader\<close> is the flag \<open>l_auditing\<close> of the loading map, if there is one.\<close>

definition open_verify ::
  "vconf \<Rightarrow> string \<Rightarrow> int \<Rightarrow> bool option \<Rightarrow> nat \<Rightarrow> bool \<Rightarrow> (int, 'z) vm" where
  "open_verify E name fd loader whatcode free_name st =
     (case (if objsearch E = [] then Some name else dl_audit_objsearch E (trace st) name loader whatcode) of
        None \<Rightarrow> vret (-1) st
      | Some name' \<Rightarrow>
          vbind (if fd \<noteq> -1 \<and> name' \<noteq> name
                 then vbind (sys_close (files E) fd) (\<lambda>_. vret (-1)) else vret fd) (\<lambda>fd.
          vbind (if fd = -1 then sys_open (files E) name' else vret fd) (\<lambda>fd.
            if fd = -1 then vret (-1) else verify E fd name' free_name)) st)"

end
