(* ===== verification/OpenVerifySpec.thy ===== *)
theory OpenVerifySpec
  imports OpenVerify
begin

text \<open>
  Correctness of \<open>open_verify\<close>.  A small calculus (\<open>fd_spec\<close>) follows the descriptors a computation holds: the one it
  was given or opened is returned or closed, on every path but one.  What is returned is verified: the buffer holds
  a well-formed header.  On a file that is read in pieces of any size the decision is that of \<open>wf_ehdr\<close> and of the
  first ABI note.  Reads leave the buffer only when an offset of the file wraps around.
\<close>

section \<open>Running the monad\<close>

lemma vm_simps:
  "vret a st = (Ret a, st)"
  "vub f st = (Ub f, st)"
  "vsignal e n s st = (Signal e n s, st)"
  "vmod g st = (Ret (), g st)"
  by (simp_all add: vret_def vub_def vsignal_def vmod_def)

lemma vbind_run:
  "m st = (Ret a, st') \<Longrightarrow> vbind m f st = f a st'"
  "m st = (Signal e n s, st') \<Longrightarrow> vbind m f st = (Signal e n s, st')"
  "m st = (Ub u, st') \<Longrightarrow> vbind m f st = (Ub u, st')"
  by (simp_all add: vbind_def)

lemma vbind_simps [simp]:
  "vbind (vret a) f st = f a st"
  "vbind (vub u) f' st = (Ub u, st)"
  "vbind (vsignal e n s) f' st = (Signal e n s, st)"
  "vbind (vmod g) h st = h () (g st)"
  by (simp_all add: vbind_def vm_simps)

lemma vbind_Ret: "vbind m f st = (Ret b, st'') \<longleftrightarrow> (\<exists>a st'. m st = (Ret a, st') \<and> f a st' = (Ret b, st''))"
  unfolding vbind_def by (auto split: prod.splits exit.splits)

lemma io_simps [simp]:
  "trace (vcall c st) = trace st @ [c]"
  "errno (vcall c st) = errno st"
  "fb (vcall c st) = fb st"
  "other_class (vcall c st) = other_class st"
  "trace (verr r st) = trace st"
  "fb (verr r st) = fb st"
  "other_class (verr r st) = other_class st"
  by (simp_all add: vcall_def verr_def split: sum.splits)

section \<open>The descriptors a computation holds\<close>

definition held_step :: "fs \<Rightarrow> call list \<Rightarrow> int list \<Rightarrow> call \<Rightarrow> int list" where
  "held_step F t H c =
     (case c of
        Open n \<Rightarrow> (case fs_open F t n of Inl _ \<Rightarrow> H | Inr k \<Rightarrow> k # H)
      | Openat d n \<Rightarrow> (case fs_openat F t d n of Inl _ \<Rightarrow> H | Inr k \<Rightarrow> k # H)
      | Close k \<Rightarrow> remove1 k H
      | _ \<Rightarrow> H)"

fun held :: "fs \<Rightarrow> call list \<Rightarrow> int list \<Rightarrow> call list \<Rightarrow> int list" where
  "held F t H [] = H"
| "held F t H (c # cs) = held F (t @ [c]) (held_step F t H c) cs"

lemma held_append: "held F t H (cs @ ds) = held F (t @ cs) (held F t H cs) ds"
  by (induction cs arbitrary: t H) simp_all

definition own_of :: "int \<Rightarrow> int list" where
  "own_of k = (if k = -1 then [] else [k])"

lemma own_of_simps: "own_of (-1) = []" "k \<noteq> -1 \<Longrightarrow> own_of k = [k]"
  by (simp_all add: own_of_def)

text \<open>What the loader relies on: a descriptor is not negative, and no more is read than was asked for.\<close>

definition kernel_ok :: "fs \<Rightarrow> bool" where
  "kernel_ok F \<longleftrightarrow>
     (\<forall>t n k. fs_open F t n = Inr k \<longrightarrow> 0 \<le> k) \<and>
     (\<forall>t d n k. fs_openat F t d n = Inr k \<longrightarrow> 0 \<le> k) \<and>
     (\<forall>t k n bs. fs_read F t k n = Inr bs \<longrightarrow> length bs \<le> n)"

text \<open>
  \<open>fd_spec F m own post\<close>: started with the descriptors \<open>own\<close>, the computation \<open>m\<close> ends with those of \<open>post\<close> when it
  returns and with none of them when it raises an error, and touches no other.
\<close>

definition fd_spec :: "fs \<Rightarrow> ('a, 'z) vm \<Rightarrow> int list \<Rightarrow> ('a \<Rightarrow> int list) \<Rightarrow> bool" where
  "fd_spec F m own post \<longleftrightarrow>
     (\<forall>st H. \<exists>cs. trace (snd (m st)) = trace st @ cs \<and>
        (case fst (m st) of
           Ret a \<Rightarrow> held F (trace st) (own @ H) cs = post a @ H
         | Signal e n s \<Rightarrow> held F (trace st) (own @ H) cs = H
         | Ub f \<Rightarrow> True))"

named_theorems fd_rules \<open>rules of the descriptor calculus\<close>

lemma fd_vret: "post a = own \<Longrightarrow> fd_spec F (vret a) own post"
  by (simp add: vm_simps fd_spec_def)

lemma fd_vub: "fd_spec F (vub f) own post"
  by (simp add: vm_simps fd_spec_def)

lemma fd_vsignal: "fd_spec F (vsignal e n s) [] post"
  by (simp add: vm_simps fd_spec_def)

lemma fd_vmod: "(\<And>st. trace (g st) = trace st) \<Longrightarrow> fd_spec F (vmod g) own (\<lambda>_. own)"
  by (simp add: vm_simps fd_spec_def)

lemma fd_free: "fd_spec F (vmod (vcall (Free n))) own (\<lambda>_. own)"
  by (simp add: vm_simps fd_spec_def held_step_def)

lemma fd_vbind:
  assumes "fd_spec F m own mid" "\<And>a. fd_spec F (f a) (mid a) post"
  shows "fd_spec F (vbind m f) own post"
  unfolding fd_spec_def
proof (intro allI)
  fix st H
  obtain cs where cs: "trace (snd (m st)) = trace st @ cs"
    and c: "case fst (m st) of Ret a \<Rightarrow> held F (trace st) (own @ H) cs = mid a @ H
      | Signal e n s \<Rightarrow> held F (trace st) (own @ H) cs = H | Ub f \<Rightarrow> True"
    using assms(1) unfolding fd_spec_def by blast
  obtain r st' where m: "m st = (r, st')" by (cases "m st")
  show "\<exists>cs. trace (snd (vbind m f st)) = trace st @ cs \<and>
    (case fst (vbind m f st) of Ret a \<Rightarrow> held F (trace st) (own @ H) cs = post a @ H
      | Signal e n s \<Rightarrow> held F (trace st) (own @ H) cs = H | Ub f \<Rightarrow> True)"
  proof (cases r)
    case (Ret a)
    obtain ds where ds: "trace (snd (f a st')) = trace st' @ ds"
      and d: "case fst (f a st') of Ret b \<Rightarrow> held F (trace st') (mid a @ H) ds = post b @ H
        | Signal e n s \<Rightarrow> held F (trace st') (mid a @ H) ds = H | Ub f \<Rightarrow> True"
      using assms(2) [of a] unfolding fd_spec_def by blast
    have "vbind m f st = f a st'" using m Ret by (simp add: vbind_run)
    then show ?thesis using cs c ds d m Ret
      by (intro exI [of _ "cs @ ds"]) (auto simp: held_append split: exit.splits)
  qed (use cs c m in \<open>auto simp: vbind_run\<close>)
qed

lemma fd_state: "(\<And>st0. fd_spec F (f st0) own post) \<Longrightarrow> fd_spec F (\<lambda>st. f st st) own post"
  unfolding fd_spec_def by blast

lemma fd_pre: "(\<And>st. trace (g st) = trace st) \<Longrightarrow> fd_spec F m own post \<Longrightarrow> fd_spec F (\<lambda>st. m (g st)) own post"
  unfolding fd_spec_def by metis

lemma fd_close: "fd_spec F (sys_close F k) [k] (\<lambda>_. [])"
  by (simp add: fd_spec_def sys_close_def held_step_def)

lemma fd_open: "kernel_ok F \<Longrightarrow> fd_spec F (sys_open F n) [] own_of"
  unfolding fd_spec_def sys_open_def Let_def kernel_ok_def
  by (fastforce simp: held_step_def own_of_def split: sum.splits)

lemma fd_openat: "kernel_ok F \<Longrightarrow> fd_spec F (sys_openat F d n) [] own_of"
  unfolding fd_spec_def sys_openat_def Let_def kernel_ok_def
  by (fastforce simp: held_step_def own_of_def split: sum.splits)

lemma fd_pread: "fd_spec F (sys_pread F k n off) own (\<lambda>_. own)"
  by (simp add: fd_spec_def sys_pread_def held_step_def Let_def)

lemma fd_stat: "fd_spec F (sys_stat F n) own (\<lambda>_. own)"
  by (simp add: fd_spec_def sys_stat_def held_step_def Let_def)

lemma fd_fstat: "fd_spec F (sys_fstat F k) own (\<lambda>_. own)"
  by (simp add: fd_spec_def sys_fstat_def held_step_def Let_def)
section \<open>open_verify gives back or closes its descriptor\<close>

lemma fd_read_header: "fd_spec (files E) (read_header E fd b) own (\<lambda>_. own)"
proof -
  have "\<exists>cs. trace (snd (read_header E fd b st)) = trace st @ cs \<and>
      (case fst (read_header E fd b st) of Ret a \<Rightarrow> held (files E) (trace st) H cs = H | Signal e n s \<Rightarrow> False | Ub f \<Rightarrow> True)" for st H
  proof (induction E fd b st rule: read_header.induct)
    case (1 E fd b st)
    obtain r st' where r: "sys_read (files E) fd (832 - length b) st = (Ret r, st')"
      and t: "trace st' = trace st @ [Read fd (832 - length b)]" by (auto simp: sys_read_def Let_def)
    show ?case
    proof (cases "\<exists>bs. r = Inr bs \<and> bs \<noteq> [] \<and> length (b @ bs) < 64")
      case True
      then obtain bs where bs: "r = Inr bs" "bs \<noteq> []" "length (b @ bs) < 64" by blast
      then have "read_header E fd b st = read_header E fd (b @ bs) st'"
        using r by (subst read_header.simps) simp
      moreover obtain cs where "trace (snd (read_header E fd (b @ bs) st')) = trace st' @ cs"
        "case fst (read_header E fd (b @ bs) st') of Ret a \<Rightarrow> held (files E) (trace st') H cs = H
          | Signal e n s \<Rightarrow> False | Ub f \<Rightarrow> True"
        using 1 [OF _ _ _ bs(2)] r bs by fastforce
      ultimately show ?thesis using t
        by (intro exI [of _ "Read fd (832 - length b) # cs"]) (auto simp: held_step_def split: exit.splits)
    next
      case False
      then show ?thesis using r t
        by (subst (1 2) read_header.simps) (auto simp: held_step_def split: sum.splits)
    qed
  qed
  note run = this
  show ?thesis
    unfolding fd_spec_def
  proof (intro allI)
    fix st :: "'a io_scheme" and H
    from run [of st "own @ H"] show "\<exists>cs. trace (snd (read_header E fd b st)) = trace st @ cs \<and>
      (case fst (read_header E fd b st) of Ret a \<Rightarrow> held (files E) (trace st) (own @ H) cs = own @ H
        | Signal e n s \<Rightarrow> held (files E) (trace st) (own @ H) cs = H | Ub f \<Rightarrow> True)"
      by (cases "fst (read_header E fd b st)") simp_all
  qed
qed

lemma fd_lose: "fd_spec (files E) (lose E fd name fn e msg) [fd] post"
  unfolding lose_def
  by (intro fd_vbind [where mid = "\<lambda>_. [fd]"] fd_vbind [where mid = "\<lambda>_. []"] fd_close fd_vsignal)
    (auto intro: fd_free fd_vret)

lemma fd_close_and_out: "fd_spec (files E) (close_and_out E fd) [fd] own_of"
  unfolding close_and_out_def
  by (intro fd_vbind [where mid = "\<lambda>_. []"] fd_close fd_vmod fd_vret) (auto simp: own_of_def)

lemma fd_read_error: "fd_spec (files E) (read_error E fd name fn) [fd] post"
  unfolding read_error_def by (rule fd_state) (rule fd_lose)

lemma fd_file_bytes: "fd_spec (files E) (file_bytes E fd b off len) own (\<lambda>_. own)"
  unfolding file_bytes_def
  by (auto intro!: fd_vret fd_vub fd_vbind [OF fd_pread])

lemma fd_note_bytes: "fd_spec (files E) (note_bytes E fd b ph) own (\<lambda>_. own)"
  unfolding note_bytes_def by (auto intro!: fd_file_bytes fd_vret fd_vbind [OF fd_vmod])

lemma fd_check_notes:
  assumes "fd \<noteq> -1"
  shows "fd_spec (files E) (check_notes E fd name fn b phs :: (int, 'z) vm) [fd] own_of"
proof (induction phs)
  case Nil
  then show ?case using assms by (auto intro!: fd_vret simp: own_of_def)
next
  case (Cons ph phs)
  have "fd_spec (files E) (case r of None \<Rightarrow> read_error E fd name fn :: (int, 'z) vm
          | Some bs \<Rightarrow>
              (case note_scan (p_align ph = 8) (p_filesz ph) bs of
                 Inl f \<Rightarrow> vub f
               | Inr (sz, abi_note) \<Rightarrow>
                   if sz = 0 then check_notes E fd name fn b phs
                   else if length abi_note < 32 then vub Oob_read
                   else if abi_matches E abi_note then vret fd
                   else close_and_out E fd)) [fd] own_of" for r
    using Cons assms
    by (auto split: option.splits sum.splits intro!: fd_read_error fd_vub fd_vret fd_close_and_out simp: own_of_simps)
  with Cons show ?case by (auto intro!: fd_vbind [OF fd_note_bytes])
qed

lemma fd_check_phdrs: "fd \<noteq> -1 \<Longrightarrow> fd_spec (files E) (check_phdrs E fd name fn b) [fd] own_of"
  unfolding check_phdrs_def Let_def
  by (auto intro!: fd_vbind [OF fd_file_bytes] fd_read_error fd_check_notes fd_close_and_out split: option.splits)

lemma fd_verify: "fd \<noteq> -1 \<Longrightarrow> fd_spec (files E) (verify E fd name fn) [fd] own_of"
  unfolding verify_def
proof (intro fd_vbind [where mid = "\<lambda>_. [fd]"] fd_vmod fd_read_header, goal_cases)
  case (3 _ b)
  have "fd_spec (files E) (close_and_out E fd) [fd] own_of" by (rule fd_close_and_out)
  then have "fd_spec (files E) (\<lambda>st. close_and_out E fd (if other then st\<lparr>other_class := True\<rparr> else st)) [fd] own_of" for other
    by (rule fd_pre [rotated]) simp
  with 3 have "fd_spec (files E) (\<lambda>st. if length b < 64
       then lose E fd name fn (errno st0) (if errno st0 = 0 then ''file too short'' else ''cannot read file data'') st
       else
         (case header_verdict (libc_abi_max E) (get_ehdr b) of
            Lose msg \<Rightarrow> lose E fd name fn 0 msg st
          | Close_and_out other \<Rightarrow> close_and_out E fd (if other then st\<lparr>other_class := True\<rparr> else st)
          | Accept \<Rightarrow> check_phdrs E fd name fn b st)) [fd] own_of" for st0
    by (cases "length b < 64"; cases "header_verdict (libc_abi_max E) (get_ehdr b)") (simp_all add: fd_lose fd_check_phdrs)
  from fd_state [OF this] show ?case .
qed simp_all

lemma fd_open_verify_from:
  assumes "kernel_ok (files E)"
  shows "fd_spec (files E)
    (vbind (if fd \<noteq> -1 \<and> name' \<noteq> name then vbind (sys_close (files E) fd) (\<lambda>_. vret (-1)) else vret fd) (\<lambda>fd.
     vbind (if fd = -1 then sys_open (files E) name' else vret fd) (\<lambda>fd.
       if fd = -1 then vret (-1) else verify E fd name' fn))) (own_of fd) own_of"
proof (rule fd_vbind [where mid = own_of])
  show "fd_spec (files E) (if fd \<noteq> -1 \<and> name' \<noteq> name then vbind (sys_close (files E) fd) (\<lambda>_. vret (-1)) else vret fd)
    (own_of fd) own_of"
    by (auto simp: own_of_def intro!: fd_vret fd_vbind [OF fd_close])
  show "fd_spec (files E) (vbind (if fd = -1 then sys_open (files E) name' else vret fd) (\<lambda>fd.
       if fd = -1 then vret (-1) else verify E fd name' fn)) (own_of fd) own_of" for fd
  proof (rule fd_vbind [where mid = own_of])
    show "fd_spec (files E) (if fd = -1 then sys_open (files E) name' else vret fd) (own_of fd) own_of"
      using fd_open [OF assms, of name'] by (auto simp: own_of_def intro!: fd_vret)
    show "fd_spec (files E) (if fd = -1 then vret (-1) else verify E fd name' fn) (own_of fd) own_of" for fd
      using fd_verify [of fd E name' fn] by (auto simp: own_of_def intro!: fd_vret)
  qed
qed

definition audit_name :: "vconf \<Rightarrow> call list \<Rightarrow> string \<Rightarrow> bool option \<Rightarrow> nat \<Rightarrow> string option" where
  "audit_name E t name loader code = (if objsearch E = [] then Some name else dl_audit_objsearch E t name loader code)"

text \<open>Running it once, with the descriptors held by others in \<open>H\<close>.\<close>

definition fds_after :: "fs \<Rightarrow> 'z io_scheme \<Rightarrow> 'z io_scheme \<Rightarrow> int list \<Rightarrow> int list" where
  "fds_after F st st' H = held F (trace st) H (drop (length (trace st)) (trace st'))"

lemma fd_spec_run:
  assumes "fd_spec F m own post" "m st = (r, st')"
  shows "(case r of Ret a \<Rightarrow> fds_after F st st' (own @ H) = post a @ H
                  | Signal e n s \<Rightarrow> fds_after F st st' (own @ H) = H | Ub f \<Rightarrow> True)"
proof -
  obtain cs where "trace st' = trace st @ cs"
    and "case r of Ret a \<Rightarrow> held F (trace st) (own @ H) cs = post a @ H
      | Signal e n s \<Rightarrow> held F (trace st) (own @ H) cs = H | Ub f \<Rightarrow> True"
    using assms(1) [unfolded fd_spec_def, rule_format, of st H] assms(2) by auto
  then show ?thesis by (cases r) (simp_all add: fds_after_def)
qed

lemma open_verify_fds:
  assumes "kernel_ok (files E)" "audit_name E (trace st) name loader code \<noteq> None \<or> fd = -1"
    and "open_verify E name fd loader code fn st = (r, st')"
  shows "case r of Ret k \<Rightarrow> fds_after (files E) st st' (own_of fd @ H) = own_of k @ H
                 | Signal e n s \<Rightarrow> fds_after (files E) st st' (own_of fd @ H) = H | Ub f \<Rightarrow> True"
proof (cases "audit_name E (trace st) name loader code")
  case None
  then have "r = Ret (-1) \<and> st' = st" and "fd = -1"
    using assms(2,3) by (auto simp: open_verify_def audit_name_def vm_simps)
  then show ?thesis by (simp add: fds_after_def own_of_def)
next
  case (Some name')
  have "(vbind (if fd \<noteq> -1 \<and> name' \<noteq> name then vbind (sys_close (files E) fd) (\<lambda>_. vret (-1)) else vret fd) (\<lambda>fd.
     vbind (if fd = -1 then sys_open (files E) name' else vret fd) (\<lambda>fd.
       if fd = -1 then vret (-1) else verify E fd name' fn))) st = (r, st')"
    using assms(3) unfolding open_verify_def Some [unfolded audit_name_def] option.case .
  then show ?thesis by (rule fd_spec_run [OF fd_open_verify_from [OF assms(1)]])
qed
section \<open>What is returned has been verified\<close>

lemma lose_fst [simp]: "fst (lose E fd name fn e msg st) = Signal e name msg"
  by (simp add: lose_def sys_close_def vbind_def vm_simps split: if_splits)

lemma lose_not_Ret [simp]: "lose E fd name fn e msg st \<noteq> (Ret a, st')"
  by (metis exit.distinct(1) fst_conv lose_fst)

lemma read_error_fst [simp]: "fst (read_error E fd name fn st) = Signal (errno st) name ''cannot read file data''"
  by (simp add: read_error_def)

lemma read_error_not_Ret [simp]: "read_error E fd name fn st \<noteq> (Ret a, st')"
  by (simp add: read_error_def)

lemma close_and_out_fst [simp]: "fst (close_and_out E fd st) = Ret (-1)"
  by (simp add: close_and_out_def sys_close_def vbind_def vm_simps)

lemma close_and_out_state [simp]: "close_and_out E fd st = (Ret k, st') \<Longrightarrow> k = -1 \<and> fb st' = fb st"
  by (auto simp: close_and_out_def sys_close_def vbind_def vm_simps)

lemma ends_not_Ub [simp]:
  "lose E fd name fn e msg st \<noteq> (Ub f, st')"
  "read_error E fd name fn st \<noteq> (Ub f, st')"
  "close_and_out E fd st \<noteq> (Ub f, st')"
  by (metis exit.distinct(5) fst_conv lose_fst, metis exit.distinct(5) fst_conv read_error_fst,
      metis exit.distinct(3) fst_conv close_and_out_fst)

lemma read_header_length:
  "read_header E fd b st = (Ret b', st') \<Longrightarrow> length b \<le> 832 \<Longrightarrow> length b' \<le> 832"
proof (induction E fd b st rule: read_header.induct)
  case (1 E fd b st)
  obtain r st1 where r: "sys_read (files E) fd (832 - length b) st = (Ret r, st1)" by (auto simp: sys_read_def Let_def)
  show ?case
  proof (cases r)
    case (Inl e)
    then show ?thesis using 1(2,3) r by (subst (asm) read_header.simps) simp
  next
    case (Inr bs)
    then show ?thesis using 1(1) [OF r [symmetric] refl Inr] 1(2,3) r
      by (subst (asm) (2) read_header.simps) (auto split: if_splits)
  qed
qed

lemma file_bytes_fb [simp]: "fb (snd (file_bytes E fd b off len st)) = fb st"
  by (simp add: file_bytes_def sys_pread_def vbind_def vm_simps Let_def)

lemma note_bytes_fb [simp]: "fb (snd (note_bytes E fd b ph st)) = fb st"
  by (simp add: note_bytes_def vm_simps)

lemma vbind_fb:
  assumes "\<And>st. fb (snd (m st)) = fb st" "\<And>a st. fb (snd (f a st)) = fb st"
  shows "fb (snd (vbind m f st)) = fb st"
  using assms(1) [of st] assms(2) unfolding vbind_def by (auto split: prod.splits exit.splits)

lemma sys_close_fb [simp]: "fb (snd (sys_close F fd st)) = fb st"
  by (simp add: sys_close_def)

lemma lose_fb [simp]: "fb (snd (lose E fd name fn e msg st)) = fb st"
  unfolding lose_def by (intro vbind_fb) (simp_all add: vm_simps)

lemma read_error_fb [simp]: "fb (snd (read_error E fd name fn st)) = fb st"
  by (simp add: read_error_def)

lemma close_and_out_fb [simp]: "fb (snd (close_and_out E fd st)) = fb st"
  unfolding close_and_out_def by (intro vbind_fb) (simp_all add: vm_simps)

lemma check_notes_fb: "fb (snd (check_notes E fd name fn b phs st)) = fb st"
proof (induction phs arbitrary: st)
  case (Cons ph phs)
  then show ?case
    by (auto intro!: vbind_fb simp: vm_simps split: option.splits sum.splits)
qed (simp add: vm_simps)

lemma check_phdrs_fb: "fb (snd (check_phdrs E fd name fn b st)) = fb st"
  unfolding check_phdrs_def Let_def by (auto intro!: vbind_fb simp: check_notes_fb split: option.splits)

lemma check_notes_Ret:
  "check_notes E fd name fn b phs st = (Ret k, st') \<Longrightarrow> (k = fd \<or> k = -1) \<and> fb st' = fb st"
proof (induction phs arbitrary: st)
  case Nil
  then show ?case by (simp add: vm_simps)
next
  case (Cons ph phs)
  show ?case
  proof (cases "note_segment ph")
    case False
    with Cons show ?thesis by simp
  next
    case True
    with Cons.prems obtain r st1 where r: "note_bytes E fd b ph st = (Ret r, st1)"
      and rest: "(case r of None \<Rightarrow> read_error E fd name fn
          | Some bs \<Rightarrow>
              (case note_scan (p_align ph = 8) (p_filesz ph) bs of
                 Inl f \<Rightarrow> vub f
               | Inr (sz, abi_note) \<Rightarrow>
                   if sz = 0 then check_notes E fd name fn b phs
                   else if length abi_note < 32 then vub Oob_read
                   else if abi_matches E abi_note then vret fd
                   else close_and_out E fd)) st1 = (Ret k, st')"
      by (auto simp: vbind_Ret)
    have "fb st1 = fb st" using note_bytes_fb [of E fd b ph st] r by simp
    with rest Cons.IH [of st1] show ?thesis
      by (auto simp: vm_simps split: option.splits sum.splits if_splits prod.splits)
  qed
qed

lemma check_phdrs_Ret:
  assumes "check_phdrs E fd name fn b st = (Ret k, st')"
  shows "(k = fd \<or> k = -1) \<and> fb st' = fb st"
proof -
  obtain r st1 where r: "file_bytes E fd b (e_phoff (get_ehdr b)) (ucast (e_phnum (get_ehdr b)) * 56) st = (Ret r, st1)"
    and rest: "(case r of None \<Rightarrow> read_error E fd name fn
        | Some tb \<Rightarrow>
            if elf_machine_reject_phdr_p (get_phdrs (unat (e_phnum (get_ehdr b))) tb) then close_and_out E fd
            else check_notes E fd name fn b (get_phdrs (unat (e_phnum (get_ehdr b))) tb)) st1 = (Ret k, st')"
    using assms unfolding check_phdrs_def Let_def vbind_Ret by blast
  have "fb st1 = fb st" using file_bytes_fb [of E fd b _ _ st] r by (metis snd_conv)
  with rest check_notes_Ret [of E fd name fn b _ st1 k st'] show ?thesis
    by (auto simp: Let_def elf_machine_reject_phdr_p_def split: option.splits)
qed

lemma verify_Ret:
  assumes "verify E fd name fn st = (Ret k, st')" "k \<noteq> -1"
  shows "k = fd \<and> (\<exists>b. fb st' = Some b \<and> 64 \<le> length b \<and> length b \<le> 832 \<and> wf_ehdr (libc_abi_max E) (get_ehdr b))"
proof -
  obtain b st1 where b: "read_header E fd [] (st\<lparr>errno := 0\<rparr>) = (Ret b, st1)"
    and rest: "(let st = st1\<lparr>fb := Some b\<rparr> in if length b < 64
       then lose E fd name fn (errno st) (if errno st = 0 then ''file too short'' else ''cannot read file data'') st
       else
         (case header_verdict (libc_abi_max E) (get_ehdr b) of
            Lose msg \<Rightarrow> lose E fd name fn 0 msg st
          | Close_and_out other \<Rightarrow> close_and_out E fd (if other then st\<lparr>other_class := True\<rparr> else st)
          | Accept \<Rightarrow> check_phdrs E fd name fn b st)) = (Ret k, st')"
    using assms(1) by (auto simp: verify_def vbind_Ret vm_simps Let_def)
  from rest assms(2) have l: "64 \<le> length b" and a: "header_verdict (libc_abi_max E) (get_ehdr b) = Accept"
    and c: "check_phdrs E fd name fn b (st1\<lparr>fb := Some b\<rparr>) = (Ret k, st')"
    by (auto simp: Let_def split: if_splits verdict.splits dest: close_and_out_state)
  have "length (e_ident (get_ehdr b)) = 16" using l by (simp add: get_ehdr_def)
  with a have "wf_ehdr (libc_abi_max E) (get_ehdr b)" by (simp add: header_accept_iff)
  with l read_header_length [OF b] check_phdrs_Ret [OF c] assms(2) show ?thesis by auto
qed

lemma open_verify_Ret:
  assumes "open_verify E name fd loader code fn st = (Ret k, st')" "k \<noteq> -1"
  shows "\<exists>b. fb st' = Some b \<and> 64 \<le> length b \<and> length b \<le> 832 \<and> wf_ehdr (libc_abi_max E) (get_ehdr b)"
  using assms by (fastforce simp: open_verify_def vbind_Ret vm_simps split: option.splits if_splits dest: verify_Ret)
section \<open>The decision on a regular file\<close>

text \<open>
  \<open>serves F fd t c\<close>: after the calls \<open>t\<close> the bytes \<open>c\<close> are still to be read from \<open>fd\<close>; a read gives any number of
  them, at least one as long as there are any.
\<close>

coinductive serves :: "fs \<Rightarrow> int \<Rightarrow> call list \<Rightarrow> byte list \<Rightarrow> bool" for F fd where
  "(\<And>n. 0 < n \<Longrightarrow> \<exists>m. fs_read F t fd n = Inr (take m c) \<and> m \<le> n \<and> (c \<noteq> [] \<longrightarrow> 0 < m) \<and>
      serves F fd (t @ [Read fd n]) (drop m c)) \<Longrightarrow> serves F fd t c"

inductive_cases servesE: "serves F fd t c"

lemma servesD:
  assumes "serves F fd t c" "0 < n"
  obtains m where "fs_read F t fd n = Inr (take m c)" "m \<le> n" "c \<noteq> [] \<longrightarrow> 0 < m"
    "serves F fd (t @ [Read fd n]) (drop m c)"
  using assms by (elim servesE) blast

definition seekable :: "fs \<Rightarrow> int \<Rightarrow> byte list \<Rightarrow> bool" where
  "seekable F fd c \<longleftrightarrow> (\<forall>t n off. off + n \<le> length c \<longrightarrow> fs_pread F t fd n off = Inr (take n (drop off c)))"

lemma read_header_serves:
  assumes "serves (files E) fd (trace st) c" "length b < 64"
  shows "\<exists>k st'. read_header E fd b st = (Ret (b @ take k c), st') \<and>
    (64 \<le> length b + length c \<longrightarrow> 64 \<le> length (b @ take k c))"
  using assms
proof (induction E fd b st arbitrary: c rule: read_header.induct)
  case (1 E fd b st)
  have pos: "0 < 832 - length b" using 1(3) by simp
  obtain m where r: "fs_read (files E) (trace st) fd (832 - length b) = Inr (take m c)"
    and m: "m \<le> 832 - length b" "c \<noteq> [] \<longrightarrow> 0 < m"
    and s: "serves (files E) fd (trace st @ [Read fd (832 - length b)]) (drop m c)"
    by (rule servesD [OF 1(2) pos])
  define st1 where "st1 = vcall (Read fd (832 - length b)) st"
  have run: "sys_read (files E) fd (832 - length b) st = (Ret (Inr (take m c)), st1)"
    using r by (simp add: sys_read_def Let_def verr_def st1_def)
  have le: "\<not> 832 < length (b @ take m c)" using m(1) 1(3) by simp
  show ?case
  proof (cases "take m c \<noteq> [] \<and> length (b @ take m c) < 64")
    case True
    then have step: "read_header E fd b st = read_header E fd (b @ take m c) st1"
      using run le by (subst read_header.simps) simp
    have "serves (files E) fd (trace st1) (drop m c)" using s by (simp add: st1_def)
    from 1(1) [OF run [symmetric] refl refl _ le _ this] True obtain k st'
      where "read_header E fd (b @ take m c) st1 = (Ret ((b @ take m c) @ take k (drop m c)), st')"
        "64 \<le> length (b @ take m c) + length (drop m c) \<longrightarrow> 64 \<le> length ((b @ take m c) @ take k (drop m c))"
      by auto
    then show ?thesis using step by (intro exI [of _ "m + k"]) (auto simp: take_add)
  next
    case False
    then have "read_header E fd b st = (Ret (b @ take m c), st1)"
      using run le by (subst read_header.simps) auto
    moreover have "64 \<le> length b + length c \<longrightarrow> 64 \<le> length (b @ take m c)"
      using False m(2) 1(3) by auto
    ultimately show ?thesis by blast
  qed
qed

lemma file_bytes_served:
  assumes "seekable (files E) fd c" "length c < 2 ^ 63" "unat off + unat len \<le> length c"
  shows "\<exists>st'. file_bytes E fd (take k c) off len st = (Ret (Some (take (unat len) (drop (unat off) c))), st')"
proof -
  have sum: "unat (off + len) = unat off + unat len" using assms(2,3) by (subst unat_add_lem [symmetric]) simp
  have buf: "unat (of_nat (length (take k c)) :: 64 word) = length (take k c)" using assms(2) by (simp add: unat_of_nat)
  have iff: "off + len \<le> of_nat (length (take k c)) \<longleftrightarrow> unat off + unat len \<le> length (take k c)"
    unfolding word_le_nat_alt sum buf ..
  show ?thesis
  proof (cases "unat off + unat len \<le> length (take k c)")
    case True
    then have "unat off + unat len \<le> k" by simp
    then have "unat len \<le> k - unat off" by linarith
    then have "take (unat len) (drop (unat off) (take k c)) = take (unat len) (drop (unat off) c)"
      by (simp add: drop_take min_absorb1)
    then show ?thesis unfolding file_bytes_def iff using True by (simp add: vm_simps)
  next
    case False
    have "fs_pread (files E) (trace st) fd (unat len) (unat off) = Inr (take (unat len) (drop (unat off) c))"
      using assms(1,3) by (simp add: seekable_def)
    moreover have "length (take (unat len) (drop (unat off) c)) = unat len" using assms(3) by simp
    ultimately show ?thesis unfolding file_bytes_def iff if_not_P [OF False]
      by (simp add: sys_pread_def Let_def vbind_def vm_simps)
  qed
qed

text \<open>The decision about the notes: that of the first segment that holds an ABI note.\<close>

definition segment :: "byte list \<Rightarrow> phdr \<Rightarrow> byte list" where
  "segment c ph = take (unat (p_filesz ph)) (drop (unat (p_offset ph)) c)"

fun abi_accepts :: "vconf \<Rightarrow> byte list \<Rightarrow> phdr list \<Rightarrow> bool" where
  "abi_accepts E c [] = True"
| "abi_accepts E c (ph # phs) =
     (if note_segment ph \<and> \<not> no_abi_note (p_align ph = 8) (segment c ph)
      then \<exists>k. first_abi_note (p_align ph = 8) (segment c ph) k \<and> abi_matches E (drop k (segment c ph))
      else abi_accepts E c phs)"

definition in_file :: "byte list \<Rightarrow> phdr \<Rightarrow> bool" where
  "in_file c ph \<longleftrightarrow> unat (p_offset ph) + unat (p_filesz ph) \<le> length c"

lemma first_abi_note_unique: "first_abi_note is8 b k \<Longrightarrow> first_abi_note is8 b j \<Longrightarrow> k = j"
  by (metis first_abi_note_def nat_neq_iff)

lemma check_notes_decides:
  assumes "seekable (files E) fd c" "length c < 2 ^ 63" "\<forall>n. alloc_ok E n"
    and "\<forall>ph \<in> set phs. note_segment ph \<longrightarrow> in_file c ph"
  shows "fst (check_notes E fd name fn (take k c) phs st) = Ret (if abi_accepts E c phs then fd else -1)"
  using assms(4)
proof (induction phs arbitrary: st)
  case Nil
  then show ?case by (simp add: vm_simps)
next
  case (Cons ph phs)
  show ?case
  proof (cases "note_segment ph")
    case False
    with Cons show ?thesis by simp
  next
    case True
    let ?b = "segment c ph" and ?is8 = "p_align ph = 8"
    have l: "unat (p_filesz ph) = length ?b" using Cons.prems True by (auto simp: segment_def in_file_def)
    have l32: "32 \<le> length ?b" using True l by (simp add: note_segment_def word_le_nat_alt)
    obtain st1 where fb: "note_bytes E fd (take k c) ph st = (Ret (Some ?b), st1)"
      using file_bytes_served [OF assms(1,2), of "p_offset ph" "p_filesz ph" k st] Cons.prems True assms(3)
      by (auto simp: note_bytes_def segment_def in_file_def)
    from note_scan_total [OF l l32, of ?is8] obtain s rest where sc: "note_scan ?is8 (p_filesz ph) ?b = Inr (s, rest)"
      and cs: "s = 0 \<and> no_abi_note ?is8 ?b \<or> (\<exists>j. first_abi_note ?is8 ?b j \<and> rest = drop j ?b \<and> unat s = length rest)"
      by blast
    have run: "check_notes E fd name fn (take k c) (ph # phs) st =
      (if s = 0 then check_notes E fd name fn (take k c) phs st1
       else if length rest < 32 then (Ub Oob_read, st1)
       else if abi_matches E rest then (Ret fd, st1) else close_and_out E fd st1)"
      using True fb sc by (simp add: vbind_run(1) vm_simps)
    from cs show ?thesis
    proof (elim disjE exE conjE)
      assume "s = 0" "no_abi_note ?is8 ?b"
      with run Cons True show ?thesis by simp
    next
      fix j assume j: "first_abi_note ?is8 ?b j" "rest = drop j ?b" "unat s = length rest"
      then have "note_at ?is8 ?b j" "\<not> no_abi_note ?is8 ?b" by (auto simp: first_abi_note_def no_abi_note_def)
      with note_at_length [of ?is8 ?b j] j have "s \<noteq> 0" "\<not> length rest < 32" by auto
      moreover have "abi_accepts E c (ph # phs) \<longleftrightarrow> abi_matches E rest"
        using True \<open>\<not> no_abi_note ?is8 ?b\<close> j first_abi_note_unique by (auto simp: j(2))
      ultimately show ?thesis using run by simp
    qed
  qed
qed

lemma field_take: "off + n \<le> k \<Longrightarrow> field off n (take k c) = field off n c"
  by (simp add: field_def drop_take min_absorb1)

lemma get_ehdr_take: "64 \<le> k \<Longrightarrow> get_ehdr (take k c) = get_ehdr c"
  by (simp add: get_ehdr_def field_take min_absorb1)

text \<open>The program headers of the file and that they, and the notes, are inside it.\<close>

definition file_phdrs :: "byte list \<Rightarrow> phdr list" where
  "file_phdrs c = get_phdrs (unat (e_phnum (get_ehdr c)))
     (take (56 * unat (e_phnum (get_ehdr c))) (drop (unat (e_phoff (get_ehdr c))) c))"

definition complete_file :: "byte list \<Rightarrow> bool" where
  "complete_file c \<longleftrightarrow>
     64 \<le> length c \<and> length c < 2 ^ 63 \<and>
     unat (e_phoff (get_ehdr c)) + 56 * unat (e_phnum (get_ehdr c)) \<le> length c \<and>
     list_all (\<lambda>ph. note_segment ph \<longrightarrow> in_file c ph) (file_phdrs c)"

lemma unat_phdrs_size:
  fixes n :: "16 word"
  shows "unat (ucast n * 56 :: 64 word) = 56 * unat n"
proof -
  have n: "unat n < 2 ^ 16" using unsigned_less [of n] by simp
  have eq: "(ucast n * 56 :: 64 word) = of_nat (56 * unat n)" by simp
  show ?thesis unfolding eq using n by (subst unat_of_nat) simp
qed

lemma check_phdrs_decides:
  assumes "seekable (files E) fd c" "complete_file c" "\<forall>n. alloc_ok E n" "64 \<le> k"
  shows "fst (check_phdrs E fd name fn (take k c) st) = Ret (if abi_accepts E c (file_phdrs c) then fd else -1)"
proof -
  let ?h = "get_ehdr c"
  have l: "length c < 2 ^ 63" using assms(2) by (simp add: complete_file_def)
  have "unat (e_phoff ?h) + unat (ucast (e_phnum ?h) * 56 :: 64 word) \<le> length c"
    using assms(2) by (simp add: complete_file_def unat_phdrs_size)
  from file_bytes_served [OF assms(1) l this, of k st] obtain st1 where
    fb: "file_bytes E fd (take k c) (e_phoff ?h) (ucast (e_phnum ?h) * 56) st =
      (Ret (Some (take (56 * unat (e_phnum ?h)) (drop (unat (e_phoff ?h)) c))), st1)"
    unfolding unat_phdrs_size by blast
  have run: "check_phdrs E fd name fn (take k c) st = check_notes E fd name fn (take k c) (file_phdrs c) st1"
    using fb by (simp add: check_phdrs_def get_ehdr_take [OF assms(4)] Let_def vbind_run(1) elf_machine_reject_phdr_p_def file_phdrs_def)
  have "\<forall>ph \<in> set (file_phdrs c). note_segment ph \<longrightarrow> in_file c ph"
    using assms(2) by (auto simp: complete_file_def list_all_iff)
  then show ?thesis unfolding run by (rule check_notes_decides [OF assms(1) l assms(3)])
qed

lemma verify_decides:
  assumes "serves (files E) fd (trace st) c" "seekable (files E) fd c" "complete_file c" "\<forall>n. alloc_ok E n" "fd \<noteq> -1"
  shows "fst (verify E fd name fn st) = Ret fd \<longleftrightarrow> wf_ehdr (libc_abi_max E) (get_ehdr c) \<and> abi_accepts E c (file_phdrs c)"
    and "fst (verify E fd name fn st) \<noteq> Ub f"
proof -
  have "serves (files E) fd (trace (st\<lparr>errno := 0\<rparr>)) c" using assms(1) by simp
  from read_header_serves [OF this, of "[]"] obtain k st1
    where rd: "read_header E fd [] (st\<lparr>errno := 0\<rparr>) = (Ret (take k c), st1)"
      and l: "64 \<le> length c \<longrightarrow> 64 \<le> length (take k c)" by auto
  from l assms(3) have l: "64 \<le> length (take k c)" and k: "64 \<le> k" by (auto simp: complete_file_def)
  define st2 where "st2 = st1\<lparr>fb := Some (take k c)\<rparr>"
  have run: "verify E fd name fn st =
    (case header_verdict (libc_abi_max E) (get_ehdr c) of
       Lose msg \<Rightarrow> lose E fd name fn 0 msg st2
     | Close_and_out other \<Rightarrow> close_and_out E fd (if other then st2\<lparr>other_class := True\<rparr> else st2)
     | Accept \<Rightarrow> check_phdrs E fd name fn (take k c) st2)"
    unfolding st2_def using rd l get_ehdr_take [OF k]
    by (simp add: verify_def vbind_run(1) vm_simps not_less [symmetric] del: length_take)
  have "length (e_ident (get_ehdr c)) = 16" using assms(3) by (simp add: get_ehdr_def complete_file_def)
  note acc = header_accept_iff [OF this, of "libc_abi_max E"]
  note dec = check_phdrs_decides [OF assms(2,3,4) k, of name fn st2]
  show "fst (verify E fd name fn st) = Ret fd \<longleftrightarrow> wf_ehdr (libc_abi_max E) (get_ehdr c) \<and> abi_accepts E c (file_phdrs c)"
    using run acc dec assms(5) by (cases "header_verdict (libc_abi_max E) (get_ehdr c)") auto
  show "fst (verify E fd name fn st) \<noteq> Ub f"
    using run dec by (cases "header_verdict (libc_abi_max E) (get_ehdr c)") auto
qed

lemma open_verify_opened:
  assumes "objsearch E = []" "fs_open (files E) (trace st) name = Inr fd" "fd \<noteq> -1"
  shows "open_verify E name (-1) loader code fn st = verify E fd name fn (vcall (Open name) st)"
  using assms by (simp add: open_verify_def sys_open_def vbind_def vm_simps verr_def Let_def)

section \<open>Reads outside the buffer\<close>

definition wraps :: "64 word \<Rightarrow> 64 word \<Rightarrow> bool" where
  "wraps off len \<longleftrightarrow> 2 ^ 64 \<le> unat off + unat len"

lemma file_bytes_Ub:
  assumes "file_bytes E fd b off len st = (Ub f, st')" "length b \<le> 832"
  shows "f = Oob_read \<and> st' = st \<and> wraps off len"
proof -
  have le: "off + len \<le> of_nat (length b)" and gt: "\<not> unat off + unat len \<le> length b" and eq: "f = Oob_read \<and> st' = st"
    using assms(1) by (auto simp: file_bytes_def sys_pread_def vbind_def vm_simps Let_def split: if_splits)
  have "wraps off len"
  proof (rule ccontr)
    assume "\<not> wraps off len"
    then have "unat (off + len) = unat off + unat len" by (subst unat_add_lem [symmetric]) (simp add: wraps_def)
    moreover have "unat (of_nat (length b) :: 64 word) = length b" using assms(2) by (simp add: unat_of_nat)
    ultimately show False using le gt by (simp add: word_le_nat_alt)
  qed
  with eq show ?thesis by simp
qed

lemma file_bytes_wraps:
  assumes "wraps off len" "off + len \<le> of_nat (length b)" "length b \<le> 832"
  shows "file_bytes E fd b off len st = (Ub Oob_read, st)"
  using assms by (simp add: file_bytes_def wraps_def vm_simps)

lemma file_bytes_cases:
  "(\<exists>st'. file_bytes E fd b off len st = (Ub Oob_read, st')) \<or> (\<exists>st'. file_bytes E fd b off len st = (Ret None, st')) \<or>
   (\<exists>bs st'. file_bytes E fd b off len st = (Ret (Some bs), st') \<and> length bs = unat len \<and>
      (bs = take (unat len) (drop (unat off) b) \<or> (\<exists>t. fs_pread (files E) t fd (unat len) (unat off) = Inr bs)))"
  by (auto simp: file_bytes_def sys_pread_def vbind_def vm_simps Let_def split: sum.splits)

lemma note_bytes_cases:
  assumes "length b \<le> 832"
  shows "(\<exists>st'. note_bytes E fd b ph st = (Ub Oob_read, st') \<and> wraps (p_offset ph) (p_filesz ph)) \<or>
    (\<exists>st'. note_bytes E fd b ph st = (Ret None, st')) \<or>
    (\<exists>bs st'. note_bytes E fd b ph st = (Ret (Some bs), st') \<and> length bs = unat (p_filesz ph))"
proof (cases "\<not> p_offset ph + p_filesz ph \<le> of_nat (length b) \<and> 65536 \<le> p_filesz ph \<and> \<not> alloc_ok E (unat (p_filesz ph))")
  case True
  then have "\<exists>st'. note_bytes E fd b ph st = (Ret None, st')" unfolding note_bytes_def if_P [OF True] by (simp add: vm_simps)
  then show ?thesis by blast
next
  case False
  have "note_bytes E fd b ph = (file_bytes E fd b (p_offset ph) (p_filesz ph) :: (byte list option, 'a) vm)"
    unfolding note_bytes_def by (rule if_not_P [OF False])
  with file_bytes_cases [of E fd b "p_offset ph" "p_filesz ph" st] file_bytes_Ub [OF _ assms, of E fd "p_offset ph" "p_filesz ph" st]
  show ?thesis by metis
qed

lemma check_notes_Ub:
  assumes "check_notes E fd name fn b phs st = (Ub f, st')" "length b \<le> 832"
  shows "f = Oob_read \<and> (\<exists>ph \<in> set phs. note_segment ph \<and> wraps (p_offset ph) (p_filesz ph))"
  using assms(1)
proof (induction phs arbitrary: st)
  case Nil
  then show ?case by (simp add: vm_simps)
next
  case (Cons ph phs)
  show ?case
  proof (cases "note_segment ph")
    case False
    with Cons show ?thesis by auto
  next
    case True
    consider (ub) st1 where "note_bytes E fd b ph st = (Ub Oob_read, st1)" "wraps (p_offset ph) (p_filesz ph)"
      | (none) st1 where "note_bytes E fd b ph st = (Ret None, st1)"
      | (some) bs st1 where "note_bytes E fd b ph st = (Ret (Some bs), st1)" "length bs = unat (p_filesz ph)"
      using note_bytes_cases [OF assms(2), of E fd ph st] by blast
    then show ?thesis
    proof cases
      case ub
      with True Cons.prems show ?thesis by (simp add: vbind_run)
    next
      case none
      with True Cons.prems show ?thesis by (simp add: vbind_run)
    next
      case some
      have "32 \<le> length bs" using some(2) True by (simp add: note_segment_def word_le_nat_alt)
      from note_scan_total [OF some(2) [symmetric] this, of "p_align ph = 8"] obtain s rest
        where sc: "note_scan (p_align ph = 8) (p_filesz ph) bs = Inr (s, rest)"
          and c: "s = 0 \<or> (\<exists>k. first_abi_note (p_align ph = 8) bs k \<and> rest = drop k bs)" by blast
      from c have "s = 0 \<or> \<not> length rest < 32"
        by (auto simp: first_abi_note_def dest: note_at_length)
      with True some(1) sc Cons.prems have "s = 0 \<and> check_notes E fd name fn b phs st1 = (Ub f, st')"
        by (auto simp: vbind_run vm_simps split: if_splits)
      then show ?thesis using Cons.IH [of st1] by auto
    qed
  qed
qed

lemma read_header_not_Ub:
  assumes "kernel_ok (files E)" "length b \<le> 832"
  shows "read_header E fd b st \<noteq> (Ub f, st')"
  using assms
proof (induction E fd b st rule: read_header.induct)
  case (1 E fd b st)
  obtain r st1 where r: "sys_read (files E) fd (832 - length b) st = (Ret r, st1)"
    and f: "r = fs_read (files E) (trace st) fd (832 - length b)" by (auto simp: sys_read_def Let_def)
  show ?case
  proof (cases r)
    case (Inl e)
    then show ?thesis using r by (subst read_header.simps) simp
  next
    case (Inr bs)
    then have "length bs \<le> 832 - length b" using 1(2) f [symmetric] by (auto simp: kernel_ok_def)
    then have "\<not> 832 < length (b @ bs)" using 1(3) by simp
    with 1(1) [OF r [symmetric] refl Inr _ this _ 1(2)] r Inr show ?thesis
      by (subst read_header.simps) (auto simp: not_less)
  qed
qed

text \<open>The table of program headers, from the buffer or from a read of the file.\<close>

definition phdr_table :: "vconf \<Rightarrow> int \<Rightarrow> byte list \<Rightarrow> byte list \<Rightarrow> bool" where
  "phdr_table E fd b tb \<longleftrightarrow>
     (let n = 56 * unat (e_phnum (get_ehdr b)); off = unat (e_phoff (get_ehdr b)) in
      tb = take n (drop off b) \<or> (\<exists>t. fs_pread (files E) t fd n off = Inr tb))"

definition bad_offsets :: "vconf \<Rightarrow> int \<Rightarrow> byte list \<Rightarrow> bool" where
  "bad_offsets E fd b \<longleftrightarrow>
     wraps (e_phoff (get_ehdr b)) (ucast (e_phnum (get_ehdr b)) * 56) \<or>
     (\<exists>tb. phdr_table E fd b tb \<and>
        (\<exists>ph \<in> set (get_phdrs (unat (e_phnum (get_ehdr b))) tb). note_segment ph \<and> wraps (p_offset ph) (p_filesz ph)))"

lemma check_phdrs_Ub:
  assumes "check_phdrs E fd name fn b st = (Ub f, st')" "length b \<le> 832"
  shows "f = Oob_read \<and> bad_offsets E fd b"
proof -
  let ?h = "get_ehdr b" and ?n = "ucast (e_phnum (get_ehdr b)) * 56 :: 64 word"
  consider (ub) st1 where "file_bytes E fd b (e_phoff ?h) ?n st = (Ub Oob_read, st1)"
    | (none) st1 where "file_bytes E fd b (e_phoff ?h) ?n st = (Ret None, st1)"
    | (some) tb st1 where "file_bytes E fd b (e_phoff ?h) ?n st = (Ret (Some tb), st1)" "phdr_table E fd b tb"
    using file_bytes_cases [of E fd b "e_phoff ?h" ?n st] unfolding phdr_table_def unat_phdrs_size Let_def by blast
  then show ?thesis
  proof cases
    case ub
    with assms(1) have "f = Oob_read" by (simp add: check_phdrs_def Let_def vbind_run)
    with file_bytes_Ub [OF ub assms(2)] show ?thesis by (simp add: bad_offsets_def)
  next
    case none
    with assms(1) show ?thesis by (simp add: check_phdrs_def Let_def vbind_run)
  next
    case some
    then have "check_notes E fd name fn b (get_phdrs (unat (e_phnum ?h)) tb) st1 = (Ub f, st')"
      using assms(1) by (simp add: check_phdrs_def Let_def vbind_run elf_machine_reject_phdr_p_def)
    from check_notes_Ub [OF this assms(2)] some(2) show ?thesis by (auto simp: bad_offsets_def)
  qed
qed

lemma vbind_Ub: "vbind m f st = (Ub u, st'') \<longleftrightarrow>
    m st = (Ub u, st'') \<or> (\<exists>a st'. m st = (Ret a, st') \<and> f a st' = (Ub u, st''))"
  unfolding vbind_def by (auto split: prod.splits exit.splits)

lemma verify_Ub:
  assumes "verify E fd name fn st = (Ub f, st')" "kernel_ok (files E)"
  shows "f = Oob_read \<and> (\<exists>b. fb st' = Some b \<and> length b \<le> 832 \<and> bad_offsets E fd b)"
proof -
  have nub: "read_header E fd [] (st\<lparr>errno := 0\<rparr>) \<noteq> (Ub f, st')" by (rule read_header_not_Ub [OF assms(2)]) simp
  obtain b st1 where b: "read_header E fd [] (st\<lparr>errno := 0\<rparr>) = (Ret b, st1)"
    and rest: "(let st = st1\<lparr>fb := Some b\<rparr> in if length b < 64
       then lose E fd name fn (errno st) (if errno st = 0 then ''file too short'' else ''cannot read file data'') st
       else
         (case header_verdict (libc_abi_max E) (get_ehdr b) of
            Lose msg \<Rightarrow> lose E fd name fn 0 msg st
          | Close_and_out other \<Rightarrow> close_and_out E fd (if other then st\<lparr>other_class := True\<rparr> else st)
          | Accept \<Rightarrow> check_phdrs E fd name fn b st)) = (Ub f, st')"
    using assms(1) nub by (auto simp: verify_def vbind_Ub vm_simps Let_def)
  from rest have c: "check_phdrs E fd name fn b (st1\<lparr>fb := Some b\<rparr>) = (Ub f, st')"
    by (auto simp: Let_def split: if_splits verdict.splits)
  have "length b \<le> 832" by (rule read_header_length [OF b]) simp
  moreover have "fb st' = Some b" using check_phdrs_fb [of E fd name fn b "st1\<lparr>fb := Some b\<rparr>"] c by simp
  ultimately show ?thesis using check_phdrs_Ub [OF c] by blast
qed

lemma open_verify_Ub:
  assumes "open_verify E name fd loader code fn st = (Ub f, st')" "kernel_ok (files E)"
  shows "f = Oob_read \<and> (\<exists>k b. fb st' = Some b \<and> length b \<le> 832 \<and> bad_offsets E k b)"
proof -
  have "\<exists>k name' st1. verify E k name' fn st1 = (Ub f, st')"
    using assms(1)
    by (auto simp: open_verify_def vbind_Ub vm_simps sys_close_def sys_open_def Let_def split: option.splits if_splits)
  then show ?thesis using verify_Ub [OF _ assms(2)] by blast
qed
lemma open_verify_wraps:
  fixes st :: "'z io_scheme"
  assumes "objsearch E = []" "fs_open (files E) (trace st) name = Inr fd" "fd \<noteq> -1"
    and "serves (files E) fd (trace st @ [Open name]) c" "64 \<le> length c" "kernel_ok (files E)"
    and "wf_ehdr (libc_abi_max E) (get_ehdr c)"
    and "wraps (e_phoff (get_ehdr c)) (ucast (e_phnum (get_ehdr c)) * 56)"
    and "e_phoff (get_ehdr c) + ucast (e_phnum (get_ehdr c)) * 56 \<le> 64"
  shows "fst (open_verify E name (-1) loader code fn st) = Ub Oob_read"
proof -
  let ?st = "vcall (Open name) st"
  have "serves (files E) fd (trace (?st\<lparr>errno := 0\<rparr>)) c" using assms(4) by simp
  from read_header_serves [OF this, of "[]"] obtain k st1
    where rd: "read_header E fd [] (?st\<lparr>errno := 0\<rparr>) = (Ret (take k c), st1)" and l: "64 \<le> length (take k c)"
    using assms(5) by auto
  have k: "64 \<le> k" using l by simp
  have l832: "length (take k c) \<le> 832" by (rule read_header_length [OF rd]) simp
  have "length (e_ident (get_ehdr c)) = 16" using assms(5) by (simp add: get_ehdr_def)
  with assms(7) have acc: "header_verdict (libc_abi_max E) (get_ehdr c) = Accept" by (simp add: header_accept_iff)
  have "(64 :: 64 word) \<le> of_nat (length (take k c))" using l l832 by (simp add: word_le_nat_alt unat_of_nat)
  with assms(9) have "e_phoff (get_ehdr c) + ucast (e_phnum (get_ehdr c)) * 56 \<le> of_nat (length (take k c))" by simp
  note fbw = file_bytes_wraps [OF assms(8) this l832, of E fd]
  have "check_phdrs E fd name fn (take k c) st2 = (Ub Oob_read, st2)" for st2 :: "'z io_scheme"
    unfolding check_phdrs_def get_ehdr_take [OF k] Let_def by (simp add: vbind_run(3) [OF fbw])
  then show ?thesis
    unfolding open_verify_opened [OF assms(1-3)]
    using rd l acc get_ehdr_take [OF k] by (simp add: verify_def vbind_run(1) vm_simps not_less [symmetric] del: length_take)
qed

section \<open>Properties\<close>

text \<open>A kernel with one file, read from the position the calls before have reached.\<close>

fun read_pos :: "call list \<Rightarrow> nat" where
  "read_pos [] = 0"
| "read_pos (Read k n # t) = n + read_pos t"
| "read_pos (_ # t) = read_pos t"

definition one_file :: "string \<Rightarrow> byte list \<Rightarrow> fs" where
  "one_file name c =
     \<lparr>fs_open = (\<lambda>t n. if n = name then Inr 3 else Inl ENOENT),
      fs_openat = (\<lambda>t d n. Inl ENOENT),
      fs_read = (\<lambda>t k n. Inr (take n (drop (read_pos t) c))),
      fs_pread = (\<lambda>t k n off. Inr (take n (drop off c))),
      fs_close = (\<lambda>t k. None),
      fs_stat = (\<lambda>t n. Inl ENOENT),
      fs_fstat = (\<lambda>t k. Inr False)\<rparr>"

definition demo_conf :: "fs \<Rightarrow> vconf" where
  "demo_conf F = \<lparr>files = F, objsearch = [], libc_abi_max = 4, abi_tag_os = 0, dl_osversion = 0, alloc_ok = (\<lambda>_. True)\<rparr>"

definition demo_io :: io where
  "demo_io = \<lparr>trace = [], errno = 0, other_class = False, fb = None\<rparr>"

definition demo_header :: "byte list \<Rightarrow> byte list" where
  "demo_header phoff =
     expected @ [3, 0, 62, 0, 1, 0, 0, 0] @ replicate 8 0 @ phoff @ replicate 8 0
     @ [0, 0, 0, 0, 64, 0, 56, 0, 1, 0, 0, 0, 0, 0, 0, 0]"

text \<open>A shared object with one program header, of type \<open>PT_LOAD\<close>.\<close>

definition demo_file :: "byte list" where
  "demo_file = demo_header [64, 0, 0, 0, 0, 0, 0, 0] @ [1, 0, 0, 0] @ replicate 52 0"

definition wrap_file :: "byte list" where
  "wrap_file = demo_header [0xF0, 0xFF, 0xFF, 0xFF, 0xFF, 0xFF, 0xFF, 0xFF]"

lemma read_pos_append: "read_pos (t @ [Read k n]) = n + read_pos t"
  by (induction t rule: read_pos.induct) simp_all

lemma one_file_serves: "serves (one_file name c) fd t (drop (read_pos t) c)"
proof -
  have "d = drop (read_pos t) c \<Longrightarrow> serves (one_file name c) fd t d" for d
  proof (coinduction arbitrary: t d)
    case serves
    show ?case
    proof (intro exI conjI allI impI)
      fix n :: nat assume "0 < n"
      show "fs_read (one_file name c) t fd n = Inr (take n d)" using serves by (simp add: one_file_def)
      show "n \<le> n" by simp
      show "0 < n" by fact
    qed (use serves in \<open>auto simp: read_pos_append add.commute\<close>)
  qed
  then show ?thesis by simp
qed

lemma one_file_ok: "kernel_ok (one_file name c)"
  by (auto simp: kernel_ok_def one_file_def split: if_splits)

lemma one_file_seekable: "seekable (one_file name c) fd c"
  by (simp add: seekable_def one_file_def)

lemma demo_accepted: "fst (open_verify (demo_conf (one_file ''lib'' demo_file)) ''lib'' (-1) None 0 False demo_io) = Ret 3"
  by code_simp

text \<open>C4: a descriptor that \<open>open_verify\<close> returns belongs to a file whose header, now in the caller's buffer, is that of
  a loadable x86-64 shared object or executable: the buffer holds at least the 64 bytes of the header and at most 832,
  with the magic number, class, byte order, version, OS ABI and padding in \<open>e_ident\<close> as required, the current version,
  the machine, one of the two object types and the size of a program header.
\<close>

theorem open_verify_accepts:
  assumes "open_verify E name fd loader code fn st = (Ret k, st')" "k \<noteq> -1"
  shows "\<exists>b. fb st' = Some b \<and> 64 \<le> length b \<and> length b \<le> 832 \<and> wf_ehdr (libc_abi_max E) (get_ehdr b)"
  using assms by (rule open_verify_Ret)

theorem open_verify_accepts_witness:
  "\<exists>b. fb (snd (open_verify (demo_conf (one_file ''lib'' demo_file)) ''lib'' (-1) None 0 False demo_io)) = Some b \<and>
     64 \<le> length b \<and> length b \<le> 832 \<and> wf_ehdr (libc_abi_max (demo_conf (one_file ''lib'' demo_file))) (get_ehdr b)"
  by (rule open_verify_accepts [of _ "''lib''" "-1" None 0 False demo_io 3]) (simp_all add: prod_eq_iff demo_accepted)

text \<open>C5: \<open>open_verify\<close> consumes the descriptor it is given.  Whatever it returns or raises, the descriptors held
  afterwards are the returned one and those of others: the descriptor passed in or opened is closed, and closed once,
  unless it is the result.  The exception is an auditing library that refuses the name: then the function returns -1 and
  the descriptor passed in stays open.
\<close>

theorem open_verify_consumes:
  assumes "kernel_ok (files E)" "open_verify E name fd loader code fn st = (r, st')"
  shows "if audit_name E (trace st) name loader code = None
         then r = Ret (-1) \<and> fds_after (files E) st st' (own_of fd @ H) = own_of fd @ H
         else (case r of Ret k \<Rightarrow> fds_after (files E) st st' (own_of fd @ H) = own_of k @ H
               | Signal e n s \<Rightarrow> fds_after (files E) st st' (own_of fd @ H) = H | Ub f \<Rightarrow> True)"
proof (cases "audit_name E (trace st) name loader code = None")
  case True
  with assms(2) have "r = Ret (-1) \<and> st' = st" by (auto simp: open_verify_def audit_name_def vm_simps)
  with True show ?thesis by (simp add: fds_after_def)
next
  case False
  with open_verify_fds [OF assms(1) _ assms(2), of H] show ?thesis unfolding if_not_P [OF False] by simp
qed

definition refuse_conf :: vconf where
  "refuse_conf = (demo_conf (one_file ''lib'' demo_file))\<lparr>objsearch := [Some (\<lambda>t n c. None)]\<rparr>"

theorem open_verify_consumes_witness:
  "fds_after (files refuse_conf) demo_io (snd (open_verify refuse_conf ''lib'' 5 (Some False) 8 False demo_io)) [5, 1] = [5, 1]"
proof -
  have "audit_name refuse_conf (trace demo_io) ''lib'' (Some False) 8 = None"
    by (simp add: audit_name_def refuse_conf_def dl_audit_objsearch_def)
  moreover have "kernel_ok (files refuse_conf)" by (simp add: refuse_conf_def demo_conf_def one_file_ok)
  ultimately show ?thesis
    using open_verify_consumes [of refuse_conf "''lib''" 5 "Some False" 8 False demo_io _ _ "[1]", OF _ surjective_pairing]
    by (simp add: own_of_def)
qed

text \<open>C1: on a regular file that is complete, that is, whose header, program headers and note segments lie inside the file, read
  in pieces of any size, the decision of \<open>open_verify\<close> is right: the file is accepted if and only if its header is well formed
  and the first ABI note among its note segments, if there is one, names this system and a version the kernel has; and no read
  leaves the buffer.  The program headers and notes are those at their offsets in the file, whether they were in the first 832
  bytes or not.
\<close>

theorem open_verify_decides:
  assumes "objsearch E = []" "\<forall>n. alloc_ok E n" "fs_open (files E) (trace st) name = Inr fd" "fd \<noteq> -1"
    and "serves (files E) fd (trace st @ [Open name]) c" "seekable (files E) fd c" "complete_file c"
  shows "(fst (open_verify E name (-1) loader code fn st) = Ret fd \<longleftrightarrow>
      wf_ehdr (libc_abi_max E) (get_ehdr c) \<and> abi_accepts E c (file_phdrs c)) \<and>
    fst (open_verify E name (-1) loader code fn st) \<noteq> Ub f"
proof -
  have "serves (files E) fd (trace (vcall (Open name) st)) c" using assms(5) by simp
  from verify_decides [OF this assms(6,7,2,4)] show ?thesis unfolding open_verify_opened [OF assms(1,3,4)] by blast
qed

lemmas demo_eval = get_ehdr_def field_def demo_header_def expected_def elfmag_def

lemma demo_ehdr: "length demo_file = 120" "e_phoff (get_ehdr demo_file) = 64" "e_phnum (get_ehdr demo_file) = 1"
  by (simp_all add: demo_file_def demo_eval)

lemma demo_phdrs: "\<not> note_segment (get_phdr (drop 64 demo_file))"
  by (simp add: demo_file_def demo_eval get_phdr_def note_segment_def)

lemma demo_complete: "complete_file demo_file"
  using demo_phdrs by (simp add: complete_file_def demo_ehdr file_phdrs_def get_phdrs_def)

theorem open_verify_decides_witness:
  "wf_ehdr 4 (get_ehdr demo_file) \<and> abi_accepts (demo_conf (one_file ''lib'' demo_file)) demo_file (file_phdrs demo_file)"
proof -
  let ?E = "demo_conf (one_file ''lib'' demo_file)"
  have s: "serves (files ?E) 3 (trace demo_io @ [Open ''lib'']) demo_file"
    using one_file_serves [of "''lib''" demo_file 3 "[Open ''lib'']"] by (simp add: demo_conf_def demo_io_def)
  have f: "objsearch ?E = []" "\<forall>n. alloc_ok ?E n" "fs_open (files ?E) (trace demo_io) ''lib'' = Inr 3" "(3 :: int) \<noteq> -1"
    "seekable (files ?E) 3 demo_file"
    by (simp_all add: demo_conf_def one_file_seekable) (simp add: one_file_def)
  from open_verify_decides [OF f(1-4) s f(5) demo_complete, of None 0 False] demo_accepted show ?thesis
    by (simp add: demo_conf_def)
qed

text \<open>C6: the only undefined behaviour of \<open>open_verify\<close> is a read outside the header buffer, and it happens only for a file
  in which the offset and the size of the program headers, or of a note segment, add up to more than 64 bits.
\<close>

theorem open_verify_bounds:
  assumes "kernel_ok (files E)" "open_verify E name fd loader code fn st = (Ub f, st')"
  shows "f = Oob_read \<and> (\<exists>k b. fb st' = Some b \<and> length b \<le> 832 \<and> bad_offsets E k b)"
  using assms(2,1) by (rule open_verify_Ub)

lemma replicate7: "replicate 7 x = [x, x, x, x, x, x, x]"
  by (simp add: numeral_eq_Suc)

lemma wrap_ehdr: "length wrap_file = 64" "e_phoff (get_ehdr wrap_file) = 0xFFFFFFFFFFFFFFF0" "e_phnum (get_ehdr wrap_file) = 1"
  by (simp_all add: wrap_file_def demo_eval)

lemma wrap_header: "wf_ehdr 4 (get_ehdr wrap_file)"
    "wraps (e_phoff (get_ehdr wrap_file)) (ucast (e_phnum (get_ehdr wrap_file)) * 56)"
    "e_phoff (get_ehdr wrap_file) + ucast (e_phnum (get_ehdr wrap_file)) * 56 \<le> 64"
  by (simp_all add: wrap_ehdr wraps_def) (simp add: wf_ehdr_def wf_ident_def wrap_file_def demo_eval replicate7)

lemma wrap_run: "fst (open_verify (demo_conf (one_file ''lib'' wrap_file)) ''lib'' (-1) None 0 False demo_io) = Ub Oob_read"
proof (rule open_verify_wraps [where fd = 3 and c = wrap_file])
  show "serves (files (demo_conf (one_file ''lib'' wrap_file))) 3 (trace demo_io @ [Open ''lib'']) wrap_file"
    using one_file_serves [of "''lib''" wrap_file 3 "[Open ''lib'']"] by (simp add: demo_conf_def demo_io_def)
qed (simp_all add: demo_conf_def one_file_ok wrap_header(1) wrap_ehdr wraps_def, simp add: one_file_def)

theorem open_verify_bounds_witness:
  "\<exists>k b. fb (snd (open_verify (demo_conf (one_file ''lib'' wrap_file)) ''lib'' (-1) None 0 False demo_io)) = Some b \<and>
     bad_offsets (demo_conf (one_file ''lib'' wrap_file)) k b"
proof -
  have "kernel_ok (files (demo_conf (one_file ''lib'' wrap_file)))" by (simp add: demo_conf_def one_file_ok)
  from open_verify_bounds [OF this, of "''lib''" "-1" None 0 False demo_io Oob_read] wrap_run show ?thesis
    by (metis prod.collapse)
qed

text \<open>Such a file gets through: a well-formed header whose program header offset and size add up to at most 64 modulo
  2 to the 64 passes the test against the length of the buffer, and the program headers are read outside it.
\<close>

theorem open_verify_phoff_wrap:
  assumes "objsearch E = []" "fs_open (files E) (trace st) name = Inr fd" "fd \<noteq> -1"
    and "serves (files E) fd (trace st @ [Open name]) c" "64 \<le> length c" "kernel_ok (files E)"
    and "wf_ehdr (libc_abi_max E) (get_ehdr c)"
    and "wraps (e_phoff (get_ehdr c)) (ucast (e_phnum (get_ehdr c)) * 56)"
    and "e_phoff (get_ehdr c) + ucast (e_phnum (get_ehdr c)) * 56 \<le> 64"
  shows "fst (open_verify E name (-1) loader code fn st) = Ub Oob_read"
  using assms by (rule open_verify_wraps)

theorem open_verify_phoff_wrap_witness:
  "fst (open_verify (demo_conf (one_file ''lib'' wrap_file)) ''lib'' (-1) None 0 False demo_io) = Ub Oob_read"
proof (rule open_verify_phoff_wrap [where fd = 3 and c = wrap_file])
  show "serves (files (demo_conf (one_file ''lib'' wrap_file))) 3 (trace demo_io @ [Open ''lib'']) wrap_file"
    using one_file_serves [of "''lib''" wrap_file 3 "[Open ''lib'']"] by (simp add: demo_conf_def demo_io_def)
qed (simp_all add: demo_conf_def one_file_ok wrap_header(1) wrap_ehdr wraps_def, simp add: one_file_def)

end
