(* ===== verification/MapObject.thy ===== *)
theory MapObject
  imports OpenVerifySpec SearchPath
begin

text \<open>
  Finding a library: \<open>open_path\<close>, \<open>add_name_to_object\<close> and \<open>_dl_map_object\<close> of elf/dl-load.c up to the call of
  \<open>_dl_map_object_from_fd\<close>, with \<open>_dl_name_match_p\<close> (elf/dl-misc.c) and \<open>_dl_sysdep_open_object\<close>.  The state is that of
  \<open>open_verify\<close> with the search paths, the link maps and their names; a link map is the number of its address.  The result of
  \<open>_dl_load_cache_lookup\<close> is a function of the calls before.  Debug output is left out.
\<close>

section \<open>State\<close>

record obj_names =
  l_libname :: "string list"
  dt_soname :: "string option"     \<comment> \<open>\<open>l_info[DT_SONAME]\<close> and the string it refers to\<close>
  l_soname_added :: bool
  l_faked :: bool
  l_removed :: bool

record search_io = io +
  ldr :: loader
  onames :: "nat \<Rightarrow> obj_names"

type_synonym 'a lm = "search_io \<Rightarrow> 'a exit \<times> search_io"

record mconf =
  ver :: vconf
  lenv :: ld_env
  max_capstrlen :: nat
  auditing :: "nat \<Rightarrow> bool"              \<comment> \<open>\<open>l_auditing\<close>\<close>
  ns_loaded :: "nat \<Rightarrow> nat list"         \<comment> \<open>the chain of maps of a namespace\<close>
  dl_nns :: nat
  rtld_map :: nat                       \<comment> \<open>\<open>GL(dl_rtld_map)\<close>\<close>
  openat_paths :: "fd_array option"
  dl_exec_fd :: int
  inhibit_cache :: bool
  cache_lookup :: "call list \<Rightarrow> string \<Rightarrow> string option"

definition ns_head :: "mconf \<Rightarrow> nat \<Rightarrow> nat option" where
  "ns_head C ns = (case ns_loaded C ns of [] \<Rightarrow> None | h # _ \<Rightarrow> Some h)"

text \<open>\<open>a ?: b\<close>\<close>

definition or_else :: "'a option \<Rightarrow> 'a option \<Rightarrow> 'a option" where
  "or_else a b = (case a of None \<Rightarrow> b | Some x \<Rightarrow> Some x)"

text \<open>The bits of \<open>mode\<close> that are looked at.\<close>

record dl_mode =
  rtld_secure :: bool
  rtld_audit :: bool
  rtld_callmap :: bool

definition lift_res :: "'a res \<Rightarrow> 'a lm" where
  "lift_res r = (case r of Inl f \<Rightarrow> vub f | Inr a \<Rightarrow> vret a)"

text \<open>Reading the state; \<open>vread\<close> where the read may be undefined.\<close>

definition vget :: "(search_io \<Rightarrow> 'a) \<Rightarrow> 'a lm" where
  "vget f st = (Ret (f st), st)"

definition vread :: "(search_io \<Rightarrow> 'a res) \<Rightarrow> 'a lm" where
  "vread f st = (case f st of Inl e \<Rightarrow> (Ub e, st) | Inr a \<Rightarrow> (Ret a, st))"

section \<open>open_path\<close>

definition dir_at :: "nat \<Rightarrow> search_io \<Rightarrow> search_elem option" where
  "dir_at p st = map_of (all_dirs (paths (ldr st))) p"

definition set_status :: "nat \<Rightarrow> nat \<Rightarrow> r_dir_status \<Rightarrow> search_io \<Rightarrow> search_io" where
  "set_status p cnt s st =
     st\<lparr>ldr := (ldr st)\<lparr>paths := (paths (ldr st))\<lparr>all_dirs :=
        map (\<lambda>(q, e). (q, if q = p then e\<lparr>status := (status e)[cnt := s]\<rparr> else e)) (all_dirs (paths (ldr st)))\<rparr>\<rparr>\<rparr>"

definition status_at :: "nat \<Rightarrow> nat \<Rightarrow> search_io \<Rightarrow> r_dir_status res" where
  "status_at p cnt st =
     (case dir_at p st of
        None \<Rightarrow> Inl Null_deref
      | Some e \<Rightarrow> if cnt < length (status e) then Inr (status e ! cnt) else Inl Oob_read)"

definition loader_auditing :: "mconf \<Rightarrow> nat option \<Rightarrow> bool option" where
  "loader_auditing C loader = map_option (auditing C) loader"

text \<open>Is the status of a directory recorded: not while auditing code is loaded.\<close>

definition may_record :: "mconf \<Rightarrow> nat option \<Rightarrow> search_io \<Rightarrow> bool res" where
  "may_record C loader st =
     (case loader of
        None \<Rightarrow> Inr True
      | Some l \<Rightarrow>
          (case ns_loaded C (l_ns (maps (ldr st) l)) of
             [] \<Rightarrow> Inl Null_deref
           | h # _ \<Rightarrow> Inr (\<not> auditing C h)))"

text \<open>
  The update of an unknown status after an attempt; \<open>buf\<close> holds the name that was tried, of which the last \<open>namelen\<close>
  characters and the slash before them are cut off.
\<close>

definition note_status ::
  "mconf \<Rightarrow> nat option \<Rightarrow> nat \<Rightarrow> nat \<Rightarrow> nat \<Rightarrow> nat \<Rightarrow> int \<Rightarrow> char list \<Rightarrow> char list lm" where
  "note_status C loader p cnt buflen namelen fd buf =
     vbind (vread (status_at p cnt)) (\<lambda>s.
       if s \<noteq> unknown then vret buf
       else if fd \<noteq> -1 then vbind (vmod (set_status p cnt existing)) (\<lambda>_. vret buf)
       else
         vbind (vread (may_record C loader)) (\<lambda>rec.
           if \<not> rec then vret buf
           else if buflen < namelen + 1 then vub Oob_write
           else
             vbind (lift_res (put_chars [NUL] (buflen - namelen - 1) buf)) (\<lambda>buf.
             vbind (sys_stat (files (ver C)) (cstr buf)) (\<lambda>r.
             vbind (vmod (set_status p cnt (if r = Inr True then existing else nonexisting))) (\<lambda>_.
               vret buf)))))"

text \<open>The additional test for set-user-ID programs.\<close>

definition suid_check :: "mconf \<Rightarrow> bool \<Rightarrow> int \<Rightarrow> int lm" where
  "suid_check C secure fd =
     (if fd \<noteq> -1 \<and> secure \<and> enable_secure (dst (lenv C))
      then
        vbind (sys_fstat (files (ver C)) fd) (\<lambda>r.
          if r = Inr True then vret fd
          else
            vbind (sys_close (files (ver C)) fd) (\<lambda>_.
            vbind (vmod (errno_update (\<lambda>_. ENOENT))) (\<lambda>_. vret (-1))))
      else vret fd)"

text \<open>One subdirectory: the result is the descriptor, the buffer, \<open>buflen\<close> and \<open>here_any\<close>.\<close>

definition try_cap ::
  "mconf \<Rightarrow> string \<Rightarrow> nat option \<Rightarrow> nat \<Rightarrow> bool \<Rightarrow> nat \<Rightarrow> nat \<Rightarrow> nat \<Rightarrow> string \<Rightarrow> char list \<Rightarrow> nat \<Rightarrow> bool \<Rightarrow>
   (int \<times> char list \<times> nat \<times> bool) lm" where
  "try_cap C name loader code secure p dirlen cnt cap buf buflen here_any =
     vbind (vread (status_at p cnt)) (\<lambda>s.
       if s = nonexisting then vret (-1, buf, buflen, here_any)
       else
         let namelen = length name + 1; buflen = dirlen + length cap + namelen in
         vbind (lift_res (put_chars cap dirlen buf)) (\<lambda>buf.
         vbind (lift_res (put_chars (name @ [NUL]) (dirlen + length cap) buf)) (\<lambda>buf.
         vbind (open_verify (ver C) (cstr buf) (-1) (loader_auditing C loader) code False) (\<lambda>fd.
         vbind (note_status C loader p cnt buflen namelen fd buf) (\<lambda>buf.
         vbind (vread (status_at p cnt)) (\<lambda>s.
         vbind (suid_check C secure fd) (\<lambda>fd.
           vret (fd, buf, buflen, here_any \<or> s \<noteq> nonexisting))))))))"

fun cap_loop ::
  "mconf \<Rightarrow> string \<Rightarrow> nat option \<Rightarrow> nat \<Rightarrow> bool \<Rightarrow> nat \<Rightarrow> nat \<Rightarrow> nat \<Rightarrow> string list \<Rightarrow> char list \<Rightarrow> nat \<Rightarrow> bool \<Rightarrow>
   (int \<times> char list \<times> nat \<times> bool) lm" where
  "cap_loop C name loader code secure p dirlen cnt [] buf buflen here_any = vret (-1, buf, buflen, here_any)"
| "cap_loop C name loader code secure p dirlen cnt (cap # caps) buf buflen here_any =
     vbind (try_cap C name loader code secure p dirlen cnt cap buf buflen here_any) (\<lambda>(fd, buf, buflen, here_any).
       if fd \<noteq> -1 then vret (fd, buf, buflen, here_any)
       else cap_loop C name loader code secure p dirlen (cnt + 1) caps buf buflen here_any)"

datatype path_result =
    Stop int "string option"      \<comment> \<open>returned from inside the loop, with the malloc'd name on success\<close>
  | Exhausted bool                \<comment> \<open>no directory had it; did any of them exist\<close>

fun path_loop ::
  "mconf \<Rightarrow> string \<Rightarrow> nat option \<Rightarrow> nat \<Rightarrow> bool \<Rightarrow> nat list \<Rightarrow> char list \<Rightarrow> bool \<Rightarrow> path_result lm" where
  "path_loop C name loader code secure [] buf any = vret (Exhausted any)"
| "path_loop C name loader code secure (p # ps) buf any =
     vbind (vread (\<lambda>st. case dir_at p st of None \<Rightarrow> Inl Null_deref | Some e \<Rightarrow> Inr (dirname e))) (\<lambda>dir.
     vbind (lift_res (put_chars dir 0 buf)) (\<lambda>buf.
     vbind (cap_loop C name loader code secure p (length dir) 0 (capstr (lenv C)) buf 0 False)
       (\<lambda>(fd, buf, buflen, here_any).
          if fd \<noteq> -1
          then
            if alloc_ok (ver C) buflen then vret (Stop fd (Some (cstr (take buflen buf))))
            else vbind (sys_close (files (ver C)) fd) (\<lambda>_. vret (Stop (-1) None))
          else
            vbind (vget errno) (\<lambda>err.
              if here_any \<and> err \<noteq> ENOENT \<and> err \<noteq> EACCES then vret (Stop (-1) None)
              else path_loop C name loader code secure ps buf (any \<or> here_any)))))"

text \<open>
  \<open>relro\<close>: the path is one of the two the loader must not write to.  The result is the descriptor, the name and the
  path as it is left.
\<close>

text \<open>The \<open>free\<close> of an allocated array of directories that turns out empty has no effect that the model sees.\<close>

definition open_path ::
  "mconf \<Rightarrow> string \<Rightarrow> bool \<Rightarrow> search_path \<Rightarrow> bool \<Rightarrow> nat option \<Rightarrow> nat \<Rightarrow> (int \<times> string option \<times> search_path) lm" where
  "open_path C name secure sps relro loader code =
     (case dirs sps of
        Dirs_null \<Rightarrow> vret (-1, None, sps)
      | Dirs_none \<Rightarrow> vub Null_deref
      | Dirs [] \<Rightarrow> vub Null_deref
      | Dirs (p # ps) \<Rightarrow>
          vbind (vget (\<lambda>st. max_dirnamelen (paths (ldr st)) + max_capstrlen C + length name + 1)) (\<lambda>n.
          vbind (path_loop C name loader code secure (p # ps) (replicate n NUL) False) (\<lambda>r.
            vret (case r of
                    Stop fd realname \<Rightarrow> (fd, realname, sps)
                  | Exhausted any \<Rightarrow> (-1, None, if \<not> any \<and> \<not> relro then sps\<lparr>dirs := Dirs_none\<rparr> else sps)))))"

section \<open>Names of loaded objects\<close>

fun libname_member :: "string \<Rightarrow> string list \<Rightarrow> bool" where
  "libname_member name [] = False"
| "libname_member name (n # ns) = (if name = n then True else libname_member name ns)"

definition dl_name_match_p :: "string \<Rightarrow> link_map \<Rightarrow> obj_names \<Rightarrow> bool" where
  "dl_name_match_p name l nm = (if name = l_name l then True else libname_member name (l_libname nm))"

definition add_name_to_object :: "mconf \<Rightarrow> nat \<Rightarrow> string \<Rightarrow> unit lm" where
  "add_name_to_object C l name =
     vbind (vget (\<lambda>st. l_libname (onames st l))) (\<lambda>ns.
       if libname_member name ns then vret ()
       else if \<not> alloc_ok (ver C) (24 + length name + 1) then vsignal ENOMEM name ''cannot allocate name record''
       else if ns = [] then vub Assert_fail
       else vmod (onames_update (\<lambda>f. f(l := (f l)\<lparr>l_libname := ns @ [name]\<rparr>))))"

fun find_loaded :: "mconf \<Rightarrow> string \<Rightarrow> nat list \<Rightarrow> nat option lm" where
  "find_loaded C name [] = vret None"
| "find_loaded C name (l # ls) =
     vbind (vget (\<lambda>st. (maps (ldr st) l, onames st l))) (\<lambda>(lm, nm).
       if l_faked nm \<or> l_removed nm then find_loaded C name ls
       else if dl_name_match_p name lm nm then vret (Some l)
       else if l_soname_added nm \<or> dt_soname nm = None \<or> dt_soname nm \<noteq> Some name then find_loaded C name ls
       else
         vbind (add_name_to_object C l name) (\<lambda>_.
         vbind (vmod (onames_update (\<lambda>f. f(l := (f l)\<lparr>l_soname_added := True\<rparr>)))) (\<lambda>_.
           vret (Some l))))"

section \<open>The descriptors of LD_LIBRARY_PATH_FDS\<close>

text \<open>The loop over \<open>openat_paths\<close>, which looks for the element -1.\<close>

fun openat_search :: "fs \<Rightarrow> string \<Rightarrow> fd_array \<Rightarrow> int \<Rightarrow> int lm" where
  "openat_search F name [] fd = vub Oob_read"
| "openat_search F name (None # a) fd = vub Uninit_read"
| "openat_search F name (Some d # a) fd =
     (if d = -1 then vret fd
      else vbind (sys_openat F d name) (\<lambda>fd. if fd \<noteq> -1 then vret fd else openat_search F name a fd))"

text \<open>The results \<open>fd\<close> and \<open>realname\<close> of the search so far; \<open>None\<close> is a name that was not assigned.\<close>

type_synonym found = "int \<times> string option"

definition openat_step :: "mconf \<Rightarrow> string \<Rightarrow> nat option \<Rightarrow> found lm" where
  "openat_step C name loader =
     (case openat_paths C of
        None \<Rightarrow> vret (-1, None)
      | Some a \<Rightarrow>
          vbind (openat_search (files (ver C)) name a (-1)) (\<lambda>fd.
            if fd > 0
            then vbind (open_verify (ver C) name fd (loader_auditing C loader) 8 False) (\<lambda>fd. vret (fd, Some name))
            else vret (fd, None)))"

section \<open>The search paths in order\<close>

text \<open>A new value of \<open>realname\<close> where \<open>open_path\<close> has stored one.\<close>

definition stored :: "string option \<Rightarrow> string option \<Rightarrow> string option" where
  "stored old new = (case new of None \<Rightarrow> old | Some r \<Rightarrow> Some r)"

definition lift_ldr :: "(loader \<Rightarrow> ('a \<times> loader) res) \<Rightarrow> 'a lm" where
  "lift_ldr f st = (case f (ldr st) of Inl e \<Rightarrow> (Ub e, st) | Inr (a, l) \<Rightarrow> (Ret a, st\<lparr>ldr := l\<rparr>))"

definition set_rpath :: "nat \<Rightarrow> search_path \<Rightarrow> search_io \<Rightarrow> search_io" where
  "set_rpath l sps st =
     st\<lparr>ldr := (ldr st)\<lparr>maps := (maps (ldr st))(l := (maps (ldr st) l)\<lparr>l_rpath_dirs := sps\<rparr>)\<rparr>\<rparr>"

definition set_runpath :: "nat \<Rightarrow> search_path \<Rightarrow> search_io \<Rightarrow> search_io" where
  "set_runpath l sps st =
     st\<lparr>ldr := (ldr st)\<lparr>maps := (maps (ldr st))(l := (maps (ldr st) l)\<lparr>l_runpath_dirs := sps\<rparr>)\<rparr>\<rparr>"

text \<open>\<open>open_path\<close> on the RPATH, and on the RUNPATH, of a map.\<close>

definition open_rpath :: "mconf \<Rightarrow> string \<Rightarrow> bool \<Rightarrow> nat \<Rightarrow> nat option \<Rightarrow> string option \<Rightarrow> found lm" where
  "open_rpath C name secure l loader realname =
     vbind (vget (\<lambda>st. l_rpath_dirs (maps (ldr st) l))) (\<lambda>sps.
     vbind (open_path C name secure sps False loader 4) (\<lambda>(fd, r, sps).
     vbind (vmod (set_rpath l sps)) (\<lambda>_. vret (fd, stored realname r))))"

definition open_runpath :: "mconf \<Rightarrow> string \<Rightarrow> bool \<Rightarrow> nat \<Rightarrow> nat option \<Rightarrow> string option \<Rightarrow> found lm" where
  "open_runpath C name secure l loader realname =
     vbind (vget (\<lambda>st. l_runpath_dirs (maps (ldr st) l))) (\<lambda>sps.
     vbind (open_path C name secure sps False loader 4) (\<lambda>(fd, r, sps).
     vbind (vmod (set_runpath l sps)) (\<lambda>_. vret (fd, stored realname r))))"

text \<open>
  The RPATHs of the loading object, of the object that caused it to be loaded and so on; the result says whether the
  main map was among them.  The chain of loaders ends, so the number of maps is enough fuel.
\<close>

primrec rpath_chain ::
  "nat \<Rightarrow> mconf \<Rightarrow> string \<Rightarrow> bool \<Rightarrow> nat option \<Rightarrow> nat option \<Rightarrow> found \<Rightarrow> bool \<Rightarrow> (found \<times> bool) lm" where
  "rpath_chain 0 C name secure loader l found did = vub Out_of_fuel"
| "rpath_chain (Suc fuel) C name secure loader l found did =
     (case l of
        None \<Rightarrow> vret (found, did)
      | Some a \<Rightarrow>
          vbind (lift_ldr (cache_rpath_at (lenv C) a)) (\<lambda>ok.
          vbind (if ok then open_rpath C name secure a loader (snd found) else vret found) (\<lambda>found.
            if ok \<and> fst found \<noteq> -1 then vret (found, did)
            else
              vbind (vget (\<lambda>st. l_loader (maps (ldr st) a))) (\<lambda>next_l.
                rpath_chain fuel C name secure loader next_l found (did \<or> ok \<and> ns_head C 0 = Some a)))))"

text \<open>The RUNPATH of the main map, for an auditing library.\<close>

definition main_runpath :: "mconf \<Rightarrow> nat \<Rightarrow> (bool \<times> search_path) lm" where
  "main_runpath C m =
     lift_ldr (\<lambda>ld.
       rbind (cache_rpath (lenv C) \<lparr>dirs = Dirs_null, malloced = False\<rparr> (dt_runpath (maps ld m)) (maps ld m)
                ''RUNPATH'' (paths ld)) (\<lambda>(ok, sps, l, ps).
         Inr ((ok, sps), ld\<lparr>maps := (maps ld)(m := l), paths := ps\<rparr>)))"

text \<open>The part that is left out for an object with a RUNPATH.\<close>

definition rpath_steps :: "nat \<Rightarrow> mconf \<Rightarrow> string \<Rightarrow> dl_mode \<Rightarrow> nat option \<Rightarrow> found \<Rightarrow> found lm" where
  "rpath_steps fuel C name mode loader found =
     vbind (rpath_chain fuel C name (rtld_secure mode) loader loader found False) (\<lambda>(found, did).
       case ns_head C 0 of
         None \<Rightarrow> vret found
       | Some m \<Rightarrow>
           vbind (vget (\<lambda>st. \<not> did \<and> l_type (maps (ldr st) m) \<noteq> lt_loaded)) (\<lambda>try_main.
           vbind (if fst found = -1 \<and> try_main
                  then
                    vbind (lift_ldr (cache_rpath_at (lenv C) m)) (\<lambda>ok.
                      if ok then open_rpath C name (rtld_secure mode) m (or_else loader (Some m)) (snd found) else vret found)
                  else vret found) (\<lambda>found.
             if rtld_audit mode \<and> fst found = -1 \<and> try_main
             then
               vbind (main_runpath C m) (\<lambda>(ok, sps).
                 if ok
                 then
                   vbind (open_path C name (rtld_secure mode) sps False (or_else loader (Some m)) 4) (\<lambda>(fd, r, _).
                     vret (fd, stored (snd found) r))
                 else vret found)
             else vret found)))"

definition libpath_step :: "mconf \<Rightarrow> string \<Rightarrow> bool \<Rightarrow> nat option \<Rightarrow> found \<Rightarrow> found lm" where
  "libpath_step C name secure loader found =
     vbind (vget (\<lambda>st. env_path_list (ldr st))) (\<lambda>sps.
       if fst found = -1 \<and> dirs sps \<noteq> Dirs_none
       then
         vbind (open_path C name secure sps True (or_else loader (ns_head C 0)) 2) (\<lambda>(fd, r, _).
           vret (fd, stored (snd found) r))
       else vret found)"

definition runpath_step :: "mconf \<Rightarrow> string \<Rightarrow> bool \<Rightarrow> nat option \<Rightarrow> found \<Rightarrow> found lm" where
  "runpath_step C name secure loader found =
     (case loader of
        None \<Rightarrow> vret found
      | Some l \<Rightarrow>
          if fst found \<noteq> -1 then vret found
          else
            vbind (lift_ldr (cache_runpath_at (lenv C) l)) (\<lambda>ok.
              if ok then open_runpath C name secure l loader (snd found) else vret found))"

definition dl_sysdep_open_object :: "string \<Rightarrow> int \<Rightarrow> string option res" where
  "dl_sysdep_open_object name fd = (if fd = -1 then Inr None else Inl Assert_fail)"

text \<open>\<open>sysdep_found\<close> is the name a system-dependent search gave.\<close>

definition sysdep_step :: "mconf \<Rightarrow> string \<Rightarrow> nat option \<Rightarrow> nat \<Rightarrow> found \<Rightarrow> found lm" where
  "sysdep_step C name loader nsid found =
     (if fst found \<noteq> -1 then vret found
      else
        vbind (lift_res (dl_sysdep_open_object name (fst found))) (\<lambda>realname.
          case realname of
            None \<Rightarrow> vret (fst found, None)
          | Some r \<Rightarrow>
              vbind (open_verify (ver C) r (fst found) (loader_auditing C (or_else loader (ns_head C nsid))) 8 False) (\<lambda>fd.
                if fd = -1 then vbind (vmod (vcall (Free r))) (\<lambda>_. vret (fd, Some r)) else vret (fd, Some r))))"

text \<open>A cache entry in a system directory is not for an object that wants no default libraries.\<close>

definition nodeflib_ok :: "mconf \<Rightarrow> link_map \<Rightarrow> string \<Rightarrow> bool" where
  "nodeflib_ok C l cached \<longleftrightarrow>
     \<not> (l_nodeflib l \<and> list_ex (\<lambda>d. take (length d) cached = d) (system_dirs (dst (lenv C))))"

definition cache_step :: "mconf \<Rightarrow> string \<Rightarrow> bool \<Rightarrow> nat option \<Rightarrow> nat \<Rightarrow> found \<Rightarrow> found lm" where
  "cache_step C name secure loader nsid found =
     (if fst found = -1 \<and> (\<not> secure \<or> \<not> enable_secure (dst (lenv C))) \<and> \<not> inhibit_cache C
      then
        vbind (vget (\<lambda>st. cache_lookup C (trace st) name)) (\<lambda>r.
          case r of
            None \<Rightarrow> vret found
          | Some cached \<Rightarrow>
              let l = (case or_else loader (ns_head C 0) of None \<Rightarrow> rtld_map C | Some l \<Rightarrow> l) in
              vbind (vget (\<lambda>st. nodeflib_ok C (maps (ldr st) l) cached)) (\<lambda>use_it.
                if use_it
                then
                  vbind (open_verify (ver C) cached (-1) (loader_auditing C (or_else loader (ns_head C nsid))) 8 False) (\<lambda>fd.
                    if fd \<noteq> -1 then vret (fd, Some cached)
                    else vbind (vmod (vcall (Free cached))) (\<lambda>_. vret (fd, snd found)))
                else vbind (vmod (vcall (Free cached))) (\<lambda>_. vret found)))
      else vret found)"

definition default_step :: "mconf \<Rightarrow> string \<Rightarrow> bool \<Rightarrow> nat option \<Rightarrow> nat \<Rightarrow> found \<Rightarrow> found lm" where
  "default_step C name secure loader nsid found =
     (let l = or_else loader (ns_head C nsid) in
      vbind (vget (\<lambda>st. (case l of None \<Rightarrow> True | Some a \<Rightarrow> \<not> l_nodeflib (maps (ldr st) a), search_dirs (ldr st)))) (\<lambda>(wanted, sps).
        if fst found = -1 \<and> wanted \<and> dirs sps \<noteq> Dirs_none
        then vbind (open_path C name secure sps True l 64) (\<lambda>(fd, r, _). vret (fd, stored (snd found) r))
        else vret found))"

text \<open>A name without a slash.\<close>

definition search_name :: "nat \<Rightarrow> mconf \<Rightarrow> string \<Rightarrow> dl_mode \<Rightarrow> nat option \<Rightarrow> nat \<Rightarrow> found lm" where
  "search_name fuel C name mode loader nsid =
     vbind (openat_step C name (or_else loader (ns_head C nsid))) (\<lambda>found.
     vbind (vget (\<lambda>st. case loader of None \<Rightarrow> True | Some l \<Rightarrow> dt_runpath (maps (ldr st) l) = None)) (\<lambda>use_rpath.
     vbind (if use_rpath then rpath_steps fuel C name mode loader found else vret found) (\<lambda>found.
     vbind (libpath_step C name (rtld_secure mode) loader found) (\<lambda>found.
     vbind (runpath_step C name (rtld_secure mode) loader found) (\<lambda>found.
     vbind (sysdep_step C name loader nsid found) (\<lambda>found.
     vbind (cache_step C name (rtld_secure mode) loader nsid found) (\<lambda>found.
       default_step C name (rtld_secure mode) loader nsid found)))))))"

text \<open>A name with a slash is the path itself, after expansion.\<close>

definition open_name :: "mconf \<Rightarrow> string \<Rightarrow> nat option \<Rightarrow> nat \<Rightarrow> found lm" where
  "open_name C name loader nsid =
     vbind (case loader of
              None \<Rightarrow> vret (if alloc_ok (ver C) (length name + 1) then Some name else None)
            | Some l \<Rightarrow>
                lift_ldr (\<lambda>ld.
                  rbind (expand_dynamic_string_token (dst (lenv C)) (get_origin (lenv C)) (l_is_rtld (maps ld l))
                           (malloc (lenv C)) (maps ld l) name) (\<lambda>(s, l').
                    Inr (map_option cstr s, ld\<lparr>maps := (maps ld)(l := l')\<rparr>)))) (\<lambda>realname.
       case realname of
         None \<Rightarrow> vret (-1, None)
       | Some r \<Rightarrow>
           vbind (open_verify (ver C) r (if dl_exec_fd C > 0 then dl_exec_fd C else -1)
                    (loader_auditing C (or_else loader (ns_head C nsid))) 0 True) (\<lambda>fd.
             if fd = -1 then vbind (vmod (vcall (Free r))) (\<lambda>_. vret (fd, Some r)) else vret (fd, Some r)))"

text \<open>
  What \<open>_dl_map_object\<close> does in the end: an object that is loaded already, a faked entry for a library that was not
  found when only the list of libraries is wanted, or the call of \<open>_dl_map_object_from_fd\<close> with the name, the original
  name if an auditing library changed it, the descriptor and the real name; in both cases with the loader.
\<close>

datatype map_result =
    Loaded nat
  | Faked string "nat option"
  | Map_from_fd string "string option" int "string option" "nat option"

text \<open>The label \<open>no_file\<close> with a name.\<close>

definition no_file :: "mconf \<Rightarrow> bool \<Rightarrow> string \<Rightarrow> string option \<Rightarrow> nat option \<Rightarrow> found \<Rightarrow> map_result lm" where
  "no_file C trace_mode name origname loader found =
     (if fst found \<noteq> -1 then vret (Map_from_fd name origname (fst found) (snd found) loader)
      else if trace_mode
      then
        if alloc_ok (ver C) (length name + 1) then vret (Faked name loader)
        else vsignal ENOMEM name ''cannot create shared object descriptor''
      else
        vbind (vget (\<lambda>st. (other_class st, errno st))) (\<lambda>(other, err).
          if other then vsignal 0 name ''wrong ELF class: ELFCLASS32''
          else vsignal err name ''cannot open shared object file''))"

text \<open>
  \<open>trace_mode\<close> is true when the list of libraries is wanted and prelinking is not debugged.  When an auditing library
  refuses the name, the jump to \<open>no_file\<close> passes the initialisation of \<open>found_other_class\<close> with a null name.
\<close>

definition dl_map_object :: "nat \<Rightarrow> mconf \<Rightarrow> nat option \<Rightarrow> string \<Rightarrow> bool \<Rightarrow> dl_mode \<Rightarrow> nat \<Rightarrow> map_result lm" where
  "dl_map_object fuel C loader name trace_mode mode nsid =
     (if \<not> nsid < dl_nns C then vub Assert_fail
      else
        vbind (find_loaded C name (ns_loaded C nsid)) (\<lambda>loaded.
          case loaded of
            Some l \<Rightarrow> vret (Loaded l)
          | None \<Rightarrow>
              vbind (vget (\<lambda>st. if objsearch (ver C) = [] then Some name
                                else dl_audit_objsearch (ver C) (trace st) name (loader_auditing C loader) 1)) (\<lambda>audited.
                case audited of
                  None \<Rightarrow> vub (if trace_mode then Null_deref else Uninit_read)
                | Some n \<Rightarrow>
                    vbind (vmod (other_class_update (\<lambda>_. False))) (\<lambda>_.
                    vbind (if slash \<notin> set n then search_name fuel C n mode loader nsid else open_name C n loader nsid) (\<lambda>found.
                      no_file C trace_mode n (if n \<noteq> name then Some name else None)
                        (if rtld_callmap mode then None else loader) found)))))"

end
