(* ===== verification/MapObjectSpec.thy ===== *)
theory MapObjectSpec
  imports MapObject SearchPathSpec
begin

text \<open>
  Correctness of the search for a library: the descriptor calculus for \<open>open_path\<close> and the steps of \<open>_dl_map_object\<close>;
  the order in which \<open>open_path\<close> tries names, and that it tries them all; and what happens to the descriptors of
  LD_LIBRARY_PATH_FDS.
\<close>

section \<open>Descriptors\<close>

lemma set_status_trace [simp]: "trace (set_status p cnt s st) = trace st"
  by (simp add: set_status_def)

lemma set_paths_trace [simp]: "trace (set_rpath l sps st) = trace st" "trace (set_runpath l sps st) = trace st"
  by (simp_all add: set_rpath_def set_runpath_def)

lemma fd_lift_res: "fd_spec F (lift_res r) own (\<lambda>_. own)"
  by (simp add: lift_res_def fd_spec_def vm_simps split: sum.splits)

lemma fd_vget: "fd_spec F (vget f) own (\<lambda>_. own)"
  by (simp add: vget_def fd_spec_def)

lemma fd_vread: "fd_spec F (vread f) own (\<lambda>_. own)"
  by (simp add: vread_def fd_spec_def split: sum.splits)

lemma fd_lift_ldr: "fd_spec F (lift_ldr f) own (\<lambda>_. own)"
  by (simp add: lift_ldr_def fd_spec_def split: sum.splits)

lemmas fd_keep = fd_lift_res fd_vget fd_vread fd_lift_ldr fd_stat fd_fstat fd_free

lemma fd_pointwise:
  assumes "\<And>st. \<exists>m'. m st = m' st \<and> fd_spec F m' own post"
  shows "fd_spec F m own post"
  unfolding fd_spec_def
proof (intro allI)
  fix st H
  from assms [of st] obtain m' where m: "m st = m' st" and spec: "fd_spec F m' own post" by blast
  from spec show "\<exists>cs. trace (snd (m st)) = trace st @ cs \<and>
    (case fst (m st) of Ret a \<Rightarrow> held F (trace st) (own @ H) cs = post a @ H
      | Signal e n s \<Rightarrow> held F (trace st) (own @ H) cs = H | Ub f \<Rightarrow> True)"
    unfolding m fd_spec_def by blast
qed

lemma vbind_vret: "vbind (vret a) f = f a"
  by (rule ext) (simp add: vbind_def vm_simps)

lemma fd_vbind_pair:
  assumes "fd_spec F m own mid" "\<And>a b. fd_spec F (f a b) (mid (a, b)) post"
  shows "fd_spec F (vbind m (\<lambda>(a, b). f a b)) own post"
  by (rule fd_vbind [OF assms(1)]) (auto simp: assms(2))

lemma fd_open_verify:
  assumes "kernel_ok (files E)"
  shows "fd_spec (files E) (open_verify E name (-1) loader code fn) [] own_of"
proof (rule fd_pointwise)
  fix st
  show "\<exists>m'. open_verify E name (-1) loader code fn st = m' st \<and> fd_spec (files E) m' [] own_of"
  proof (cases "audit_name E (trace st) name loader code")
    case None
    then have "open_verify E name (-1) loader code fn st = vret (-1) st" by (simp add: open_verify_def audit_name_def)
    then show ?thesis by (intro exI [of _ "vret (-1)"] conjI fd_vret) (simp_all add: own_of_def)
  next
    case (Some name')
    have "open_verify E name (-1) loader code fn st =
      (vbind (if -1 \<noteq> (-1 :: int) \<and> name' \<noteq> name then vbind (sys_close (files E) (-1)) (\<lambda>_. vret (-1)) else vret (-1)) (\<lambda>fd.
     vbind (if fd = -1 then sys_open (files E) name' else vret fd) (\<lambda>fd.
       if fd = -1 then vret (-1) else verify E fd name' fn))) st"
      unfolding open_verify_def Some [unfolded audit_name_def] option.case ..
    with fd_open_verify_from [OF assms, of "-1" name' name fn, unfolded own_of_simps(1)] show ?thesis by blast
  qed
qed

lemma fd_note_status: "fd_spec (files (ver C)) (note_status C loader p cnt buflen namelen fd buf) own (\<lambda>_. own)"
  unfolding note_status_def
  by (auto intro!: fd_vbind [where mid = "\<lambda>_. own"] fd_keep fd_vret fd_vub fd_vmod simp: Let_def)

lemma fd_suid_check: "fd_spec (files (ver C)) (suid_check C secure fd) (own_of fd) own_of"
proof (cases "fd = -1")
  case True
  then show ?thesis by (auto simp: suid_check_def intro!: fd_vret)
next
  case False
  have "fd_spec (files (ver C))
    (if r = Inr True then vret fd
     else vbind (sys_close (files (ver C)) fd) (\<lambda>_. vbind (vmod (errno_update (\<lambda>_. ENOENT))) (\<lambda>_. vret (-1)))) [fd] own_of" for r :: "nat + bool"
    using False by (auto intro!: fd_vret fd_vbind [OF fd_close] fd_vbind [OF fd_vmod] simp: own_of_simps)
  then show ?thesis using False
    by (auto simp: suid_check_def own_of_simps intro!: fd_vret fd_vbind [OF fd_fstat])
qed

lemma fd_try_cap:
  assumes "kernel_ok (files (ver C))"
  shows "fd_spec (files (ver C)) (try_cap C name loader code secure p dirlen cnt cap buf buflen any) [] (\<lambda>(fd, _). own_of fd)"
  unfolding try_cap_def
  by (auto intro!: fd_vret fd_vbind [OF fd_vread] fd_vbind [OF fd_lift_res] fd_vbind [OF fd_open_verify [OF assms]]
      fd_vbind [OF fd_note_status] fd_vbind [OF fd_suid_check] simp: Let_def own_of_simps)

lemma fd_cap_loop:
  assumes "kernel_ok (files (ver C))"
  shows "fd_spec (files (ver C)) (cap_loop C name loader code secure p dirlen cnt caps buf buflen any) [] (\<lambda>(fd, _). own_of fd)"
proof (induction caps arbitrary: cnt buf buflen any)
  case Nil
  then show ?case by (auto intro!: fd_vret simp: own_of_simps)
next
  case (Cons cap caps)
  show ?case
    unfolding cap_loop.simps
  proof (rule fd_vbind [OF fd_try_cap [OF assms]], clarify)
    fix fd buf' buflen' any'
    show "fd_spec (files (ver C)) (if fd \<noteq> -1 then vret (fd, buf', buflen', any')
       else cap_loop C name loader code secure p dirlen (cnt + 1) caps buf' buflen' any') (own_of fd) (\<lambda>(fd, _). own_of fd)"
      using Cons.IH by (auto intro!: fd_vret simp: own_of_simps)
  qed
qed

definition own_path :: "path_result \<Rightarrow> int list" where
  "own_path r = (case r of Stop fd _ \<Rightarrow> own_of fd | Exhausted _ \<Rightarrow> [])"

lemma own_path_simps [simp]: "own_path (Stop fd r) = own_of fd" "own_path (Exhausted b) = []"
  by (simp_all add: own_path_def)

lemma fd_path_loop:
  assumes "kernel_ok (files (ver C))"
  shows "fd_spec (files (ver C)) (path_loop C name loader code secure ps buf any) [] own_path"
proof (induction ps arbitrary: buf any)
  case Nil
  then show ?case by (auto intro!: fd_vret)
next
  case (Cons p ps)
  show ?case
    unfolding path_loop.simps
  proof (intro fd_vbind [OF fd_vread] fd_vbind [OF fd_lift_res] fd_vbind [OF fd_cap_loop [OF assms]], clarify)
    fix dir fd buf' buflen here_any
    show "fd_spec (files (ver C)) (if fd \<noteq> -1
          then
            if alloc_ok (ver C) buflen then vret (Stop fd (Some (cstr (take buflen buf'))))
            else vbind (sys_close (files (ver C)) fd) (\<lambda>_. vret (Stop (-1) None))
          else
            vbind (vget errno) (\<lambda>err.
              if here_any \<and> err \<noteq> ENOENT \<and> err \<noteq> EACCES then vret (Stop (-1) None)
              else path_loop C name loader code secure ps buf' (any \<or> here_any))) (own_of fd) own_path"
      using Cons.IH
      by (auto intro!: fd_vret fd_vbind [OF fd_close] fd_vbind [OF fd_vget] simp: own_of_simps)
  qed
qed

lemma fd_open_path:
  assumes "kernel_ok (files (ver C))"
  shows "fd_spec (files (ver C)) (open_path C name secure sps relro loader code) [] (\<lambda>(fd, _). own_of fd)"
  unfolding open_path_def
  by (auto intro!: fd_vret fd_vub fd_vbind [OF fd_vget] fd_vbind [OF fd_path_loop [OF assms]]
      simp: own_of_simps split: dirs_ptr.splits list.splits path_result.splits simp del: path_loop.simps)

text \<open>The steps of the search: each gives back what it was given or what it opened.\<close>

abbreviation own_found :: "found \<Rightarrow> int list" where
  "own_found found \<equiv> own_of (fst found)"

lemma fd_open_rpath:
  assumes "kernel_ok (files (ver C))"
  shows "fd_spec (files (ver C)) (open_rpath C name secure l loader r) [] own_found"
    and "fd_spec (files (ver C)) (open_runpath C name secure l loader r) [] own_found"
  unfolding open_rpath_def open_runpath_def
  by (auto intro!: fd_vbind [OF fd_vget] fd_vbind [OF fd_open_path [OF assms]] fd_vbind [OF fd_vmod] fd_vret)

lemma fd_rpath_chain:
  assumes "kernel_ok (files (ver C))"
  shows "fd_spec (files (ver C)) (rpath_chain fuel C name secure loader l (-1, r) did) [] (\<lambda>(found, _). own_found found)"
proof (induction fuel arbitrary: l r did)
  case 0
  then show ?case by (auto intro!: fd_vub)
next
  case (Suc fuel)
  show ?case
  proof (cases l)
    case None
    then show ?thesis by (auto intro!: fd_vret simp: own_of_simps)
  next
    case (Some a)
    have try_it: "fd_spec (files (ver C)) (if ok then open_rpath C name secure a loader r else vret (-1, r)) [] own_found" for ok
      using fd_open_rpath [OF assms] by (auto intro!: fd_vret simp: own_of_simps)
    have rest: "fd_spec (files (ver C)) (if ok \<and> fst found \<noteq> -1 then vret (found, did)
            else
              vbind (vget (\<lambda>st. l_loader (maps (ldr st) a))) (\<lambda>next_l.
                rpath_chain fuel C name secure loader next_l found (did \<or> ok \<and> ns_head C 0 = Some a)))
         (own_found found) (\<lambda>(found, _). own_found found)"
      if "ok \<or> found = (-1, r)" for ok :: bool and found :: found
      using that Suc by (cases found) (auto intro!: fd_vret fd_vbind [OF fd_vget] simp: own_of_simps)
    show ?thesis
      unfolding rpath_chain.simps Some option.case snd_conv
    proof (rule fd_vbind [OF fd_lift_ldr])
      fix ok
      show "fd_spec (files (ver C)) (vbind (if ok then open_rpath C name secure a loader r else vret (-1, r)) (\<lambda>found.
            if ok \<and> fst found \<noteq> -1 then vret (found, did)
            else
              vbind (vget (\<lambda>st. l_loader (maps (ldr st) a))) (\<lambda>next_l.
                rpath_chain fuel C name secure loader next_l found (did \<or> ok \<and> ns_head C 0 = Some a)))) []
           (\<lambda>(found, _). own_found found)"
      proof (cases ok)
        case True
        then show ?thesis by (intro fd_vbind [OF try_it] rest) simp
      next
        case False
        with rest [of False "(-1, r)"] show ?thesis by (simp add: own_of_simps vbind_vret)
      qed
    qed
  qed
qed

lemma fd_rpath_steps:
  assumes "kernel_ok (files (ver C))"
  shows "fd_spec (files (ver C)) (rpath_steps fuel C name mode loader (-1, r)) [] own_found"
proof -
  have main: "fd_spec (files (ver C)) (if fst found = -1 \<and> t
      then vbind (lift_ldr (cache_rpath_at (lenv C) m)) (\<lambda>ok.
             if ok then open_rpath C name (rtld_secure mode) m via (snd found) else vret found)
      else vret found) (own_found found) own_found" for found :: found and t m via
    using fd_open_rpath [OF assms] by (auto intro!: fd_vret fd_vbind [OF fd_lift_ldr] simp: own_of_simps)
  have audit: "fd_spec (files (ver C)) (if rtld_audit mode \<and> fst found = -1 \<and> t
             then
               vbind (main_runpath C m) (\<lambda>(ok, sps).
                 if ok
                 then vbind (open_path C name (rtld_secure mode) sps False via 4) (\<lambda>(fd, r, _). vret (fd, stored (snd found) r))
                 else vret found)
             else vret found) (own_found found) own_found" for found :: found and t m via
    unfolding main_runpath_def
    by (auto intro!: fd_vret fd_vbind [OF fd_lift_ldr] fd_vbind [OF fd_open_path [OF assms]] simp: own_of_simps)
  show ?thesis
    unfolding rpath_steps_def
  proof (rule fd_vbind_pair [OF fd_rpath_chain [OF assms]], unfold prod.case, goal_cases)
    case (1 found did)
    show ?case
      by (cases "ns_head C 0", simp_all only: option.case)
        (intro fd_vret fd_vbind [OF fd_vget] fd_vbind [OF main] audit | rule refl)+
  qed
qed

lemma fd_later_steps:
  assumes "kernel_ok (files (ver C))"
  shows "fd_spec (files (ver C)) (libpath_step C name secure loader found) (own_found found) own_found"
    and "fd_spec (files (ver C)) (runpath_step C name secure loader found) (own_found found) own_found"
    and "fd_spec (files (ver C)) (sysdep_step C name loader nsid found) (own_found found) own_found"
    and "fd_spec (files (ver C)) (cache_step C name secure loader nsid found) (own_found found) own_found"
    and "fd_spec (files (ver C)) (default_step C name secure loader nsid found) (own_found found) own_found"
  unfolding libpath_step_def runpath_step_def sysdep_step_def cache_step_def default_step_def Let_def dl_sysdep_open_object_def
  by (auto intro!: fd_vret fd_vbind [OF fd_vget] fd_vbind [OF fd_lift_ldr] fd_vbind [OF fd_lift_res] fd_vbind [OF fd_free]
      fd_vbind [OF fd_open_path [OF assms]] fd_vbind [OF fd_open_verify [OF assms]] fd_open_rpath [OF assms]
      simp: own_of_simps split: option.splits)

lemma fd_steps_after_openat:
  assumes "kernel_ok (files (ver C))"
  shows "fd_spec (files (ver C))
    (vbind (libpath_step C name secure loader found) (\<lambda>found.
     vbind (runpath_step C name secure loader found) (\<lambda>found.
     vbind (sysdep_step C name loader nsid found) (\<lambda>found.
     vbind (cache_step C name secure loader nsid found) (\<lambda>found.
       default_step C name secure loader nsid found))))) (own_found found) own_found"
  by (intro fd_vbind [OF fd_later_steps(1) [OF assms]] fd_vbind [OF fd_later_steps(2) [OF assms]]
      fd_vbind [OF fd_later_steps(3) [OF assms]] fd_vbind [OF fd_later_steps(4) [OF assms]] fd_later_steps(5) [OF assms])

lemma fd_openat_none: "openat_paths C = None \<Longrightarrow> fd_spec F (openat_step C name loader) [] own_found"
  by (auto simp: openat_step_def own_of_simps intro!: fd_vret)

lemma fd_search_name:
  assumes "kernel_ok (files (ver C))" "openat_paths C = None"
  shows "fd_spec (files (ver C)) (search_name fuel C name mode loader nsid) [] own_found"
proof -
  have openat: "openat_step C name l = vret (-1, None)" for l using assms(2) by (simp add: openat_step_def)
  have r: "fd_spec (files (ver C)) (if u then rpath_steps fuel C name mode loader (-1, None) else vret (-1, None)) [] own_found" for u
    using fd_rpath_steps [OF assms(1)] by (auto intro!: fd_vret simp: own_of_simps)
  show ?thesis
    unfolding search_name_def openat vbind_vret
    by (rule fd_vbind [OF fd_vget], rule fd_vbind [OF r], rule fd_steps_after_openat [OF assms(1)])
qed

lemma fd_open_name:
  assumes "kernel_ok (files (ver C))" "dl_exec_fd C \<le> 0"
  shows "fd_spec (files (ver C)) (open_name C name loader nsid) [] own_found"
proof -
  have e: "(if 0 < dl_exec_fd C then dl_exec_fd C else -1) = -1" using assms(2) by simp
  have rest: "fd_spec (files (ver C)) (case realname of
         None \<Rightarrow> vret (-1, None)
       | Some r \<Rightarrow>
           vbind (open_verify (ver C) r (-1) (loader_auditing C (or_else loader (ns_head C nsid))) 0 True) (\<lambda>fd.
             if fd = -1 then vbind (vmod (vcall (Free r))) (\<lambda>_. vret (fd, Some r)) else vret (fd, Some r))) [] own_found" for realname
    by (auto intro!: fd_vret fd_vbind [OF fd_open_verify [OF assms(1)]] fd_vbind [OF fd_free] simp: own_of_simps split: option.splits)
  show ?thesis
    unfolding open_name_def e
  proof (cases loader, simp_all only: option.case vbind_vret)
    assume "loader = None"
    then show "fd_spec (files (ver C)) (case if alloc_ok (ver C) (length name + 1) then Some name else None of
         None \<Rightarrow> vret (-1, None)
       | Some r \<Rightarrow>
           vbind (open_verify (ver C) r (-1) (loader_auditing C (or_else None (ns_head C nsid))) 0 True) (\<lambda>fd.
             if fd = -1 then vbind (vmod (vcall (Free r))) (\<lambda>_. vret (fd, Some r)) else vret (fd, Some r))) [] own_found"
      using rest by metis
  next
    fix l assume "loader = Some l"
    show "fd_spec (files (ver C)) (vbind (lift_ldr (\<lambda>ld.
                  rbind (expand_dynamic_string_token (dst (lenv C)) (get_origin (lenv C)) (l_is_rtld (maps ld l))
                           (malloc (lenv C)) (maps ld l) name) (\<lambda>(s, l').
                    Inr (map_option cstr s, ld\<lparr>maps := (maps ld)(l := l')\<rparr>)))) (\<lambda>realname.
       case realname of
         None \<Rightarrow> vret (-1, None)
       | Some r \<Rightarrow>
           vbind (open_verify (ver C) r (-1) (loader_auditing C (or_else (Some l) (ns_head C nsid))) 0 True) (\<lambda>fd.
             if fd = -1 then vbind (vmod (vcall (Free r))) (\<lambda>_. vret (fd, Some r)) else vret (fd, Some r)))) [] own_found"
      using rest unfolding \<open>loader = Some l\<close> by (rule fd_vbind [OF fd_lift_ldr])
  qed
qed

lemma fd_find_loaded: "fd_spec F (find_loaded C name ls) [] (\<lambda>_. [])"
proof (induction ls)
  case (Cons l ls)
  have "fd_spec F (add_name_to_object C l name) [] (\<lambda>_. [])"
    unfolding add_name_to_object_def by (auto intro!: fd_vbind [OF fd_vget] fd_vret fd_vsignal fd_vub fd_vmod)
  with Cons show ?case by (auto intro!: fd_vbind_pair [OF fd_vget] fd_vret fd_vbind [OF _ fd_vbind [OF fd_vmod]])
qed (auto intro!: fd_vret)

definition own_mapped :: "map_result \<Rightarrow> int list" where
  "own_mapped r = (case r of Map_from_fd _ _ fd _ _ \<Rightarrow> own_of fd | _ \<Rightarrow> [])"

lemma own_mapped_simps [simp]:
  "own_mapped (Loaded l) = []" "own_mapped (Faked n lo) = []" "own_mapped (Map_from_fd n og fd r lo) = own_of fd"
  by (simp_all add: own_mapped_def)

lemma fd_no_file: "fd_spec F (no_file C tm name orig loader found) (own_found found) own_mapped"
  unfolding no_file_def
  by (auto intro!: fd_vret fd_vsignal fd_vbind_pair [OF fd_vget] simp: own_of_simps)

lemma fd_dl_map_object:
  assumes "kernel_ok (files (ver C))" "openat_paths C = None" "dl_exec_fd C \<le> 0"
  shows "fd_spec (files (ver C)) (dl_map_object fuel C loader name tm mode nsid) [] own_mapped"
proof -
  have s: "fd_spec (files (ver C)) (if slash \<notin> set n then search_name fuel C n mode loader nsid else open_name C n loader nsid) [] own_found" for n
    using fd_search_name [OF assms(1,2)] fd_open_name [OF assms(1,3)] by simp
  have rest: "fd_spec (files (ver C)) (case audited of
                  None \<Rightarrow> vub u
                | Some n \<Rightarrow>
                    vbind (vmod (other_class_update (\<lambda>_. False))) (\<lambda>_.
                    vbind (if slash \<notin> set n then search_name fuel C n mode loader nsid else open_name C n loader nsid) (\<lambda>found.
                      no_file C tm n (orig n) lo found))) [] own_mapped" for audited u orig lo
    by (cases audited) (simp_all add: fd_vub fd_vbind [OF fd_vmod fd_vbind [OF s fd_no_file]])
  have "fd_spec (files (ver C)) (case loaded of Some l \<Rightarrow> vret (Loaded l)
      | None \<Rightarrow> vbind (vget g) (\<lambda>audited. case audited of
                  None \<Rightarrow> vub u
                | Some n \<Rightarrow>
                    vbind (vmod (other_class_update (\<lambda>_. False))) (\<lambda>_.
                    vbind (if slash \<notin> set n then search_name fuel C n mode loader nsid else open_name C n loader nsid) (\<lambda>found.
                      no_file C tm n (orig n) lo found)))) [] own_mapped" for loaded g u orig lo
    by (cases loaded) (simp_all add: fd_vret fd_vbind [OF fd_vget rest])
  note all = this
  show ?thesis
  proof (cases "nsid < dl_nns C")
    case True
    show ?thesis unfolding dl_map_object_def
      by (simp only: True not_True_eq_False if_False) (rule fd_vbind [OF fd_find_loaded all])
  next
    case False
    then show ?thesis unfolding dl_map_object_def by (simp add: fd_vub)
  qed
qed

section \<open>The descriptors of LD_LIBRARY_PATH_FDS\<close>

text \<open>With an RPATH, the descriptor found so far is not looked at.\<close>

lemma rpath_chain_ignores:
  assumes "cache_rpath_at (lenv C) a (ldr st) = Inr (True, ld')"
  shows "rpath_chain (Suc fuel) C name secure loader (Some a) (k, r) did st =
         rpath_chain (Suc fuel) C name secure loader (Some a) (-1, r) did st"
proof -
  have run: "lift_ldr (cache_rpath_at (lenv C) a) st = (Ret True, st\<lparr>ldr := ld'\<rparr>)" using assms by (simp add: lift_ldr_def)
  show ?thesis
    unfolding rpath_chain.simps option.case snd_conv vbind_run(1) [where m = "lift_ldr (cache_rpath_at (lenv C) a)", OF run] if_True
    ..
qed

lemma vbind_cong_fst: "m st = m' st \<Longrightarrow> vbind m f st = vbind m' f st"
  by (simp add: vbind_def)

lemma rpath_steps_ignores:
  assumes "cache_rpath_at (lenv C) a (ldr st) = Inr (True, ld')"
  shows "rpath_steps (Suc fuel) C name mode (Some a) (k, r) st = rpath_steps (Suc fuel) C name mode (Some a) (-1, r) st"
  unfolding rpath_steps_def by (rule vbind_cong_fst) (rule rpath_chain_ignores [OF assms])

lemma fds_after_trans:
  assumes "trace st1 = trace st @ cs" "trace st2 = trace st1 @ ds"
  shows "fds_after F st st2 H = fds_after F st1 st2 (fds_after F st st1 H)"
  using assms by (simp add: fds_after_def held_append)

lemma fd_spec_trace: "fd_spec F m own post \<Longrightarrow> \<exists>cs. trace (snd (m st)) = trace st @ cs"
  unfolding fd_spec_def by blast

lemma fd_openat_search:
  assumes "kernel_ok F"
  shows "fd_spec F (openat_search F name a (-1)) [] own_of"
proof (induction a)
  case (Cons x a)
  then show ?case
    by (cases x) (auto intro!: fd_vret fd_vub fd_vbind [OF fd_openat [OF assms]] simp: own_of_simps)
qed (auto intro!: fd_vub)

text \<open>
  The whole search after a library was found in a directory of LD_LIBRARY_PATH_FDS, for an object with an RPATH: it is
  the search as if nothing had been found.
\<close>

lemma search_name_ignores:
  assumes "openat_step C name (or_else (Some a) (ns_head C nsid)) st = (Ret (k, r), st1)"
    and "dt_runpath (maps (ldr st1) a) = None" "cache_rpath_at (lenv C) a (ldr st1) = Inr (True, ld')"
  shows "search_name (Suc fuel) C name mode (Some a) nsid st =
    vbind (rpath_steps (Suc fuel) C name mode (Some a) (-1, r)) (\<lambda>found.
     vbind (libpath_step C name (rtld_secure mode) (Some a) found) (\<lambda>found.
     vbind (runpath_step C name (rtld_secure mode) (Some a) found) (\<lambda>found.
     vbind (sysdep_step C name (Some a) nsid found) (\<lambda>found.
     vbind (cache_step C name (rtld_secure mode) (Some a) nsid found) (\<lambda>found.
       default_step C name (rtld_secure mode) (Some a) nsid found))))) st1"
proof -
  have run: "vget (\<lambda>st. case Some a of None \<Rightarrow> True | Some l \<Rightarrow> dt_runpath (maps (ldr st) l) = None) st1 = (Ret True, st1)"
    using assms(2) by (simp add: vget_def)
  show ?thesis
    unfolding search_name_def vbind_run(1) [where m = "openat_step C name (or_else (Some a) (ns_head C nsid))", OF assms(1)]
      vbind_run(1) [where m = "vget (\<lambda>st. case Some a of None \<Rightarrow> True | Some l \<Rightarrow> dt_runpath (maps (ldr st) l) = None)", OF run] if_True
    by (rule vbind_cong_fst) (rule rpath_steps_ignores [OF assms(3)])
qed

lemma open_verify_trace:
  assumes "kernel_ok (files E)" "open_verify E name fd loader code fn st = (r, st')"
  shows "\<exists>cs. trace st' = trace st @ cs"
proof (cases "audit_name E (trace st) name loader code")
  case None
  then show ?thesis using assms(2) by (auto simp: open_verify_def audit_name_def vm_simps)
next
  case (Some name')
  have "open_verify E name fd loader code fn st =
    (vbind (if fd \<noteq> -1 \<and> name' \<noteq> name then vbind (sys_close (files E) fd) (\<lambda>_. vret (-1)) else vret fd) (\<lambda>fd.
     vbind (if fd = -1 then sys_open (files E) name' else vret fd) (\<lambda>fd.
       if fd = -1 then vret (-1) else verify E fd name' fn))) st"
    unfolding open_verify_def Some [unfolded audit_name_def] option.case ..
  with fd_spec_trace [OF fd_open_verify_from [OF assms(1), of fd name' name fn], where st = st] assms(2) show ?thesis by simp
qed

lemma openat_step_fds:
  assumes "kernel_ok (files (ver C))" "openat_step C name loader st = (Ret (k, r), st')" "k \<noteq> -1"
  shows "fds_after (files (ver C)) st st' H = k # H \<and> (\<exists>cs. trace st' = trace st @ cs)"
proof -
  let ?F = "files (ver C)"
  obtain a where a: "openat_paths C = Some a" using assms(2,3) by (cases "openat_paths C") (auto simp: openat_step_def vm_simps)
  with assms(2) obtain fd st1 where s: "openat_search ?F name a (-1) st = (Ret fd, st1)"
    and rest: "(if fd > 0 then vbind (open_verify (ver C) name fd (loader_auditing C loader) 8 False) (\<lambda>fd. vret (fd, Some name))
            else vret (fd, None)) st1 = (Ret (k, r), st')"
    by (auto simp: openat_step_def vbind_Ret)
  note spec = fd_openat_search [OF assms(1), of name a]
  have fd: "fds_after ?F st st1 H = own_of fd @ H" using fd_spec_run [OF spec s, of H] by simp
  obtain cs where cs: "trace st1 = trace st @ cs" using fd_spec_trace [OF spec, where st = st] s by auto
  show ?thesis
  proof (cases "fd > 0")
    case False
    with rest have "st' = st1" "k = fd" by (auto simp: vm_simps)
    with fd cs assms(3) show ?thesis by (auto simp: own_of_simps)
  next
    case True
    with rest have ov: "open_verify (ver C) name fd (loader_auditing C loader) 8 False st1 = (Ret k, st')"
      by (auto simp: vbind_Ret vm_simps)
    have "audit_name (ver C) (trace st1) name (loader_auditing C loader) 8 \<noteq> None"
    proof
      assume none: "audit_name (ver C) (trace st1) name (loader_auditing C loader) 8 = None"
      with ov have "k = -1" unfolding open_verify_def none [unfolded audit_name_def] option.case by (simp add: vm_simps)
      with assms(3) show False ..
    qed
    with open_verify_fds [OF assms(1) _ ov, of H] have "fds_after ?F st1 st' (own_of fd @ H) = own_of k @ H" by simp
    moreover obtain ds where "trace st' = trace st1 @ ds" using open_verify_trace [OF assms(1) ov] by blast
    ultimately show ?thesis using fds_after_trans [OF cs, of st' ds ?F H] fd cs assms(3) by (simp add: own_of_simps)
  qed
qed

lemma search_name_leaks:
  assumes "kernel_ok (files (ver C))"
    and "openat_step C name (or_else (Some a) (ns_head C nsid)) st = (Ret (k, r), st1)" "k \<noteq> -1"
    and "dt_runpath (maps (ldr st1) a) = None" "cache_rpath_at (lenv C) a (ldr st1) = Inr (True, ld')"
    and "search_name (Suc fuel) C name mode (Some a) nsid st = (Ret found, st')"
  shows "fds_after (files (ver C)) st st' H = own_found found @ k # H"
proof -
  note spec = fd_vbind [OF fd_rpath_steps [OF assms(1)] fd_steps_after_openat [OF assms(1)]]
  note op = openat_step_fds [OF assms(1,2,3), of H]
  have run: "vbind (rpath_steps (Suc fuel) C name mode (Some a) (-1, r)) (\<lambda>found.
     vbind (libpath_step C name (rtld_secure mode) (Some a) found) (\<lambda>found.
     vbind (runpath_step C name (rtld_secure mode) (Some a) found) (\<lambda>found.
     vbind (sysdep_step C name (Some a) nsid found) (\<lambda>found.
     vbind (cache_step C name (rtld_secure mode) (Some a) nsid found) (\<lambda>found.
       default_step C name (rtld_secure mode) (Some a) nsid found))))) st1 = (Ret found, st')"
    using assms(6) unfolding search_name_ignores [OF assms(2,4,5)] .
  from fd_spec_run [OF spec run, of "k # H"] have 1: "fds_after (files (ver C)) st1 st' (k # H) = own_found found @ k # H" by simp
  obtain cs where cs: "trace st1 = trace st @ cs" using op by blast
  have "\<exists>ds. trace (snd (vbind (rpath_steps (Suc fuel) C name mode (Some a) (-1, r)) (\<lambda>found.
     vbind (libpath_step C name (rtld_secure mode) (Some a) found) (\<lambda>found.
     vbind (runpath_step C name (rtld_secure mode) (Some a) found) (\<lambda>found.
     vbind (sysdep_step C name (Some a) nsid found) (\<lambda>found.
     vbind (cache_step C name (rtld_secure mode) (Some a) nsid found) (\<lambda>found.
       default_step C name (rtld_secure mode) (Some a) nsid found))))) st1)) = trace st1 @ ds"
    by (rule fd_spec_trace [OF spec])
  then obtain ds where "trace st' = trace st1 @ ds" unfolding run by auto
  from fds_after_trans [OF cs this] 1 op show ?thesis by simp
qed

text \<open>The loop over the array that \<open>_dl_init_openat_paths\<close> made.\<close>

lemma openat_search_run:
  assumes "\<And>t d. fs_openat F t d name = ans d" "\<And>d k. ans d = Inr k \<Longrightarrow> k \<noteq> -1" "-1 \<notin> set fds"
  shows "fst (openat_search F name (map Some fds @ None # rest) (-1) st) =
    (case find (\<lambda>d. ans d \<in> range Inr) fds of None \<Rightarrow> Ub Uninit_read | Some d \<Rightarrow> Ret (projr (ans d)))"
  using assms(3)
proof (induction fds arbitrary: st)
  case Nil
  then show ?case by (simp add: vm_simps)
next
  case (Cons d fds)
  show ?case
  proof (cases "ans d")
    case (Inl e)
    then show ?thesis using Cons assms(1) by (auto simp: sys_openat_def vbind_def)
  next
    case (Inr k)
    then show ?thesis using Cons.prems assms(1) assms(2) [of d] by (auto simp: sys_openat_def vbind_def vm_simps)
  qed
qed

end
