(* ===== verification/OpenPathSpec.thy ===== *)
theory OpenPathSpec
  imports MapObjectSpec
begin

text \<open>
  The order in which \<open>open_path\<close> tries names.  The names of a path are its directories in order, each with the
  capability subdirectories in order, without those known not to exist.  \<open>open_path\<close> opens exactly a prefix of this list:
  up to the file it returns, to an error, or all of it.  The buffer the names are put together in is never overrun.
\<close>

section \<open>The files that were opened\<close>

fun opens :: "call list \<Rightarrow> string list" where
  "opens [] = []"
| "opens (Open n # t) = n # opens t"
| "opens (_ # t) = opens t"

lemma opens_append [simp]: "opens (t @ u) = opens t @ opens u"
  by (induction t rule: opens.induct) simp_all

text \<open>A computation that opens nothing by name, and leaves the rest of the state alone.\<close>

definition quiet :: "('a, 'z) vm \<Rightarrow> bool" where
  "quiet m \<longleftrightarrow> (\<forall>st. (\<exists>cs. trace (snd (m st)) = trace st @ cs \<and> opens cs = []) \<and> io.more (snd (m st)) = io.more st)"

lemma more_simps [simp]:
  "io.more (vcall c st) = io.more st"
  "io.more (verr r st) = io.more st"
  by (simp_all add: vcall_def verr_def split: sum.splits)

lemma quiet_vret: "quiet (vret a)" and quiet_vub: "quiet (vub f)" and quiet_vsignal: "quiet (vsignal e n s)"
  by (simp_all add: quiet_def vm_simps)

lemma quiet_vmod: "(\<And>st. trace (g st) = trace st \<and> io.more (g st) = io.more st) \<Longrightarrow> quiet (vmod g)"
  by (simp add: quiet_def vm_simps)

lemma quiet_vbind:
  assumes "quiet m" "\<And>a. quiet (f a)"
  shows "quiet (vbind m f)"
  unfolding quiet_def
proof (intro allI)
  fix st
  obtain r st' where m: "m st = (r, st')" by (cases "m st")
  obtain cs where cs: "trace st' = trace st @ cs" "opens cs = []" "io.more st' = io.more st"
    using assms(1) m unfolding quiet_def by (metis snd_conv)
  show "(\<exists>cs. trace (snd (vbind m f st)) = trace st @ cs \<and> opens cs = []) \<and> io.more (snd (vbind m f st)) = io.more st"
  proof (cases r)
    case (Ret a)
    obtain ds where ds: "trace (snd (f a st')) = trace st' @ ds" "opens ds = []" "io.more (snd (f a st')) = io.more st'"
      using assms(2) unfolding quiet_def by blast
    have "vbind m f st = f a st'" using m Ret by (simp add: vbind_run)
    then show ?thesis using cs ds by auto
  qed (use cs m in \<open>auto simp: vbind_run\<close>)
qed

lemma quiet_state: "(\<And>st0. quiet (f st0)) \<Longrightarrow> quiet (\<lambda>st. f st st)"
  unfolding quiet_def by blast

lemma quiet_pre:
  assumes "\<And>st. trace (g st) = trace st \<and> io.more (g st) = io.more st" "quiet m"
  shows "quiet (\<lambda>st. m (g st))"
  using assms unfolding quiet_def by metis

lemma quiet_free: "quiet (vmod (vcall (Free n)))"
  by (simp add: quiet_def vm_simps)

lemma quiet_sys: "quiet (sys_close F k)" "quiet (sys_pread F k n off)" "quiet (sys_stat F name)" "quiet (sys_fstat F k)"
    "quiet (sys_read F k n)"
  by (simp_all add: quiet_def sys_close_def sys_pread_def sys_stat_def sys_fstat_def sys_read_def Let_def)

lemma quiet_lose: "quiet (lose E fd name fn e msg)"
  unfolding lose_def by (auto intro!: quiet_vbind quiet_free quiet_vret quiet_sys quiet_vsignal)

lemma quiet_close_and_out: "quiet (close_and_out E fd)"
  unfolding close_and_out_def by (auto intro!: quiet_vbind quiet_sys quiet_vmod quiet_vret)

lemma quiet_read_error: "quiet (read_error E fd name fn)"
  using quiet_state [of "\<lambda>st. lose E fd name fn (errno st) ''cannot read file data''", OF quiet_lose]
  unfolding read_error_def [abs_def] .

lemma quiet_file_bytes: "quiet (file_bytes E fd b off len)"
  unfolding file_bytes_def by (auto intro!: quiet_vbind quiet_sys quiet_vub quiet_vret)

lemma quiet_note_bytes: "quiet (note_bytes E fd b ph)"
  unfolding note_bytes_def by (auto intro!: quiet_vbind quiet_file_bytes quiet_vmod quiet_vret)

lemma quiet_check_notes: "quiet (check_notes E fd name fn b phs)"
proof (induction phs)
  case (Cons ph phs)
  then show ?case
    by (auto intro!: quiet_vbind quiet_note_bytes quiet_read_error quiet_vub quiet_vret quiet_close_and_out
        split: option.splits sum.splits)
qed (simp add: quiet_vret)

lemma quiet_check_phdrs: "quiet (check_phdrs E fd name fn b)"
  unfolding check_phdrs_def Let_def
  by (auto intro!: quiet_vbind quiet_file_bytes quiet_read_error quiet_check_notes quiet_close_and_out split: option.splits)

lemma quiet_read_header: "quiet (read_header E fd b :: (byte list, 'z) vm)"
proof -
  have "(\<exists>cs. trace (snd (read_header E fd b st)) = trace st @ cs \<and> opens cs = []) \<and>
      io.more (snd (read_header E fd b st)) = io.more st" for st :: "'z io_scheme"
  proof (induction E fd b st rule: read_header.induct)
    case (1 E fd b st)
    obtain r st' where r: "sys_read (files E) fd (832 - length b) st = (Ret r, st')"
      and t: "trace st' = trace st @ [Read fd (832 - length b)]" "io.more st' = io.more st" by (auto simp: sys_read_def Let_def)
    show ?case
    proof (cases "\<exists>bs. r = Inr bs \<and> bs \<noteq> [] \<and> length (b @ bs) < 64")
      case True
      then obtain bs where bs: "r = Inr bs" "bs \<noteq> []" "length (b @ bs) < 64" by blast
      then have "read_header E fd b st = read_header E fd (b @ bs) st'"
        using r by (subst read_header.simps) simp
      then show ?thesis using 1 [OF _ _ _ bs(2)] r bs t by fastforce
    next
      case False
      then have "snd (read_header E fd b st) = st'" using r by (subst read_header.simps) (auto split: sum.splits)
      with t show ?thesis by simp
    qed
  qed
  then show ?thesis by (simp add: quiet_def)
qed

lemma quiet_verify: "quiet (verify E fd name fn)"
  unfolding verify_def
proof (intro quiet_vbind quiet_vmod quiet_read_header, goal_cases)
  case (3 _ b)
  have c: "quiet (\<lambda>st. close_and_out E fd (if other then st\<lparr>other_class := True\<rparr> else st))" for other
    by (rule quiet_pre [OF _ quiet_close_and_out]) simp
  have "quiet (\<lambda>st. if length b < 64
       then lose E fd name fn (errno st0) (if errno st0 = 0 then ''file too short'' else ''cannot read file data'') st
       else
         (case header_verdict (libc_abi_max E) (get_ehdr b) of
            Lose msg \<Rightarrow> lose E fd name fn 0 msg st
          | Close_and_out other \<Rightarrow> close_and_out E fd (if other then st\<lparr>other_class := True\<rparr> else st)
          | Accept \<Rightarrow> check_phdrs E fd name fn b st))" for st0
    by (cases "length b < 64"; cases "header_verdict (libc_abi_max E) (get_ehdr b)")
      (simp_all add: quiet_lose quiet_check_phdrs c)
  from quiet_state [OF this] show ?case .
qed simp_all

text \<open>\<open>open_verify\<close> opens the one name.\<close>

lemma open_verify_opens:
  assumes "objsearch E = []" "open_verify E name (-1) loader code fn st = (r, st')"
  shows "(\<exists>cs. trace st' = trace st @ cs \<and> opens cs = [name]) \<and> io.more st' = io.more st"
proof -
  obtain fd st1 where o: "sys_open (files E) name st = (Ret fd, st1)"
    and t: "trace st1 = trace st @ [Open name]" "io.more st1 = io.more st" by (auto simp: sys_open_def Let_def)
  have "quiet (if fd = -1 then vret (-1) else verify E fd name fn :: (int, 'a) vm)"
    by (simp add: quiet_vret quiet_verify)
  moreover have "(if fd = -1 then vret (-1) else verify E fd name fn) st1 = (r, st')"
    using assms o by (simp add: open_verify_def vbind_run vm_simps)
  ultimately obtain cs where "trace st' = trace st1 @ cs" "opens cs = []" "io.more st' = io.more st1"
    unfolding quiet_def by (metis snd_conv)
  with t show ?thesis by simp
qed

section \<open>The names of a path\<close>

definition tried :: "'z io_scheme \<Rightarrow> 'z io_scheme \<Rightarrow> string list" where
  "tried st st' = opens (drop (length (trace st)) (trace st'))"

text \<open>The subdirectories of one directory that are not known to be missing, from number \<open>cnt\<close> on.\<close>

fun cap_names :: "search_elem \<Rightarrow> string \<Rightarrow> nat \<Rightarrow> string list \<Rightarrow> string list" where
  "cap_names e name cnt [] = []"
| "cap_names e name cnt (cap # caps) =
     (if status e ! cnt = nonexisting then cap_names e name (cnt + 1) caps
      else (dirname e @ cap @ name) # cap_names e name (cnt + 1) caps)"

definition path_names :: "mconf \<Rightarrow> search_io \<Rightarrow> string \<Rightarrow> nat list \<Rightarrow> string list" where
  "path_names C st name ps =
     concat (map (\<lambda>p. case dir_at p st of None \<Rightarrow> [] | Some e \<Rightarrow> cap_names e name 0 (capstr (lenv C))) ps)"

text \<open>
  What the search relies on: the directories of the path are known, are no longer than the recorded maximum and have a
  status for each capability; a status is unknown only for a directory with a name; only the last capability
  subdirectory is empty.
\<close>

definition dir_ok :: "mconf \<Rightarrow> search_io \<Rightarrow> search_elem \<Rightarrow> bool" where
  "dir_ok C st e \<longleftrightarrow>
     length (dirname e) \<le> max_dirnamelen (paths (ldr st)) \<and> length (status e) = length (capstr (lenv C)) \<and>
     nul_free (dirname e) \<and> (unknown \<in> set (status e) \<longrightarrow> dirname e \<noteq> [])"

definition caps_ok :: "mconf \<Rightarrow> bool" where
  "caps_ok C \<longleftrightarrow>
     list_all (\<lambda>cap. length cap \<le> max_capstrlen C \<and> nul_free cap) (capstr (lenv C)) \<and> [] \<notin> set (butlast (capstr (lenv C)))"

definition loader_ok :: "mconf \<Rightarrow> nat option \<Rightarrow> search_io \<Rightarrow> bool" where
  "loader_ok C loader st \<longleftrightarrow> (case loader of None \<Rightarrow> True | Some l \<Rightarrow> ns_loaded C (l_ns (maps (ldr st) l)) \<noteq> [])"

lemma map_of_key_map: "map_of (map (\<lambda>(k, v). (k, f k v)) xs) k = map_option (f k) (map_of xs k)"
  by (induction xs) auto

lemma dir_at_set_status:
  "dir_at q (set_status p cnt s st) =
     (if q = p then map_option (\<lambda>e. e\<lparr>status := (status e)[cnt := s]\<rparr>) (dir_at p st) else dir_at q st)"
  by (simp add: dir_at_def set_status_def map_of_key_map option.map_ident)

text \<open>The state after an attempt at subdirectory \<open>cnt\<close> of directory \<open>p\<close>: only that status may differ.\<close>

definition attempt :: "nat \<Rightarrow> nat \<Rightarrow> search_io \<Rightarrow> search_io \<Rightarrow> bool" where
  "attempt p cnt st st' \<longleftrightarrow>
     max_dirnamelen (paths (ldr st')) = max_dirnamelen (paths (ldr st)) \<and> maps (ldr st') = maps (ldr st) \<and>
     (\<forall>q. q \<noteq> p \<longrightarrow> dir_at q st' = dir_at q st) \<and>
     (\<forall>e. dir_at p st = Some e \<longrightarrow> dir_at p st' = Some e \<or>
        (\<exists>s. s \<noteq> unknown \<and> dir_at p st' = Some (e\<lparr>status := (status e)[cnt := s]\<rparr>)))"

lemma more_attempt: "io.more st' = io.more st \<Longrightarrow> attempt p cnt st st'"
  by (cases st, cases st') (simp add: attempt_def dir_at_def)

lemma set_status_attempt: "s \<noteq> unknown \<Longrightarrow> attempt p cnt st (set_status p cnt s st)"
  by (auto simp: attempt_def dir_at_set_status) (simp_all add: set_status_def)
lemma attempt_more:
  assumes "attempt p cnt st st1" "io.more st2 = io.more st1"
  shows "attempt p cnt st st2"
  using assms by (cases st1, cases st2) (simp add: attempt_def dir_at_def)

lemma more_dirs: "io.more st' = io.more (st :: search_io) \<Longrightarrow> ldr st' = ldr st \<and> dir_at p st' = dir_at p st"
  by (cases st, cases st') (simp add: dir_at_def)

lemma attempt_from_more:
  assumes "io.more st1 = io.more st" "attempt p cnt st1 st2"
  shows "attempt p cnt st st2"
  using assms(2) more_dirs [OF assms(1)] unfolding attempt_def by simp

definition silent :: "search_io \<Rightarrow> search_io \<Rightarrow> bool" where
  "silent st st' \<longleftrightarrow> (\<exists>cs. trace st' = trace st @ cs \<and> opens cs = [])"

lemma silent_refl [simp]: "trace st' = trace st \<Longrightarrow> silent st st'"
  by (simp add: silent_def)

lemma silent_trans: "silent st st1 \<Longrightarrow> silent st1 st2 \<Longrightarrow> silent st st2"
  by (fastforce simp: silent_def)

lemma put_chars_fits: "off + length cs \<le> length buf \<Longrightarrow> put_chars cs off buf = Inr (take off buf @ cs @ drop (off + length cs) buf)"
  by (simp add: put_chars_def)

lemma note_status_run:
  assumes "dir_at p st = Some e" "cnt < length (status e)" "loader_ok C loader st"
    and "buflen \<le> length buf" "status e ! cnt = unknown \<Longrightarrow> namelen + 1 \<le> buflen"
  obtains buf' st' where "note_status C loader p cnt buflen namelen fd buf st = (Ret buf', st')"
    "attempt p cnt st st'" "silent st st'"
    "buf' = buf \<or> fd = -1 \<and> namelen + 1 \<le> buflen \<and> buf' = take (buflen - namelen - 1) buf @ [NUL] @ drop (buflen - namelen) buf"
proof -
  have s: "vread (status_at p cnt) st = (Ret (status e ! cnt), st)" using assms(1,2) by (simp add: vread_def status_at_def)
  note run = vbind_run(1) [where m = "vread (status_at p cnt)", OF s]
  consider (known) "status e ! cnt \<noteq> unknown" | (found) "status e ! cnt = unknown" "fd \<noteq> -1"
    | (not_found) "status e ! cnt = unknown" "fd = -1" by blast
  then show ?thesis
  proof cases
    case known
    then have "note_status C loader p cnt buflen namelen fd buf st = (Ret buf, st)"
      unfolding note_status_def run by (simp add: vm_simps)
    from that [OF this more_attempt] show ?thesis by simp
  next
    case found
    then have "note_status C loader p cnt buflen namelen fd buf st = (Ret buf, set_status p cnt existing st)"
      unfolding note_status_def run by (simp add: vm_simps)
    from that [OF this set_status_attempt] show ?thesis by simp
  next
    case not_found
    have "\<exists>rec. vread (may_record C loader) st = (Ret rec, st)"
    proof (cases loader)
      case (Some l)
      then show ?thesis using assms(3)
        by (cases "ns_loaded C (l_ns (maps (ldr st) l))") (simp_all add: vread_def may_record_def loader_ok_def)
    qed (auto simp: vread_def may_record_def)
    then obtain rec where rec: "vread (may_record C loader) st = (Ret rec, st)" by blast
    note run2 = run vbind_run(1) [where m = "vread (may_record C loader)", OF rec]
    show ?thesis
    proof (cases rec)
      case False
      then have "note_status C loader p cnt buflen namelen fd buf st = (Ret buf, st)"
        unfolding note_status_def using not_found by (simp add: run2 vm_simps)
      from that [OF this more_attempt] show ?thesis by simp
    next
      case True
      define k where "k = buflen - namelen - 1"
      define buf' where "buf' = take k buf @ [NUL] @ drop (k + 1) buf"
      have le: "namelen + 1 \<le> buflen" using assms(5) not_found by simp
      then have "k + length [NUL] \<le> length buf" using assms(4) by (simp add: k_def)
      from put_chars_fits [OF this] have pc: "put_chars [NUL] k buf = Inr buf'" by (simp add: buf'_def)
      obtain r st1 where r: "sys_stat (files (ver C)) (cstr buf') st = (Ret r, st1)" by (auto simp: sys_stat_def Let_def)
      have q: "silent st st1" "io.more st1 = io.more st"
        using quiet_sys(3) [of "files (ver C)" "cstr buf'"] r unfolding quiet_def silent_def by (metis snd_conv)+
      let ?s = "if r = Inr True then existing else nonexisting"
      have "note_status C loader p cnt buflen namelen fd buf st = (Ret buf', set_status p cnt ?s st1)"
        unfolding note_status_def using not_found True le pc [unfolded k_def]
        by (simp add: run2 lift_res_def vbind_vret vbind_run(1) [where m = "sys_stat (files (ver C)) (cstr buf')", OF r] vm_simps)
      moreover have "attempt p cnt st (set_status p cnt ?s st1)"
        by (rule attempt_from_more [OF q(2) set_status_attempt]) simp
      moreover have "silent st (set_status p cnt ?s st1)" using q(1) by (simp add: silent_def)
      moreover have "buf' = take (buflen - namelen - 1) buf @ [NUL] @ drop (buflen - namelen) buf"
        using le by (simp add: buf'_def k_def Suc_diff_Suc)
      ultimately show ?thesis using that [of buf'] not_found le by blast
    qed
  qed
qed

text \<open>One attempt: the name that is opened, and what is left.\<close>

definition tried_name :: "search_io \<Rightarrow> search_io \<Rightarrow> string \<Rightarrow> bool" where
  "tried_name st st' nm \<longleftrightarrow> (\<exists>cs. trace st' = trace st @ cs \<and> opens cs = [nm])"

lemma tried_name_silent: "tried_name st st1 nm \<Longrightarrow> silent st1 st2 \<Longrightarrow> tried_name st st2 nm"
  by (fastforce simp: tried_name_def silent_def)

lemma suid_check_run:
  assumes "suid_check C secure fd st = (r, st')"
  obtains k where "r = Ret k" "k = fd \<or> k = -1" "silent st st'" "io.more st' = io.more st"
proof -
  have q: "quiet (suid_check C secure fd)"
    unfolding suid_check_def by (auto intro!: quiet_vbind quiet_sys quiet_vmod quiet_vret)
  have "silent st st'" "io.more st' = io.more st" using q assms unfolding quiet_def silent_def by (metis snd_conv)+
  moreover have "\<exists>k. r = Ret k \<and> (k = fd \<or> k = -1)"
    using assms by (auto simp: suid_check_def sys_fstat_def sys_close_def vbind_def vm_simps Let_def split: if_splits)
  ultimately show ?thesis using that by blast
qed

lemma try_cap_skip:
  assumes "dir_at p st = Some e" "cnt < length (status e)" "status e ! cnt = nonexisting"
  shows "try_cap C name loader code secure p dirlen cnt cap buf buflen any st = (Ret (-1, buf, buflen, any), st)"
proof -
  have s: "vread (status_at p cnt) st = (Ret nonexisting, st)" using assms by (simp add: vread_def status_at_def)
  show ?thesis unfolding try_cap_def vbind_run(1) [where m = "vread (status_at p cnt)", OF s] by (simp add: vm_simps)
qed

lemma clobbered:
  assumes "b = d @ c @ n @ NUL # rest" "c \<noteq> []"
  shows "take (length d) (take (length d + length c - 1) b @ [NUL] @ drop (length d + length c) b) = d"
proof -
  have "length d \<le> length d + length c - 1" using assms(2) by (cases c) simp_all
  then show ?thesis using assms(1) by simp
qed

lemma try_cap_run:
  assumes ok: "objsearch (ver C) = []" "kernel_ok (files (ver C))" "loader_ok C loader st"
    and e: "dir_at p st = Some e" "cnt < length (status e)" "status e ! cnt \<noteq> nonexisting" "status e ! cnt = unknown \<Longrightarrow> dirname e \<noteq> []"
    and b: "take (length (dirname e)) buf = dirname e" "length (dirname e) + length cap + length name + 1 \<le> length buf"
    and n: "nul_free (dirname e)" "nul_free cap" "nul_free name"
    and run: "try_cap C name loader code secure p (length (dirname e)) cnt cap buf buflen any st = (r, st')"
  shows "tried_name st st' (dirname e @ cap @ name) \<and>
    (case r of
       Ret (fd, buf', buflen', any') \<Rightarrow>
         attempt p cnt st st' \<and> length buf' = length buf \<and>
         (fd \<noteq> -1 \<longrightarrow> cstr (take buflen' buf') = dirname e @ cap @ name) \<and> (cap \<noteq> [] \<longrightarrow> take (length (dirname e)) buf' = dirname e)
     | Signal _ _ _ \<Rightarrow> True
     | Ub f \<Rightarrow> f = Oob_read)"
proof -
  let ?d = "dirname e" and ?nm = "dirname e @ cap @ name"
  define bl where "bl = length ?d + length cap + (length name + 1)"
  define b2 where "b2 = ?d @ cap @ name @ NUL # drop bl buf"
  have len: "length b2 = length buf" using b(2) by (simp add: b2_def bl_def)
  have 1: "put_chars cap (length ?d) buf = Inr (?d @ cap @ drop (length ?d + length cap) buf)"
    using put_chars_fits [of "length ?d" cap buf] b by simp
  have 2: "put_chars (name @ [NUL]) (length ?d + length cap) (?d @ cap @ drop (length ?d + length cap) buf) = Inr b2"
    using put_chars_fits [of "length ?d + length cap" "name @ [NUL]" "?d @ cap @ drop (length ?d + length cap) buf"] b(2)
    by (simp add: b2_def bl_def add.commute add.left_commute)
  have c: "cstr b2 = ?nm" using cstr_append_nul [of ?nm "drop bl buf"] n by (simp add: b2_def)
  have ct: "cstr (take bl b2) = ?nm" using cstr_append_nul [of ?nm "[]"] n by (simp add: b2_def bl_def)
  have s: "vread (status_at p cnt) st = (Ret (status e ! cnt), st)" using e(1,2) by (simp add: vread_def status_at_def)
  obtain v st1 where v: "open_verify (ver C) ?nm (-1) (loader_auditing C loader) code False st = (v, st1)" by fastforce
  have t1: "tried_name st st1 ?nm" and m1: "io.more st1 = io.more st"
    using open_verify_opens [OF ok(1) v] by (simp_all add: tried_name_def)
  have eq: "try_cap C name loader code secure p (length ?d) cnt cap buf buflen any st =
    vbind (open_verify (ver C) ?nm (-1) (loader_auditing C loader) code False) (\<lambda>fd.
         vbind (note_status C loader p cnt bl (length name + 1) fd b2) (\<lambda>buf.
         vbind (vread (status_at p cnt)) (\<lambda>s.
         vbind (suid_check C secure fd) (\<lambda>fd.
           vret (fd, buf, bl, any \<or> s \<noteq> nonexisting))))) st"
    unfolding try_cap_def vbind_run(1) [where m = "vread (status_at p cnt)", OF s] Let_def 1 bl_def [symmetric]
    using e(3) by (simp add: lift_res_def vbind_vret 2 c del: append_assoc)
  show ?thesis
  proof (cases v)
    case (Ret fd)
    have e1: "dir_at p st1 = Some e" "loader_ok C loader st1"
      using more_dirs [OF m1, of p] e(1) ok(3) by (auto simp: loader_ok_def split: option.splits)
    have le: "bl \<le> length b2" using b(2) len by (simp add: bl_def)
    have un: "status e ! cnt = unknown \<Longrightarrow> (length name + 1) + 1 \<le> bl" using e(4) by (cases ?d) (simp_all add: bl_def)
    obtain b3 st2 where ns: "note_status C loader p cnt bl (length name + 1) fd b2 st1 = (Ret b3, st2)"
      and a2: "attempt p cnt st1 st2" "silent st1 st2"
      and b3: "b3 = b2 \<or> fd = -1 \<and> length name + 1 + 1 \<le> bl \<and>
        b3 = take (bl - (length name + 1) - 1) b2 @ [NUL] @ drop (bl - (length name + 1)) b2"
      by (rule note_status_run [OF e1(1) e(2) e1(2) le un])
    from a2(1) e1(1) obtain e2 where "dir_at p st2 = Some e2" "length (status e2) = length (status e)"
      by (auto simp: attempt_def)
    then have s2: "vread (status_at p cnt) st2 = (Ret (status e2 ! cnt), st2)" using e(2) by (simp add: vread_def status_at_def)
    obtain w st3 where w: "suid_check C secure fd st2 = (w, st3)" by fastforce
    from suid_check_run [OF w] obtain k where k: "w = Ret k" "k = fd \<or> k = -1" "silent st2 st3" "io.more st3 = io.more st2" .
    have "r = Ret (k, b3, bl, any \<or> status e2 ! cnt \<noteq> nonexisting)" "st' = st3"
      using run v Ret ns s2 w k(1) unfolding eq by (simp_all add: vbind_run(1) vm_simps)
    moreover have "attempt p cnt st st3" by (rule attempt_from_more [OF m1 attempt_more [OF a2(1) k(4)]])
    moreover have "tried_name st st3 ?nm" using t1 silent_trans [OF a2(2) k(3)] by (rule tried_name_silent)
    moreover have "length b3 = length buf" using b3 le len by auto
    moreover have "k \<noteq> -1 \<longrightarrow> cstr (take bl b3) = ?nm" using b3 k(2) ct by auto
    moreover have "cap \<noteq> [] \<longrightarrow> take (length ?d) b3 = ?d"
    proof
      assume "cap \<noteq> []"
      have idx: "bl - (length name + 1) = length ?d + length cap" by (simp add: bl_def)
      from b3 show "take (length ?d) b3 = ?d"
      proof (elim disjE conjE)
        assume "b3 = take (bl - (length name + 1) - 1) b2 @ [NUL] @ drop (bl - (length name + 1)) b2"
        with clobbered [OF b2_def \<open>cap \<noteq> []\<close>] show ?thesis unfolding idx by simp
      qed (simp add: b2_def)
    qed
    ultimately show ?thesis by simp
  next
    case (Signal x y z)
    with run v t1 show ?thesis unfolding eq by (auto simp: vbind_run(2))
  next
    case (Ub f)
    then have "f = Oob_read" using open_verify_Ub [OF v [unfolded Ub] ok(2)] by simp
    with Ub run v t1 show ?thesis unfolding eq by (auto simp: vbind_run(3))
  qed
qed

section \<open>The loops\<close>

text \<open>A search along the names \<open>L\<close> that ended at \<open>nm\<close> after trying \<open>ns\<close>.\<close>

definition hit :: "string list \<Rightarrow> string list \<Rightarrow> string \<Rightarrow> bool" where
  "hit L ns nm \<longleftrightarrow> (\<exists>k < length L. ns = take (Suc k) L \<and> nm = L ! k)"

lemma hit_head: "hit (nm # L) [nm] nm"
  by (auto simp: hit_def intro!: exI [of _ 0])

lemma hit_prepend: "hit L ns nm \<Longrightarrow> hit (A @ L) (A @ ns) nm"
  unfolding hit_def by (elim exE conjE, rule_tac x = "length A + k" in exI) auto

lemma hit_append: "hit L ns nm \<Longrightarrow> hit (L @ B) ns nm"
  unfolding hit_def by (elim exE conjE, rule_tac x = k in exI) (auto simp: nth_append)

definition others :: "nat \<Rightarrow> search_io \<Rightarrow> search_io \<Rightarrow> bool" where
  "others p st st' \<longleftrightarrow>
     max_dirnamelen (paths (ldr st')) = max_dirnamelen (paths (ldr st)) \<and> maps (ldr st') = maps (ldr st) \<and>
     (\<forall>q. q \<noteq> p \<longrightarrow> dir_at q st' = dir_at q st)"

lemma attempt_others: "attempt p cnt st st' \<Longrightarrow> others p st st'"
  by (simp add: attempt_def others_def)

lemma others_trans: "others p st st1 \<Longrightarrow> others p st1 st2 \<Longrightarrow> others p st st2"
  by (simp add: others_def)

lemma loader_ok_others: "others p st st' \<Longrightarrow> loader_ok C loader st' = loader_ok C loader st"
  by (simp add: others_def loader_ok_def split: option.splits)

lemma cap_names_later: "j < cnt \<Longrightarrow> cap_names (e\<lparr>status := (status e)[j := s]\<rparr>) name cnt caps = cap_names e name cnt caps"
  by (induction caps arbitrary: cnt) simp_all

definition caps_result :: "mconf \<Rightarrow> nat \<Rightarrow> string list \<Rightarrow> search_io \<Rightarrow> char list \<Rightarrow>
    (int \<times> char list \<times> nat \<times> bool) exit \<times> search_io \<Rightarrow> bool" where
  "caps_result C p L st buf r \<longleftrightarrow>
     (\<exists>cs. trace (snd r) = trace st @ cs \<and>
       (case fst r of
          Ret (fd, buf', buflen, any) \<Rightarrow>
            length buf' = length buf \<and> others p st (snd r) \<and>
            (if fd = -1 then opens cs = L else hit L (opens cs) (cstr (take buflen buf')))
        | Signal _ _ _ \<Rightarrow> \<exists>nm. hit L (opens cs) nm
        | Ub f \<Rightarrow> f = Oob_read \<and> (\<exists>nm. hit L (opens cs) nm)))"

lemma caps_result_later:
  assumes "caps_result C p L st1 buf1 r" "tried_name st st1 nm" "length buf1 = length buf" "others p st st1"
  shows "caps_result C p (nm # L) st buf r"
proof -
  obtain cs where cs: "trace st1 = trace st @ cs" "opens cs = [nm]" using assms(2) by (auto simp: tried_name_def)
  obtain ds where ds: "trace (snd r) = trace st1 @ ds"
    and d: "case fst r of
          Ret (fd, buf', buflen, any) \<Rightarrow>
            length buf' = length buf1 \<and> others p st1 (snd r) \<and>
            (if fd = -1 then opens ds = L else hit L (opens ds) (cstr (take buflen buf')))
        | Signal _ _ _ \<Rightarrow> \<exists>nm. hit L (opens ds) nm
        | Ub f \<Rightarrow> f = Oob_read \<and> (\<exists>nm. hit L (opens ds) nm)"
    using assms(1) by (auto simp: caps_result_def)
  have h: "hit L ns x \<Longrightarrow> hit (nm # L) (nm # ns) x" for ns x using hit_prepend [of L ns x "[nm]"] by simp
  show ?thesis
    unfolding caps_result_def
    using cs ds d assms(3) others_trans [OF assms(4)] h
    by (intro exI [of _ "cs @ ds"]) (auto split: exit.splits if_splits)
qed

lemma cap_loop_run:
  assumes ok: "objsearch (ver C) = []" "kernel_ok (files (ver C))"
    and n: "nul_free d" "nul_free name" "list_all (\<lambda>cap. nul_free cap \<and> length d + length cap + length name + 1 \<le> length buf) caps"
    and l: "[] \<notin> set (butlast caps)"
    and e: "dir_at p st = Some e" "dirname e = d" "cnt + length caps = length (status e)" "unknown \<in> set (status e) \<longrightarrow> d \<noteq> []"
    and b: "caps \<noteq> [] \<longrightarrow> take (length d) buf = d" "loader_ok C loader st"
  shows "caps_result C p (cap_names e name cnt caps) st buf
    (cap_loop C name loader code secure p (length d) cnt caps buf buflen any st)"
  using n(3) l e b
proof (induction caps arbitrary: cnt buf buflen any st e)
  case Nil
  then show ?case by (simp add: caps_result_def vm_simps others_def)
next
  case (Cons cap caps)
  have cnt: "cnt < length (status e)" using Cons.prems(5) by simp
  show ?case
  proof (cases "status e ! cnt = nonexisting")
    case True
    have "cap_loop C name loader code secure p (length d) cnt (cap # caps) buf buflen any st =
        cap_loop C name loader code secure p (length d) (cnt + 1) caps buf buflen any st"
      using try_cap_skip [OF Cons.prems(3) cnt True] by (simp add: vbind_run(1))
    moreover have "caps_result C p (cap_names e name (cnt + 1) caps) st buf
        (cap_loop C name loader code secure p (length d) (cnt + 1) caps buf buflen any st)"
      using Cons.prems by (intro Cons.IH) (auto split: if_splits)
    ultimately show ?thesis using True by simp
  next
    case False
    obtain r st1 where r: "try_cap C name loader code secure p (length (dirname e)) cnt cap buf buflen any st = (r, st1)" by fastforce
    have un: "status e ! cnt = unknown \<Longrightarrow> dirname e \<noteq> []" using Cons.prems(4,6) cnt nth_mem by metis
    have bf: "take (length (dirname e)) buf = dirname e" "length (dirname e) + length cap + length name + 1 \<le> length buf"
      using Cons.prems by auto
    note one = try_cap_run [OF ok Cons.prems(8,3) cnt False un bf _ _ n(2) r]
    have t: "tried_name st st1 (dirname e @ cap @ name)"
      and c: "case r of
       Ret (fd, buf', buflen', any') \<Rightarrow>
         attempt p cnt st st1 \<and> length buf' = length buf \<and>
         (fd \<noteq> -1 \<longrightarrow> cstr (take buflen' buf') = dirname e @ cap @ name) \<and> (cap \<noteq> [] \<longrightarrow> take (length (dirname e)) buf' = dirname e)
     | Signal _ _ _ \<Rightarrow> True | Ub f \<Rightarrow> f = Oob_read"
      using one n(1) Cons.prems(1,4) by simp_all
    obtain cs where cs: "trace st1 = trace st @ cs" "opens cs = [dirname e @ cap @ name]" using t by (auto simp: tried_name_def)
    have names: "cap_names e name cnt (cap # caps) = (dirname e @ cap @ name) # cap_names e name (cnt + 1) caps" using False by simp
    show ?thesis
    proof (cases r)
      case (Ret x)
      obtain fd buf' buflen' any' where x: "x = (fd, buf', buflen', any')" by (cases x)
      from c Ret x have a: "attempt p cnt st st1" and lb: "length buf' = length buf"
        and nm: "fd \<noteq> -1 \<longrightarrow> cstr (take buflen' buf') = dirname e @ cap @ name"
        and pre: "cap \<noteq> [] \<longrightarrow> take (length (dirname e)) buf' = dirname e" by simp_all
      have loop: "cap_loop C name loader code secure p (length d) cnt (cap # caps) buf buflen any st =
        (if fd \<noteq> -1 then (Ret (fd, buf', buflen', any'), st1)
         else cap_loop C name loader code secure p (length d) (cnt + 1) caps buf' buflen' any' st1)"
        using r Ret x Cons.prems(4) by (simp add: vbind_run(1) vm_simps)
      show ?thesis
      proof (cases "fd = -1")
        case False
        have "caps_result C p (cap_names e name cnt (cap # caps)) st buf (Ret (fd, buf', buflen', any'), st1)"
          unfolding caps_result_def names using cs lb nm False hit_head attempt_others [OF a]
          by (intro exI [of _ cs]) simp
        then show ?thesis unfolding loop using False by simp
      next
        case True
        from a Cons.prems(3) obtain e1 where e1: "dir_at p st1 = Some e1"
          and e1e: "e1 = e \<or> (\<exists>s. s \<noteq> unknown \<and> e1 = e\<lparr>status := (status e)[cnt := s]\<rparr>)" by (auto simp: attempt_def)
        have same: "cap_names e1 name (cnt + 1) caps = cap_names e name (cnt + 1) caps" using e1e cap_names_later by auto
        have p1: "dirname e1 = d" "cnt + 1 + length caps = length (status e1)" using e1e Cons.prems(4,5) by auto
        have p2: "unknown \<in> set (status e1) \<longrightarrow> d \<noteq> []"
          using e1e Cons.prems(6) by (auto dest: set_update_subset_insert [THEN subsetD])
        have p3: "caps \<noteq> [] \<longrightarrow> take (length d) buf' = d" using pre Cons.prems(2,4) by (auto split: if_splits)
        have p4: "list_all (\<lambda>cap. nul_free cap \<and> length d + length cap + length name + 1 \<le> length buf') caps"
          using Cons.prems(1) lb by simp
        have p5: "[] \<notin> set (butlast caps)" using Cons.prems(2) by (auto split: if_splits)
        have p6: "loader_ok C loader st1" using loader_ok_others [OF attempt_others [OF a]] Cons.prems(8) by simp
        from Cons.IH [OF p4 p5 e1 p1 p2 p3 p6, of buflen' any']
        have "caps_result C p (cap_names e name (cnt + 1) caps) st1 buf'
            (cap_loop C name loader code secure p (length d) (cnt + 1) caps buf' buflen' any' st1)" unfolding same .
        from caps_result_later [OF this t lb attempt_others [OF a]] show ?thesis
          unfolding loop names using True by simp
      qed
    next
      case (Signal x y z)
      then have "cap_loop C name loader code secure p (length d) cnt (cap # caps) buf buflen any st = (Signal x y z, st1)"
        using r Cons.prems(4) by (simp add: vbind_run(2))
      then show ?thesis unfolding caps_result_def names using cs hit_head by auto
    next
      case (Ub f)
      then have "cap_loop C name loader code secure p (length d) cnt (cap # caps) buf buflen any st = (Ub f, st1)"
        using r Cons.prems(4) by (simp add: vbind_run(3))
      then show ?thesis unfolding caps_result_def names using cs hit_head c Ub by auto
    qed
  qed
qed

definition path_outcome :: "string list \<Rightarrow> search_io \<Rightarrow> path_result exit \<times> search_io \<Rightarrow> bool" where
  "path_outcome L st r \<longleftrightarrow>
     (\<exists>cs. trace (snd r) = trace st @ cs \<and>
       (case fst r of
          Ret (Stop fd nm) \<Rightarrow>
            if fd = -1
            then errno (snd r) \<noteq> ENOENT \<and> errno (snd r) \<noteq> EACCES \<and> (\<exists>k \<le> length L. opens cs = take k L)
            else (\<exists>n. nm = Some n \<and> hit L (opens cs) n)
        | Ret (Exhausted _) \<Rightarrow> opens cs = L
        | Signal _ _ _ \<Rightarrow> \<exists>nm. hit L (opens cs) nm
        | Ub f \<Rightarrow> f = Oob_read))"

lemma path_outcome_later:
  assumes "path_outcome L st1 r" "trace st1 = trace st @ cs" "opens cs = A"
  shows "path_outcome (A @ L) st r"
proof -
  obtain ds where ds: "trace (snd r) = trace st1 @ ds"
    and d: "case fst r of
          Ret (Stop fd nm) \<Rightarrow>
            if fd = -1
            then errno (snd r) \<noteq> ENOENT \<and> errno (snd r) \<noteq> EACCES \<and> (\<exists>k \<le> length L. opens ds = take k L)
            else (\<exists>n. nm = Some n \<and> hit L (opens ds) n)
        | Ret (Exhausted _) \<Rightarrow> opens ds = L
        | Signal _ _ _ \<Rightarrow> \<exists>nm. hit L (opens ds) nm
        | Ub f \<Rightarrow> f = Oob_read"
    using assms(1) by (auto simp: path_outcome_def)
  have k: "\<exists>k \<le> length (A @ L). A @ opens ds = take k (A @ L)" if "j \<le> length L" "opens ds = take j L" for j
    using that by (intro exI [of _ "length A + j"]) simp
  show ?thesis
    unfolding path_outcome_def
    using ds d assms(2,3) k hit_prepend [of L "opens ds" _ A]
    by (intro exI [of _ "cs @ ds"]) (auto split: exit.splits path_result.splits if_splits)
qed

lemma path_names_others:
  assumes "others p st st'" "p \<notin> set ps"
  shows "path_names C st' name ps = path_names C st name ps"
proof -
  have "dir_at q st' = dir_at q st" if "q \<in> set ps" for q using assms that by (auto simp: others_def)
  then show ?thesis unfolding path_names_def by (simp cong: map_cong)
qed

definition path_ok :: "mconf \<Rightarrow> search_io \<Rightarrow> nat list \<Rightarrow> bool" where
  "path_ok C st ps \<longleftrightarrow> distinct ps \<and> (\<forall>p \<in> set ps. \<exists>e. dir_at p st = Some e \<and> dir_ok C st e)"

lemma path_ok_others: "others p st st' \<Longrightarrow> path_ok C st (p # ps) \<Longrightarrow> path_ok C st' ps"
  unfolding path_ok_def others_def dir_ok_def by (metis distinct.simps(2) list.set_intros(2))

lemma path_loop_run:
  assumes ok: "objsearch (ver C) = []" "kernel_ok (files (ver C))" "\<forall>n. alloc_ok (ver C) n"
    and n: "nul_free name" "caps_ok C"
    and p: "path_ok C st ps" "loader_ok C loader st"
    and b: "length buf = max_dirnamelen (paths (ldr st)) + max_capstrlen C + length name + 1"
  shows "path_outcome (path_names C st name ps) st (path_loop C name loader code secure ps buf any st)"
  using p b
proof (induction ps arbitrary: buf any st)
  case Nil
  then show ?case by (simp add: path_outcome_def path_names_def vm_simps)
next
  case (Cons p ps)
  let ?caps = "capstr (lenv C)"
  obtain e where e: "dir_at p st = Some e" "dir_ok C st e" using Cons.prems(1) by (auto simp: path_ok_def)
  let ?d = "dirname e"
  define buf1 where "buf1 = ?d @ drop (length ?d) buf"
  have dl: "length ?d \<le> max_dirnamelen (paths (ldr st))" using e(2) by (simp add: dir_ok_def)
  then have lb: "length buf1 = length buf" using Cons.prems(3) by (simp add: buf1_def)
  have rd: "vread (\<lambda>st. case dir_at p st of None \<Rightarrow> Inl Null_deref | Some e \<Rightarrow> Inr (dirname e)) st = (Ret ?d, st)"
    using e(1) by (simp add: vread_def)
  have pc: "lift_res (put_chars ?d 0 buf) = vret buf1"
    using put_chars_fits [of 0 ?d buf] dl Cons.prems(3) by (simp add: lift_res_def buf1_def)
  have caps: "list_all (\<lambda>cap. nul_free cap \<and> length ?d + length cap + length name + 1 \<le> length buf1) ?caps"
    using n(2) dl Cons.prems(3) lb by (auto simp: caps_ok_def list_all_iff)
  have cr: "caps_result C p (cap_names e name 0 ?caps) st buf1
      (cap_loop C name loader code secure p (length ?d) 0 ?caps buf1 0 False st)"
    using e n(2) by (intro cap_loop_run [OF ok(1,2) _ n(1) caps] Cons.prems(2)) (auto simp: dir_ok_def caps_ok_def buf1_def)
  obtain r st1 where r: "cap_loop C name loader code secure p (length ?d) 0 ?caps buf1 0 False st = (r, st1)" by fastforce
  have L: "path_names C st name (p # ps) = cap_names e name 0 ?caps @ path_names C st name ps"
    using e(1) by (simp add: path_names_def)
  have loop: "path_loop C name loader code secure (p # ps) buf any st =
    vbind (cap_loop C name loader code secure p (length ?d) 0 ?caps buf1 0 False)
       (\<lambda>(fd, buf, buflen, here_any).
          if fd \<noteq> -1
          then
            if alloc_ok (ver C) buflen then vret (Stop fd (Some (cstr (take buflen buf))))
            else vbind (sys_close (files (ver C)) fd) (\<lambda>_. vret (Stop (-1) None))
          else
            vbind (vget errno) (\<lambda>err.
              if here_any \<and> err \<noteq> ENOENT \<and> err \<noteq> EACCES then vret (Stop (-1) None)
              else path_loop C name loader code secure ps buf (any \<or> here_any))) st"
    unfolding path_loop.simps vbind_run(1) [where m = "vread (\<lambda>st. case dir_at p st of None \<Rightarrow> Inl Null_deref | Some e \<Rightarrow> Inr (dirname e))", OF rd]
      pc vbind_vret ..
  obtain cs where cs: "trace st1 = trace st @ cs"
    and c: "case r of
          Ret (fd, buf', buflen, any) \<Rightarrow>
            length buf' = length buf1 \<and> others p st st1 \<and>
            (if fd = -1 then opens cs = cap_names e name 0 ?caps else hit (cap_names e name 0 ?caps) (opens cs) (cstr (take buflen buf')))
        | Signal _ _ _ \<Rightarrow> \<exists>nm. hit (cap_names e name 0 ?caps) (opens cs) nm
        | Ub f \<Rightarrow> f = Oob_read \<and> (\<exists>nm. hit (cap_names e name 0 ?caps) (opens cs) nm)"
    using cr unfolding r caps_result_def fst_conv snd_conv by blast
  show ?case
  proof (cases r)
    case (Ret x)
    obtain fd buf' buflen here where x: "x = (fd, buf', buflen, here)" by (cases x)
    have o: "others p st st1" and l': "length buf' = length buf1" using c Ret x by simp_all
    consider (got) "fd \<noteq> -1" | (hard) "fd = -1" "here" "errno st1 \<noteq> ENOENT" "errno st1 \<noteq> EACCES"
      | (go_on) "fd = -1" "\<not> (here \<and> errno st1 \<noteq> ENOENT \<and> errno st1 \<noteq> EACCES)" by blast
    then show ?thesis
    proof cases
      case got
      then have "path_loop C name loader code secure (p # ps) buf any st = (Ret (Stop fd (Some (cstr (take buflen buf')))), st1)"
        unfolding loop using r Ret x ok(3) by (simp add: vbind_run(1) vm_simps)
      then show ?thesis unfolding L path_outcome_def using cs c Ret x got hit_append by auto
    next
      case hard
      then have run: "path_loop C name loader code secure (p # ps) buf any st = (Ret (Stop (-1) None), st1)"
        unfolding loop using r Ret x by (simp add: vbind_run(1) vget_def vm_simps)
      have oc: "opens cs = cap_names e name 0 ?caps" using c Ret x hard(1) by simp
      show ?thesis unfolding L path_outcome_def run using cs oc hard
        by (intro exI [of _ cs]) (auto intro!: exI [of _ "length (cap_names e name 0 ?caps)"])
    next
      case go_on
      then have run: "path_loop C name loader code secure (p # ps) buf any st =
          path_loop C name loader code secure ps buf' (any \<or> here) st1"
        unfolding loop using r Ret x by (auto simp: vbind_run(1) vget_def)
      have oc: "opens cs = cap_names e name 0 ?caps" using c Ret x go_on(1) by simp
      have p1: "path_ok C st1 ps" "loader_ok C loader st1"
        using path_ok_others [OF o Cons.prems(1)] loader_ok_others [OF o] Cons.prems(2) by simp_all
      have p2: "length buf' = max_dirnamelen (paths (ldr st1)) + max_capstrlen C + length name + 1"
        using l' lb Cons.prems(3) o by (simp add: others_def)
      have "p \<notin> set ps" using Cons.prems(1) by (simp add: path_ok_def)
      from path_outcome_later [OF Cons.IH [OF p1 p2, of "any \<or> here"] cs oc] path_names_others [OF o this, of C name]
      show ?thesis unfolding L run by simp
    qed
  next
    case (Signal a b2 c2)
    then have run: "path_loop C name loader code secure (p # ps) buf any st = (Signal a b2 c2, st1)"
      unfolding loop using r by (simp add: vbind_run(2))
    from c Signal obtain nm where "hit (cap_names e name 0 ?caps) (opens cs) nm" by auto
    from hit_append [OF this] show ?thesis unfolding L path_outcome_def run using cs by auto
  next
    case (Ub f)
    then have run: "path_loop C name loader code secure (p # ps) buf any st = (Ub f, st1)"
      unfolding loop using r by (simp add: vbind_run(3))
    show ?thesis unfolding L path_outcome_def run using cs c Ub by auto
  qed
qed
section \<open>Properties\<close>

text \<open>C2: \<open>open_path\<close> tries names in the order of the path: the files it opens are exactly the first \<open>k\<close> of the names made
  of the directories in order and, in each, the capability subdirectories in order that are not known to be missing.  A
  descriptor it returns is that of the last name tried, and this name is the one it returns.  It gives up before the end of
  the list only after an error that is neither a missing file nor a lack of permission.  The buffer for the name is
  large enough, and nothing else is undefined but a read of \<open>open_verify\<close>.
\<close>

theorem open_path_order:
  assumes "objsearch (ver C) = []" "kernel_ok (files (ver C))" "\<forall>n. alloc_ok (ver C) n" "nul_free name" "caps_ok C"
    and "dirs sps = Dirs ps" "ps \<noteq> []" "path_ok C st ps" "loader_ok C loader st"
    and "open_path C name secure sps relro loader code st = (r, st')"
  shows "case r of
      Ret (fd, realname, sps') \<Rightarrow>
        \<exists>k \<le> length (path_names C st name ps). tried st st' = take k (path_names C st name ps) \<and>
          (if fd \<noteq> -1 then 0 < k \<and> realname = Some (path_names C st name ps ! (k - 1))
           else k = length (path_names C st name ps) \<or> errno st' \<noteq> ENOENT \<and> errno st' \<noteq> EACCES)
    | Signal e n s \<Rightarrow> \<exists>k \<le> length (path_names C st name ps). tried st st' = take k (path_names C st name ps)
    | Ub f \<Rightarrow> f = Oob_read"
proof -
  let ?L = "path_names C st name ps"
  define buf where "buf = replicate (max_dirnamelen (paths (ldr st)) + max_capstrlen C + length name + 1) NUL"
  obtain q st1 where q: "path_loop C name loader code secure ps buf False st = (q, st1)" by fastforce
  have "length buf = max_dirnamelen (paths (ldr st)) + max_capstrlen C + length name + 1" by (simp add: buf_def)
  from path_loop_run [OF assms(1-5,8,9) this, of code secure False] obtain cs where cs: "trace st1 = trace st @ cs"
    and c: "case q of
          Ret (Stop fd nm) \<Rightarrow>
            if fd = -1
            then errno st1 \<noteq> ENOENT \<and> errno st1 \<noteq> EACCES \<and> (\<exists>k \<le> length ?L. opens cs = take k ?L)
            else (\<exists>n. nm = Some n \<and> hit ?L (opens cs) n)
        | Ret (Exhausted _) \<Rightarrow> opens cs = ?L
        | Signal _ _ _ \<Rightarrow> \<exists>nm. hit ?L (opens cs) nm
        | Ub f \<Rightarrow> f = Oob_read"
    unfolding q path_outcome_def fst_conv snd_conv by blast
  obtain p ps' where ps: "ps = p # ps'" using assms(7) by (cases ps) auto
  have run: "open_path C name secure sps relro loader code st =
    vbind (path_loop C name loader code secure ps buf False) (\<lambda>r.
            vret (case r of
                    Stop fd realname \<Rightarrow> (fd, realname, sps)
                  | Exhausted any \<Rightarrow> (-1, None, if \<not> any \<and> \<not> relro then sps\<lparr>dirs := Dirs_none\<rparr> else sps))) st"
    unfolding open_path_def assms(6) ps buf_def by (simp add: vbind_def vget_def del: path_loop.simps)
  have hitD: "\<exists>k \<le> length ?L. opens cs = take k ?L \<and> 0 < k \<and> n = ?L ! (k - 1)" if "hit ?L (opens cs) n" for n
  proof -
    from that obtain k where "k < length ?L" "opens cs = take (Suc k) ?L" "n = ?L ! k" by (auto simp: hit_def)
    then show ?thesis by (intro exI [of _ "Suc k"]) simp
  qed
  have tr: "st' = st1 \<Longrightarrow> tried st st' = opens cs" using cs by (simp add: tried_def)
  show ?thesis
  proof (cases q)
    case (Ret x)
    then have r: "r = Ret (case x of Stop fd realname \<Rightarrow> (fd, realname, sps)
          | Exhausted any \<Rightarrow> (-1, None, if \<not> any \<and> \<not> relro then sps\<lparr>dirs := Dirs_none\<rparr> else sps))" "st' = st1"
      using assms(10) q unfolding run by (simp_all add: vbind_run(1) vm_simps)
    show ?thesis
    proof (cases x)
      case (Stop fd nm)
      show ?thesis
      proof (cases "fd = -1")
        case True
        with c Ret Stop obtain k where "k \<le> length ?L" "opens cs = take k ?L" "errno st1 \<noteq> ENOENT \<and> errno st1 \<noteq> EACCES" by auto
        with r Stop True tr show ?thesis by auto
      next
        case False
        with c Ret Stop obtain n where n: "nm = Some n" "hit ?L (opens cs) n" by auto
        from hitD [OF n(2)] r Stop False tr n(1) show ?thesis by auto
      qed
    next
      case (Exhausted any)
      then have "opens cs = ?L" using c Ret by simp
      with r Exhausted tr show ?thesis by (auto intro!: exI [of _ "length ?L"])
    qed
  next
    case (Signal a b d)
    then have r: "r = Signal a b d" "st' = st1" using assms(10) q unfolding run by (simp_all add: vbind_run(2))
    from c Signal obtain nm where "hit ?L (opens cs) nm" by auto
    from hitD [OF this] r tr show ?thesis by auto
  next
    case (Ub f)
    then have r: "r = Ub f" "st' = st1" using assms(10) q unfolding run by (simp_all add: vbind_run(3))
    with c Ub show ?thesis by simp
  qed
qed

text \<open>
  A loader with one directory on the RPATH of map 1 and the descriptor 9 in LD_LIBRARY_PATH_FDS, where the library is.
\<close>

definition demo_fs :: fs where
  "demo_fs = (one_file ''none'' demo_file)\<lparr>fs_openat := (\<lambda>t d n. if d = 9 then Inr 7 else Inl ENOENT)\<rparr>"

definition demo_mconf :: mconf where
  "demo_mconf =
     \<lparr>ver = demo_conf demo_fs, lenv = demo_ld_env\<lparr>capstr := [''x86/'', []]\<rparr>, max_capstrlen = 4, auditing = (\<lambda>_. False),
      ns_loaded = (\<lambda>_. [1]), dl_nns = 1, rtld_map = 5, openat_paths = Some [Some 9, None], dl_exec_fd = -1,
      inhibit_cache = True, cache_lookup = (\<lambda>_ _. None)\<rparr>"

definition rpath_map :: link_map where
  "rpath_map = demo_link_map\<lparr>l_rpath_dirs := \<lparr>dirs = Dirs [0], malloced = True\<rparr>, dt_rpath := Some ''/r''\<rparr>"

definition demo_state :: search_io where
  "demo_state =
     \<lparr>trace = [], errno = 0, other_class = False, fb = None,
      ldr = demo_loader\<lparr>
        paths := \<lparr>all_dirs = [(0, \<lparr>dirname = ''/r/'', what = ''RPATH'', where_ = None, status = [unknown, unknown]\<rparr>)], max_dirnamelen = 3\<rparr>,
        env_path_list := \<lparr>dirs = Dirs_none, malloced = False\<rparr>, search_dirs := \<lparr>dirs = Dirs_none, malloced = False\<rparr>,
        maps := (\<lambda>_. rpath_map)\<rparr>,
      onames = (\<lambda>_. \<lparr>l_libname = [''app''], dt_soname = None, l_soname_added = False, l_faked = False, l_removed = False\<rparr>)\<rparr>"

lemma demo_mconf_simps [simp]:
  "objsearch (ver demo_mconf) = []" "alloc_ok (ver demo_mconf) n" "files (ver demo_mconf) = demo_fs"
  "caps_ok demo_mconf" "ns_loaded demo_mconf ns = [1]" "capstr (lenv demo_mconf) = [''x86/'', []]" "loader_ok demo_mconf l st"
  by (simp_all add: demo_mconf_def demo_conf_def caps_ok_def loader_ok_def split: option.splits)

lemma demo_fs_ok: "kernel_ok demo_fs"
  using one_file_ok [of "''none''" demo_file] by (auto simp: demo_fs_def kernel_ok_def split: if_splits)

lemma demo_path_ok: "path_ok demo_mconf demo_state [0]"
  by (simp add: path_ok_def demo_state_def dir_at_def dir_ok_def)

lemma demo_open_path:
  "fst (open_path demo_mconf ''lib'' False \<lparr>dirs = Dirs [0], malloced = True\<rparr> False (Some 1) 4 demo_state) =
     Ret (-1, None, \<lparr>dirs = Dirs_none, malloced = True\<rparr>)"
  by code_simp

theorem open_path_order_witness:
  "\<exists>k. tried demo_state (snd (open_path demo_mconf ''lib'' False \<lparr>dirs = Dirs [0], malloced = True\<rparr> False (Some 1) 4 demo_state)) =
         take k [''/r/x86/lib'', ''/r/lib'']"
proof -
  have L: "path_names demo_mconf demo_state ''lib'' [0] = [''/r/x86/lib'', ''/r/lib'']"
    by (simp add: path_names_def demo_state_def dir_at_def)
  have hyps: "objsearch (ver demo_mconf) = []" "kernel_ok (files (ver demo_mconf))" "\<forall>n. alloc_ok (ver demo_mconf) n"
    "nul_free ''lib''" "caps_ok demo_mconf" "dirs \<lparr>dirs = Dirs [0], malloced = True\<rparr> = Dirs [0]" "[0] \<noteq> ([] :: nat list)"
    by (simp_all add: demo_fs_ok)
  have lo: "loader_ok demo_mconf (Some 1) demo_state" by simp
  from open_path_order [OF hyps demo_path_ok lo surjective_pairing, of False False 4]
  show ?thesis unfolding demo_open_path L by auto
qed

text \<open>C3: without LD_LIBRARY_PATH_FDS and a preopened executable, \<open>_dl_map_object\<close> leaks no descriptor: every descriptor it
  opens on the way is closed again, except the one it hands to \<open>_dl_map_object_from_fd\<close>, also when it raises an error.
\<close>

theorem dl_map_object_fds:
  assumes "kernel_ok (files (ver C))" "openat_paths C = None" "dl_exec_fd C \<le> 0"
    and "dl_map_object fuel C loader name trace_mode mode nsid st = (r, st')"
  shows "case r of Ret m \<Rightarrow> fds_after (files (ver C)) st st' H = own_mapped m @ H
                 | Signal e n s \<Rightarrow> fds_after (files (ver C)) st st' H = H | Ub f \<Rightarrow> True"
  using fd_spec_run [OF fd_dl_map_object [OF assms(1-3)] assms(4), of H] by (cases r) simp_all

definition plain_mconf :: mconf where
  "plain_mconf = demo_mconf\<lparr>openat_paths := None, ver := demo_conf (one_file ''/r/lib'' demo_file)\<rparr>"

definition plain_mode :: dl_mode where
  "plain_mode = \<lparr>rtld_secure = False, rtld_audit = False, rtld_callmap = False\<rparr>"

lemma plain_map_object:
  "fst (dl_map_object 2 plain_mconf (Some 1) ''lib'' False plain_mode 0 demo_state) = Ret (Map_from_fd ''lib'' None 3 (Some ''/r/lib'') (Some 1))"
  by code_simp

theorem dl_map_object_fds_witness:
  "fds_after (one_file ''/r/lib'' demo_file) demo_state (snd (dl_map_object 2 plain_mconf (Some 1) ''lib'' False plain_mode 0 demo_state)) [1] = [3, 1]"
proof -
  have hyps: "kernel_ok (files (ver plain_mconf))" "openat_paths plain_mconf = None" "dl_exec_fd plain_mconf \<le> 0"
    and F: "files (ver plain_mconf) = one_file ''/r/lib'' demo_file"
    by (simp_all add: plain_mconf_def demo_mconf_def demo_conf_def one_file_ok)
  from dl_map_object_fds [OF hyps surjective_pairing, where fuel = 2 and loader = "Some 1" and name = "''lib''" and
      trace_mode = False and mode = plain_mode and nsid = 0 and st = demo_state and H = "[1]"]
  show ?thesis unfolding plain_map_object F by (simp add: own_of_def)
qed

text \<open>C16: a library found in a directory of LD_LIBRARY_PATH_FDS is lost when the object that needs it has an RPATH: whatever
  the search along the RPATH and the later paths gives, the descriptor of the library that was found and verified is
  neither the result nor closed.
\<close>

theorem openat_fd_leaked:
  assumes "kernel_ok (files (ver C))"
    and "openat_step C name (or_else (Some a) (ns_head C nsid)) st = (Ret (k, r), st1)" "k \<noteq> -1"
    and "dt_runpath (maps (ldr st1) a) = None" "cache_rpath_at (lenv C) a (ldr st1) = Inr (True, ld')"
    and "search_name (Suc fuel) C name mode (Some a) nsid st = (Ret found, st')"
  shows "fds_after (files (ver C)) st st' H = own_of (fst found) @ k # H"
  using assms by (rule search_name_leaks)

lemma demo_search:
  "fst (openat_step demo_mconf ''lib'' (Some 1) demo_state) = Ret (7, Some ''lib'')"
  "dt_runpath (maps (ldr (snd (openat_step demo_mconf ''lib'' (Some 1) demo_state))) 1) = None"
  "dirs (l_rpath_dirs (maps (ldr (snd (openat_step demo_mconf ''lib'' (Some 1) demo_state))) 1)) = Dirs [0]"
  "fst (search_name 2 demo_mconf ''lib'' plain_mode (Some 1) 0 demo_state) = Ret (-1, None)"
  by code_simp+

theorem openat_fd_leaked_witness:
  "fds_after demo_fs demo_state (snd (search_name 2 demo_mconf ''lib'' plain_mode (Some 1) 0 demo_state)) [] = [7]"
proof -
  let ?st1 = "snd (openat_step demo_mconf ''lib'' (Some 1) demo_state)"
  have via: "or_else (Some 1) (ns_head demo_mconf 0) = Some (1 :: nat)" by (simp add: or_else_def)
  have 1: "openat_step demo_mconf ''lib'' (or_else (Some 1) (ns_head demo_mconf 0)) demo_state = (Ret (7, Some ''lib''), ?st1)"
    unfolding via using demo_search(1) by (simp add: prod_eq_iff)
  have 2: "search_name (Suc 1) demo_mconf ''lib'' plain_mode (Some 1) 0 demo_state =
      (Ret (-1, None), snd (search_name 2 demo_mconf ''lib'' plain_mode (Some 1) 0 demo_state))"
    unfolding Suc_1 using demo_search(4) by (simp add: prod_eq_iff)
  obtain ld' where 3: "cache_rpath_at (lenv demo_mconf) 1 (ldr ?st1) = Inr (True, ld')"
    using demo_search(3) by (simp add: cache_rpath_at_def cache_rpath_def)
  have "kernel_ok (files (ver demo_mconf))" by (simp add: demo_fs_ok)
  from openat_fd_leaked [OF this 1 _ demo_search(2) 3 2, of "[]"] show ?thesis by (simp add: own_of_def)
qed

text \<open>C17: the array of directories made from LD_LIBRARY_PATH_FDS has no end marker: when the library is in one of the
  directories, the loop of \<open>_dl_map_object\<close> finds the first of them, and when it is in none, the loop goes on behind the
  last directory and reads memory that was never written.
\<close>

theorem openat_search_no_sentinel:
  assumes "dl_init_openat_paths (\<lambda>_. True) (Some s) None = Some a"
    and "\<And>t d. fs_openat F t d name = ans d" "\<And>d k. ans d = Inr k \<Longrightarrow> k \<noteq> -1"
  shows "fst (openat_search F name a (-1) st) =
    (case find (\<lambda>d. ans d \<in> range Inr) (filter (\<lambda>fd. 0 < fd) (map fd_of (tokens (\<lambda>c. c = colon) s))) of
       None \<Rightarrow> Ub Uninit_read
     | Some d \<Rightarrow> Ret (projr (ans d)))"
proof -
  define fds where "fds = filter (\<lambda>fd. 0 < fd) (map fd_of (tokens (\<lambda>c. c = colon) s))"
  have "fd_memory fds = Some a" using assms(1) unfolding init_openat_run fds_def .
  then obtain rest where a: "a = map Some fds @ None # rest"
    by (cases fds) (auto simp: fd_memory_def split: if_splits)
  have "-1 \<notin> set fds" by (auto simp: fds_def)
  from openat_search_run [where F = F and name = name and ans = ans and rest = rest and st = st, OF assms(2,3) this]
  show ?thesis unfolding a fds_def [symmetric] .
qed

theorem openat_search_no_sentinel_witness:
  "fst (openat_search (one_file ''x'' demo_file) ''lib'' [Some 4, Some 5, None, None] (-1) demo_state) = Ub Uninit_read"
proof -
  have "tokens (\<lambda>c. c = colon) ''4:5'' = [''4'', ''5'']" by code_simp
  moreover have "fd_of ''4'' = 4" "fd_of ''5'' = 5" by code_simp+
  ultimately have init: "dl_init_openat_paths (\<lambda>_. True) (Some ''4:5'') None = Some [Some 4, Some 5, None, None]"
    and f: "filter (\<lambda>fd. 0 < fd) (map fd_of (tokens (\<lambda>c. c = colon) ''4:5'')) = [4, 5]"
    by (simp_all add: init_openat_run fd_memory_def numeral_2_eq_2)
  from openat_search_no_sentinel [OF init, of "one_file ''x'' demo_file" "''lib''" "\<lambda>d. Inl ENOENT" demo_state] show ?thesis
    unfolding f by (simp add: one_file_def image_iff)
qed

end
