(* ===== verification/RtldEnv.thy ===== *)
theory RtldEnv
  imports Numconv World
begin

text \<open>
  The environment variables of the loader: \<open>process_envvars\<close>, \<open>process_dl_debug\<close>, the list of auditing modules and the
  list of preloaded objects (elf/rtld.c, elf/dl-main.h), \<open>_dl_next_ld_env_entry\<close> and \<open>unsetenv\<close> (elf/dl-environ.c),
  \<open>_dl_osversion_init\<close> and the list of unsafe variables (unsecvars.h).  A pointer into the environment is the string from
  there on.  Output is left out.
\<close>

unbundle bit_operations_syntax

section \<open>State\<close>

datatype rtld_mode =
    rtld_mode_normal | rtld_mode_list | rtld_mode_verify | rtld_mode_trace
  | rtld_mode_list_tunables | rtld_mode_list_diagnostics | rtld_mode_help

text \<open>The strings of the audit list, the current one and its rest.\<close>

record audit_list =
  audit_strings :: "string list"
  current_index :: nat
  current_tail :: "string option"

text \<open>\<open>struct dl_main_state\<close>; \<open>capsicum\<close> is \<open>None\<close> until it is assigned.\<close>

record dl_main_state =
  main_audit_list :: audit_list
  exec_fd :: "string option"
  library_path_fds :: "string option"
  library_path :: "string option"
  library_path_source :: "string option"
  preloadlist :: "string option"
  preloadarg :: "string option"
  glibc_hwcaps_prepend :: "string option"
  glibc_hwcaps_mask :: "string option"
  mode :: rtld_mode
  any_debug :: bool
  version_info :: bool
  capsicum :: "bool option"

text \<open>The read-only globals of the loader that the variables set.\<close>

record rtld_ro =
  dl_verbose :: bool
  dl_debug_mask :: "32 word"
  dl_profile :: "string option"
  dl_lazy :: int
  dl_bind_not :: bool
  dl_origin_path :: "string option"
  dl_dynamic_weak :: bool
  dl_use_load_bias :: int
  dl_profile_output :: string
  dl_trace_prelink :: "string option"
  ro_osversion :: "32 word"
  dl_debug_fd :: int

record rtld_state =
  main_state :: dl_main_state
  ro :: rtld_ro
  environ :: "string list"

text \<open>A step of the loader: it goes on, ends the process with a status, or runs into undefined behaviour.\<close>

datatype 'a run = Done 'a | Exit nat | Undef fault

definition run_bind :: "'a run \<Rightarrow> ('a \<Rightarrow> 'b run) \<Rightarrow> 'b run" where
  "run_bind m f = (case m of Done a \<Rightarrow> f a | Exit n \<Rightarrow> Exit n | Undef e \<Rightarrow> Undef e)"

lemma run_bind_simps [simp]:
  "run_bind (Done a) f = f a" "run_bind (Exit n) f = Exit n" "run_bind (Undef e) f = Undef e"
  by (simp_all add: run_bind_def)

lemma run_bind_Done_iff: "run_bind m f = Done b \<longleftrightarrow> (\<exists>a. m = Done a \<and> f a = Done b)"
  by (cases m) auto

section \<open>Lists of auditing modules\<close>

definition SECURE_NAME_LIMIT :: nat where
  "SECURE_NAME_LIMIT = 255"

definition SECURE_PATH_LIMIT :: nat where
  "SECURE_PATH_LIMIT = 4096"

definition dso_name_valid_for_suid :: "bool \<Rightarrow> string \<Rightarrow> bool" where
  "dso_name_valid_for_suid secure p =
     (if secure \<and> (SECURE_NAME_LIMIT \<le> length p \<or> slash \<in> set p) then False else p \<noteq> [])"

definition audit_list_init :: audit_list where
  "audit_list_init = \<lparr>audit_strings = [], current_index = 0, current_tail = None\<rparr>"

definition audit_list_add_string :: "string \<Rightarrow> audit_list \<Rightarrow> audit_list res" where
  "audit_list_add_string s l =
     (if s = [] then Inr l
      else if length (audit_strings l) = 16 then Inl Fatal
      else
        let l = l\<lparr>audit_strings := audit_strings l @ [s]\<rparr> in
        Inr (if length (audit_strings l) = 1 then l\<lparr>current_tail := Some s\<rparr> else l))"

text \<open>\<open>tag_string\<close> gives the string a dynamic tag of the main program points to.\<close>

definition audit_list_add_dynamic_tag :: "(nat \<Rightarrow> string option) \<Rightarrow> nat \<Rightarrow> audit_list \<Rightarrow> audit_list res" where
  "audit_list_add_dynamic_tag tag_string tag l =
     (case tag_string tag of None \<Rightarrow> Inr l | Some s \<Rightarrow> audit_list_add_string s l)"

text \<open>The copy of a field into a buffer of \<open>limit\<close> characters: the empty name if it does not fit.\<close>

definition field_name :: "nat \<Rightarrow> string \<Rightarrow> string" where
  "field_name limit f = (if 0 < length f \<and> length f < limit then f else [])"

text \<open>The inner loop: to the next string that is not used up.  \<open>strings\<close> are those behind the current one.\<close>

fun next_string :: "string \<Rightarrow> nat \<Rightarrow> string list \<Rightarrow> (string \<times> nat \<times> string list) option" where
  "next_string tail i strings =
     (if tail \<noteq> [] then Some (tail, i, strings)
      else (case strings of [] \<Rightarrow> None | s # ss \<Rightarrow> next_string s (i + 1) ss))"

declare next_string.simps [simp del]

lemma next_string_size:
  "next_string tail i strings = Some (t, j, ss) \<Longrightarrow>
     t \<noteq> [] \<and> length t + size_list length ss \<le> length tail + size_list length strings"
proof (induction tail i strings rule: next_string.induct)
  case (1 tail i strings)
  show ?case
  proof (cases tail)
    case (Cons c cs)
    then show ?thesis using 1(2) by (subst (asm) next_string.simps) auto
  next
    case Nil
    obtain s ss' where strings: "strings = s # ss'" using 1(2) Nil by (subst (asm) next_string.simps) (simp split: list.splits)
    then have "next_string s (i + 1) ss' = Some (t, j, ss)" using 1(2) Nil by (subst (asm) next_string.simps) simp
    with 1(1) [of s ss'] Nil strings show ?thesis by simp
  qed
qed

function audit_next :: "bool \<Rightarrow> string \<Rightarrow> nat \<Rightarrow> string list \<Rightarrow> (string \<times> string \<times> nat \<times> string list) option" where
  "audit_next secure tail i strings =
     (case next_string tail i strings of
        None \<Rightarrow> None
      | Some (tail, i, strings) \<Rightarrow>
          let len = strcspn tail '':''; fname = field_name SECURE_NAME_LIMIT (take len tail);
              tail = drop (len + 1) tail in
          if dso_name_valid_for_suid secure fname then Some (fname, tail, i, strings)
          else audit_next secure tail i strings)"
  by pat_completeness auto
termination
proof (relation "measure (\<lambda>(_, tail, _, strings). length tail + size_list length strings)", goal_cases)
  case (2 secure tail i strings x t y j ss len fname tail')
  with next_string_size [of tail i strings t j ss] show ?case by (cases t) auto
qed simp

declare audit_next.simps [simp del]

definition audit_list_next :: "bool \<Rightarrow> audit_list \<Rightarrow> string option \<times> audit_list" where
  "audit_list_next secure l =
     (case current_tail l of
        None \<Rightarrow> (None, l)
      | Some tail \<Rightarrow>
          (case audit_next secure tail (current_index l) (drop (current_index l + 1) (audit_strings l)) of
             None \<Rightarrow> (None, l\<lparr>current_tail := None, current_index := length (audit_strings l)\<rparr>)
           | Some (fname, tail, i, _) \<Rightarrow> (Some fname, l\<lparr>current_tail := Some tail, current_index := i\<rparr>)))"

text \<open>The loop of \<open>audit_list_count\<close>; \<open>audit_list_total\<close> below shows that the fuel is enough.\<close>

primrec audit_count_loop :: "nat \<Rightarrow> bool \<Rightarrow> audit_list \<Rightarrow> nat \<Rightarrow> nat res" where
  "audit_count_loop 0 secure l n = Inl Out_of_fuel"
| "audit_count_loop (Suc fuel) secure l n =
     (case audit_list_next secure l of
        (None, _) \<Rightarrow> Inr n
      | (Some _, l) \<Rightarrow> audit_count_loop fuel secure l (n + 1))"

definition audit_fuel :: "audit_list \<Rightarrow> nat" where
  "audit_fuel l = Suc (size_list length (audit_strings l))"

definition audit_list_count :: "bool \<Rightarrow> audit_list \<Rightarrow> (nat \<times> audit_list) res" where
  "audit_list_count secure l =
     (if current_index l \<noteq> 0 then Inl Assert_fail
      else rbind (audit_count_loop (audit_fuel l) secure l 0) (\<lambda>n. Inr (n, l)))"

text \<open>The names that \<open>load_audit_modules\<close> hands to \<open>load_audit_module\<close>, in order.\<close>

primrec load_audit_names :: "nat \<Rightarrow> bool \<Rightarrow> audit_list \<Rightarrow> string list res" where
  "load_audit_names 0 secure l = Inl Out_of_fuel"
| "load_audit_names (Suc fuel) secure l =
     (case audit_list_next secure l of
        (None, _) \<Rightarrow> Inr []
      | (Some name, l) \<Rightarrow> rbind (load_audit_names fuel secure l) (\<lambda>names. Inr (name # names)))"

section \<open>Preloaded objects\<close>

text \<open>The names that \<open>handle_preload_list\<close> hands to \<open>do_preload\<close>, in order.\<close>

function preload_names :: "bool \<Rightarrow> string \<Rightarrow> string list" where
  "preload_names secure p =
     (if p = [] then []
      else
        let len = strcspn p '' :''; fname = field_name SECURE_PATH_LIMIT (take len p) in
        (if dso_name_valid_for_suid secure fname then [fname] else []) @ preload_names secure (drop (len + 1) p))"
  by pat_completeness auto
termination
  by (relation "measure (\<lambda>(_, p). length p)") auto

declare preload_names.simps [simp del]

definition handle_preload_list :: "(string \<Rightarrow> nat) \<Rightarrow> bool \<Rightarrow> string \<Rightarrow> nat" where
  "handle_preload_list do_preload secure names = sum_list (map do_preload (preload_names secure names))"

section \<open>Debugging options\<close>

definition DL_DEBUG :: "nat \<Rightarrow> 32 word" where
  "DL_DEBUG i = push_bit i 1"

definition DL_DEBUG_UNUSED :: "32 word" where "DL_DEBUG_UNUSED = DL_DEBUG 8"
definition DL_DEBUG_HELP :: "32 word" where "DL_DEBUG_HELP = DL_DEBUG 10"
definition DL_DEBUG_PRELINK :: "32 word" where "DL_DEBUG_PRELINK = DL_DEBUG 11"

text \<open>The names with the masks: LIBS 0, IMPCALLS 1, BINDINGS 2, SYMBOLS 3, VERSIONS 4, RELOC 5, FILES 6, STATISTICS 7,
  UNUSED 8, SCOPES 9, HELP 10, RUNCAP 12.\<close>

definition debopts :: "(string \<times> 32 word) list" where
  "debopts =
     [(''libs'', DL_DEBUG 0 OR DL_DEBUG 1),
      (''reloc'', DL_DEBUG 5 OR DL_DEBUG 1),
      (''files'', DL_DEBUG 6 OR DL_DEBUG 1),
      (''runcap'', DL_DEBUG 12 OR DL_DEBUG 1),
      (''symbols'', DL_DEBUG 3 OR DL_DEBUG 1),
      (''bindings'', DL_DEBUG 2 OR DL_DEBUG 1),
      (''versions'', DL_DEBUG 4 OR DL_DEBUG 1),
      (''scopes'', DL_DEBUG 9),
      (''all'', DL_DEBUG 0 OR DL_DEBUG 5 OR DL_DEBUG 6 OR DL_DEBUG 3 OR DL_DEBUG 2 OR DL_DEBUG 4 OR DL_DEBUG 12
         OR DL_DEBUG 1 OR DL_DEBUG 9),
      (''statistics'', DL_DEBUG 7),
      (''unused'', DL_DEBUG_UNUSED),
      (''help'', DL_DEBUG_HELP)]"

definition debug_sep :: "char \<Rightarrow> bool" where
  "debug_sep c \<longleftrightarrow> c = CHR '' '' \<or> c = CHR '','' \<or> c = colon"

text \<open>The loop over the options: the mask, and whether any option was known.\<close>

function debug_loop :: "string \<Rightarrow> 32 word \<Rightarrow> bool \<Rightarrow> 32 word \<times> bool" where
  "debug_loop [] m any = (m, any)"
| "debug_loop (c # cs) m any =
     (if \<not> debug_sep c then
        let len = 1 + length (takeWhile (\<lambda>c. \<not> debug_sep c) cs) in
        (case find (\<lambda>(n, _). length n = len \<and> n = take len (c # cs)) debopts of
           Some (_, opt) \<Rightarrow> debug_loop (drop len (c # cs)) (m OR opt) True
         | None \<Rightarrow> debug_loop (drop len (c # cs)) m any)
      else debug_loop cs m any)"
  by pat_completeness auto
termination
  by (relation "measure (\<lambda>(s, _, _). length s)") auto

definition process_dl_debug :: "string \<Rightarrow> rtld_state \<Rightarrow> rtld_state run" where
  "process_dl_debug dl_debug st =
     (case debug_loop dl_debug (dl_debug_mask (ro st)) (any_debug (main_state st)) of (m, any) \<Rightarrow>
        let r = (ro st)\<lparr>dl_debug_mask := m\<rparr>;
            r = (if m AND DL_DEBUG_UNUSED \<noteq> 0 then r\<lparr>dl_lazy := 0\<rparr> else r) in
        if m AND DL_DEBUG_HELP \<noteq> 0 then Exit 0
        else Done (st\<lparr>ro := r, main_state := (main_state st)\<lparr>any_debug := any\<rparr>\<rparr>))"

section \<open>The kernel version\<close>

text \<open>The numbers of LD_ASSUME_KERNEL; \<open>i\<close> have been read.\<close>

function osversion_loop :: "nat \<Rightarrow> string \<Rightarrow> 64 word \<Rightarrow> 64 word" where
  "osversion_loop i p osversion =
     (if \<not> i < 3 then osversion
      else
        (case dl_strtoul p of (j, q) \<Rightarrow>
           if 255 \<le> j \<or> p = q \<or> (i < 2 \<and> q \<noteq> [] \<and> cget q 0 \<noteq> CHR ''.'') then 0
           else
             let osversion = osversion OR push_bit (16 - 8 * i) j in
             if q = [] then osversion else osversion_loop (i + 1) (tl q) osversion))"
  by pat_completeness auto
termination
  by (relation "measure (\<lambda>(i, _, _). 3 - i)") auto

definition dl_osversion_init :: "string \<Rightarrow> rtld_ro \<Rightarrow> rtld_ro" where
  "dl_osversion_init assume_kernel r =
     (let v = osversion_loop 0 assume_kernel 0 in if v \<noteq> 0 then r\<lparr>ro_osversion := ucast v\<rparr> else r)"

section \<open>The environment\<close>

text \<open>The next variable that begins with \<open>LD_\<close>, behind these letters, and the variables after it.\<close>

fun dl_next_ld_env_entry :: "string list \<Rightarrow> (string \<times> string list) option" where
  "dl_next_ld_env_entry [] = None"
| "dl_next_ld_env_entry (e # es) =
     (if cget e 0 = CHR ''L'' \<and> cget e 1 = CHR ''D'' \<and> cget e 2 = CHR ''_'' then Some (drop 3 e, es)
      else dl_next_ld_env_entry es)"

lemma dl_next_ld_env_entry_length: "dl_next_ld_env_entry es = Some (l, rest) \<Longrightarrow> length rest < length es"
  by (induction es) (auto split: if_splits)

text \<open>Is the line an assignment to \<open>name\<close>.\<close>

fun names_var :: "string \<Rightarrow> string \<Rightarrow> bool" where
  "names_var [] ep = (cget ep 0 = CHR ''='')"
| "names_var (c # cs) [] = False"
| "names_var (c # cs) (e # es) = (c = e \<and> names_var cs es)"

fun unsetenv :: "string \<Rightarrow> string list \<Rightarrow> string list" where
  "unsetenv name [] = []"
| "unsetenv name (ep # eps) = (if names_var name ep then unsetenv name eps else ep # unsetenv name eps)"

definition unsecure_envvars :: "string list" where
  "unsecure_envvars =
     [''GCONV_PATH'', ''GETCONF_DIR'', ''HOSTALIASES'', ''LD_AUDIT'', ''LD_DEBUG'', ''LD_DEBUG_OUTPUT'', ''LD_DYNAMIC_WEAK'',
      ''LD_HWCAP_MASK'', ''LD_LIBRARY_PATH'', ''LD_ORIGIN_PATH'', ''LD_PRELOAD'', ''LD_PROFILE'', ''LD_SHOW_AUXV'',
      ''LD_USE_LOAD_BIAS'', ''LOCALDOMAIN'', ''LOCPATH'', ''MALLOC_TRACE'', ''NIS_PATH'', ''NLSPATH'', ''RESOLV_HOST_CONF'',
      ''RES_OPTIONS'', ''TMPDIR'', ''TZDIR'']"

text \<open>What \<open>process_envvars\<close> gets from the kernel: \<open>__libc_enable_secure\<close>, whether \<open>/etc/suid-debug\<close> is
  there, the process number, and the answer to the open of the debug file.\<close>

record env_kernel =
  enable_secure :: bool
  suid_debug :: bool
  getpid :: nat
  open_debug :: "string \<Rightarrow> int"

definition upd_main :: "(dl_main_state \<Rightarrow> dl_main_state) \<Rightarrow> rtld_state \<Rightarrow> rtld_state" where
  "upd_main f st = st\<lparr>main_state := f (main_state st)\<rparr>"

definition upd_ro :: "(rtld_ro \<Rightarrow> rtld_ro) \<Rightarrow> rtld_state \<Rightarrow> rtld_state" where
  "upd_ro f st = st\<lparr>ro := f (ro st)\<rparr>"

definition env_starts :: "string \<Rightarrow> string \<Rightarrow> bool" where
  "env_starts envline s \<longleftrightarrow> take (length s) envline = s"

definition trace_loaded_objects :: "string \<Rightarrow> rtld_state \<Rightarrow> rtld_state" where
  "trace_loaded_objects envline st =
     (if env_starts envline ''TRACE_LOADED_OBJECTS'' then upd_main (\<lambda>s. s\<lparr>mode := rtld_mode_trace\<rparr>) st else st)"

text \<open>The \<open>switch\<close> on the length of the name.  The state goes with the local \<open>debug_output\<close>.\<close>

definition env_switch :: "bool \<Rightarrow> nat \<Rightarrow> string \<Rightarrow> rtld_state \<times> string option \<Rightarrow> (rtld_state \<times> string option) run" where
  "env_switch secure len e so =
     (case so of (st, debug_output) \<Rightarrow>
      let keep = (\<lambda>st. Done (st, debug_output)) in
      if len = 4 then
        keep (if env_starts e ''WARN'' then upd_ro (\<lambda>r. r\<lparr>dl_verbose := cget e 5 \<noteq> NUL\<rparr>) st else st)
      else if len = 5 then
        (if env_starts e ''DEBUG'' then run_bind (process_dl_debug (drop 6 e) st) keep
         else if env_starts e ''AUDIT'' then
           (case audit_list_add_string (drop 6 e) (main_audit_list (main_state st)) of
              Inl _ \<Rightarrow> Exit 127
            | Inr l \<Rightarrow> keep (upd_main (\<lambda>s. s\<lparr>main_audit_list := l\<rparr>) st))
         else keep st)
      else if len = 7 then
        keep
          (if env_starts e ''VERBOSE'' then upd_main (\<lambda>s. s\<lparr>version_info := cget e 8 \<noteq> NUL\<rparr>) st
           else if env_starts e ''PRELOAD'' then upd_main (\<lambda>s. s\<lparr>preloadlist := Some (drop 8 e)\<rparr>) st
           else if env_starts e ''PROFILE'' \<and> cget e 8 \<noteq> NUL then upd_ro (\<lambda>r. r\<lparr>dl_profile := Some (drop 8 e)\<rparr>) st
           else st)
      else if len = 8 then
        keep
          (if env_starts e ''BIND_NOW'' then upd_ro (\<lambda>r. r\<lparr>dl_lazy := (if cget e 9 = NUL then 1 else 0)\<rparr>) st
           else if env_starts e ''BIND_NOT'' then upd_ro (\<lambda>r. r\<lparr>dl_bind_not := cget e 9 \<noteq> NUL\<rparr>) st
           else st)
      else if len = 11 then
        keep
          (if \<not> secure \<and> env_starts e ''ORIGIN_PATH'' then upd_ro (\<lambda>r. r\<lparr>dl_origin_path := Some (drop 12 e)\<rparr>) st
           else st)
      else if len = 12 then
        (if \<not> secure \<and> env_starts e ''LIBRARY_PATH'' then
           keep (upd_main (\<lambda>s. s\<lparr>library_path := Some (drop 13 e), library_path_source := Some ''LD_LIBRARY_PATH''\<rparr>) st)
         else if env_starts e ''DEBUG_OUTPUT'' then Done (st, Some (drop 13 e))
         else if \<not> secure \<and> env_starts e ''DYNAMIC_WEAK'' then keep (upd_ro (\<lambda>r. r\<lparr>dl_dynamic_weak := True\<rparr>) st)
         else keep st)
      else if len = 13 then
        keep
          (if env_starts e ''ASSUME_KERNEL'' then upd_ro (dl_osversion_init (drop 14 e)) st
           else if \<not> secure \<and> env_starts e ''USE_LOAD_BIAS'' then
             upd_ro (\<lambda>r. r\<lparr>dl_use_load_bias := (if cget e 14 = CHR ''1'' then - 1 else 0)\<rparr>) st
           else st)
      else if len = 14 then
        keep
          (if \<not> secure \<and> env_starts e ''PROFILE_OUTPUT'' \<and> cget e 15 \<noteq> NUL
           then upd_ro (\<lambda>r. r\<lparr>dl_profile_output := drop 15 e\<rparr>) st
           else st)
      else if len = 16 then
        keep
          (if env_starts e ''TRACE_PRELINKING'' then
             upd_ro (\<lambda>r. r\<lparr>dl_verbose := True, dl_debug_mask := dl_debug_mask r OR DL_DEBUG_PRELINK,
                 dl_trace_prelink := Some (drop 17 e)\<rparr>)
               (upd_main (\<lambda>s. s\<lparr>mode := rtld_mode_trace\<rparr>) st)
           else if env_starts e ''LIBRARY_PATH_FDS'' then
             upd_main (\<lambda>s. s\<lparr>capsicum := Some True, library_path_fds := Some (drop 17 e),
                 library_path_source := Some ''LD_LIBRARY_PATH_FDS''\<rparr>) st
           else trace_loaded_objects e st)
      else if len = 20 then keep (trace_loaded_objects e st)
      else keep st)"

definition process_envline :: "bool \<Rightarrow> string \<Rightarrow> rtld_state \<times> string option \<Rightarrow> (rtld_state \<times> string option) run" where
  "process_envline secure e so =
     (let len = length (takeWhile (\<lambda>c. c \<noteq> CHR ''='') e) in
      if cget e len \<noteq> CHR ''='' then Done so else env_switch secure len e so)"

function process_env_loop ::
    "bool \<Rightarrow> string list \<Rightarrow> rtld_state \<times> string option \<Rightarrow> (rtld_state \<times> string option) run" where
  "process_env_loop secure env so =
     (case dl_next_ld_env_entry env of
        None \<Rightarrow> Done so
      | Some (e, rest) \<Rightarrow> run_bind (process_envline secure e so) (process_env_loop secure rest))"
  by pat_completeness auto
termination
  by (relation "measure (\<lambda>(_, env, _). length env)") (auto dest: dl_next_ld_env_entry_length)

declare process_env_loop.simps [simp del]

text \<open>The name of the debug file, written downwards from the end of a buffer of \<open>name_len + 12\<close> characters.\<close>

definition debug_file_name :: "nat \<Rightarrow> string \<Rightarrow> string res" where
  "debug_file_name pid debug_output =
     rbind (itoa pid 10 False) (\<lambda>ds.
       if 11 < 1 + length ds then Inl Oob_write else Inr (debug_output @ ''.'' @ ds))"

definition secure_cleanup :: "env_kernel \<Rightarrow> rtld_state \<Rightarrow> rtld_state run" where
  "secure_cleanup k st =
     (let st = st\<lparr>environ := fold unsetenv unsecure_envvars (environ st)\<rparr>;
          st = (if suid_debug k then st else upd_ro (\<lambda>r. r\<lparr>dl_debug_mask := 0\<rparr>) st) in
      if mode (main_state st) \<noteq> rtld_mode_normal then Exit 5 else Done st)"

definition open_debug_output :: "env_kernel \<Rightarrow> string \<Rightarrow> rtld_state \<Rightarrow> rtld_state run" where
  "open_debug_output k debug_output st =
     (case debug_file_name (getpid k) debug_output of
        Inl e \<Rightarrow> Undef e
      | Inr name \<Rightarrow>
          let fd = open_debug k name in Done (upd_ro (\<lambda>r. r\<lparr>dl_debug_fd := (if fd = - 1 then 1 else fd)\<rparr>) st))"

definition process_envvars :: "env_kernel \<Rightarrow> rtld_state \<Rightarrow> rtld_state run" where
  "process_envvars k st =
     (let st = upd_ro (\<lambda>r. r\<lparr>dl_profile_output := (if enable_secure k then ''/var/profile'' else ''/var/tmp'')\<rparr>) st in
      run_bind (process_env_loop (enable_secure k) (environ st) (st, None)) (\<lambda>(st, debug_output).
        if enable_secure k then secure_cleanup k st
        else if any_debug (main_state st) \<and> debug_output \<noteq> None then open_debug_output k (the debug_output) st
        else Done st))"

definition dl_main_state_init :: "dl_main_state \<Rightarrow> dl_main_state" where
  "dl_main_state_init s =
     s\<lparr>main_audit_list := audit_list_init, exec_fd := None, library_path := None, library_path_source := None,
       library_path_fds := None, preloadlist := None, preloadarg := None, glibc_hwcaps_prepend := None,
       glibc_hwcaps_mask := None, mode := rtld_mode_normal, any_debug := False, version_info := False\<rparr>"

end
