(* ===== verification/RtldEnvSpec.thy ===== *)
theory RtldEnvSpec
  imports RtldEnv
begin

text \<open>
  What the variables of the environment do to the loader: the \<open>switch\<close> on the length of a name is a comparison of names,
  the last assignment of a variable counts, a secure process ignores and removes the unsafe ones, and the lists of auditing
  modules and preloaded objects are the fields of their strings with the names that may not be used left out.
\<close>

section \<open>Lists of names\<close>

lemma tokens_unfold:
  "tokens p s =
     (if takeWhile (\<lambda>c. \<not> p c) s = [] then [] else [takeWhile (\<lambda>c. \<not> p c) s]) @ tokens p (tl (dropWhile (\<lambda>c. \<not> p c) s))"
proof (cases "dropWhile (\<lambda>c. \<not> p c) s")
  case Nil
  then have "takeWhile (\<lambda>c. \<not> p c) s = s" by (metis append_Nil2 takeWhile_dropWhile_id)
  with Nil have "split_on p s = [takeWhile (\<lambda>c. \<not> p c) s]" by (subst split_on_unfold) (simp only: list.case)
  then show ?thesis unfolding Nil by (simp add: tokens_def)
next
  case (Cons d t)
  then have "split_on p s = takeWhile (\<lambda>c. \<not> p c) s # split_on p t" by (subst split_on_unfold) simp
  with Cons show ?thesis by (simp add: tokens_def del: takeWhile_eq_Nil_iff)
qed

lemma tokens_strcspn:
  assumes "\<And>c. c \<in> set d \<longleftrightarrow> p c"
  shows "tokens p s = (if take (strcspn s d) s = [] then [] else [take (strcspn s d) s]) @ tokens p (drop (strcspn s d + 1) s)"
proof -
  have p: "(\<lambda>c. \<not> p c) = (\<lambda>c. c \<notin> set d)" using assms by auto
  have "drop (strcspn s d + 1) s = tl (dropWhile (\<lambda>c. c \<notin> set d) s)"
    by (simp add: drop_Suc tl_drop flip: drop_strcspn)
  then show ?thesis using tokens_unfold [of p s] by (simp only: p take_strcspn)
qed

text \<open>The names of a list that may be used.\<close>

definition usable_name :: "nat \<Rightarrow> bool \<Rightarrow> string \<Rightarrow> bool" where
  "usable_name limit secure f \<longleftrightarrow>
     length f < limit \<and> (secure \<longrightarrow> length f < SECURE_NAME_LIMIT \<and> slash \<notin> set f)"

lemma valid_field_name:
  "f \<noteq> [] \<Longrightarrow> dso_name_valid_for_suid secure (field_name limit f) \<longleftrightarrow> usable_name limit secure f"
  "f \<noteq> [] \<Longrightarrow> usable_name limit secure f \<Longrightarrow> field_name limit f = f"
  "\<not> dso_name_valid_for_suid secure (field_name limit [])"
  by (auto simp: dso_name_valid_for_suid_def field_name_def usable_name_def SECURE_NAME_LIMIT_def)

lemma usable_field:
  "(if dso_name_valid_for_suid secure (field_name limit f) then [field_name limit f] else []) @
      filter (usable_name limit secure) fs =
   filter (usable_name limit secure) ((if f = [] then [] else [f]) @ fs)"
  by (cases "f = []") (auto simp: valid_field_name)

lemma preload_names_tokens:
  "preload_names secure p = filter (usable_name SECURE_PATH_LIMIT secure) (tokens (\<lambda>c. c = CHR '' '' \<or> c = colon) p)"
proof (induction secure p rule: preload_names.induct)
  case (1 secure p)
  let ?len = "strcspn p '' :''"
  show ?case
  proof (cases "p = []")
    case True
    then show ?thesis by (simp add: preload_names.simps)
  next
    case False
    let ?f = "take ?len p"
    define rest where "rest = preload_names secure (drop (?len + 1) p)"
    define trest where "trest = tokens (\<lambda>c. c = CHR '' '' \<or> c = colon) (drop (?len + 1) p)"
    have unf: "preload_names secure p =
        (if dso_name_valid_for_suid secure (field_name SECURE_PATH_LIMIT ?f) then [field_name SECURE_PATH_LIMIT ?f] else [])
        @ rest"
      using False by (subst preload_names.simps) (simp add: Let_def rest_def)
    have tok: "tokens (\<lambda>c. c = CHR '' '' \<or> c = colon) p = (if ?f = [] then [] else [?f]) @ trest"
      unfolding trest_def by (rule tokens_strcspn) auto
    have IH: "rest = filter (usable_name SECURE_PATH_LIMIT secure) trest"
      using 1 [OF False refl refl] by (simp add: rest_def trest_def)
    show ?thesis unfolding unf tok IH by (rule usable_field)
  qed
qed

text \<open>The names that are left in an audit list.\<close>

definition audit_names :: "bool \<Rightarrow> string list \<Rightarrow> string list" where
  "audit_names secure strings =
     filter (usable_name SECURE_NAME_LIMIT secure) (concat (map (tokens (\<lambda>c. c = colon)) strings))"

lemma audit_names_simps [simp]:
  "audit_names secure [] = []"
  "audit_names secure ([] # ss) = audit_names secure ss"
  by (simp_all add: audit_names_def)

lemma next_string_rules:
  "tail \<noteq> [] \<Longrightarrow> next_string tail i strings = Some (tail, i, strings)"
  "next_string [] i [] = None"
  "next_string [] i (s # ss) = next_string s (Suc i) ss"
  by (subst next_string.simps, simp)+

lemma next_string_None: "next_string tail i strings = None \<Longrightarrow> audit_names secure (tail # strings) = []"
proof (induction strings arbitrary: tail i)
  case Nil
  then show ?case by (cases tail) (simp_all add: next_string_rules)
next
  case (Cons s ss)
  then show ?case by (cases tail) (simp_all add: next_string_rules)
qed

lemma next_string_Some:
  "next_string tail i strings = Some (t, j, ss) \<Longrightarrow>
     t \<noteq> [] \<and> audit_names secure (tail # strings) = audit_names secure (t # ss) \<and> i \<le> j \<and> ss = drop (j - i) strings"
proof (induction strings arbitrary: tail i)
  case Nil
  then show ?case by (cases tail) (auto simp: next_string_rules)
next
  case (Cons s ss')
  show ?case
  proof (cases tail)
    case Nil
    with Cons have "t \<noteq> [] \<and> audit_names secure (s # ss') = audit_names secure (t # ss) \<and> Suc i \<le> j \<and> ss = drop (j - Suc i) ss'"
      by (simp add: next_string_rules)
    then show ?thesis using Nil by (auto simp: drop_Cons' dest: Suc_leD)
  next
    case (Cons c cs)
    with Cons.prems show ?thesis by (auto simp: next_string_rules)
  qed
qed

lemma audit_names_field:
  assumes "t \<noteq> []"
  shows "audit_names secure (t # ss) =
     (if dso_name_valid_for_suid secure (field_name SECURE_NAME_LIMIT (take (strcspn t '':'') t))
      then [field_name SECURE_NAME_LIMIT (take (strcspn t '':'') t)] else [])
     @ audit_names secure (drop (strcspn t '':'' + 1) t # ss)"
proof -
  let ?f = "take (strcspn t '':'') t"
  define rest where "rest = tokens (\<lambda>c. c = colon) (drop (strcspn t '':'' + 1) t)"
  have "tokens (\<lambda>c. c = colon) t = (if ?f = [] then [] else [?f]) @ rest"
    unfolding rest_def by (rule tokens_strcspn) auto
  then have "audit_names secure (t # ss) =
      filter (usable_name SECURE_NAME_LIMIT secure)
        ((if ?f = [] then [] else [?f]) @ rest @ concat (map (tokens (\<lambda>c. c = colon)) ss))"
    unfolding audit_names_def list.map concat.simps by (simp only: append_assoc)
  also have "\<dots> = (if dso_name_valid_for_suid secure (field_name SECURE_NAME_LIMIT ?f) then [field_name SECURE_NAME_LIMIT ?f] else [])
      @ filter (usable_name SECURE_NAME_LIMIT secure) (rest @ concat (map (tokens (\<lambda>c. c = colon)) ss))"
    by (rule usable_field [symmetric])
  finally show ?thesis unfolding audit_names_def rest_def list.map concat.simps .
qed

lemma audit_next_names:
  "case audit_next secure tail i strings of
     None \<Rightarrow> audit_names secure (tail # strings) = []
   | Some (f, t, j, ss) \<Rightarrow> audit_names secure (tail # strings) = f # audit_names secure (t # ss) \<and> i \<le> j \<and>
       ss = drop (j - i) strings"
proof (induction secure tail i strings rule: audit_next.induct)
  case (1 secure tail i strings)
  show ?case
  proof (cases "next_string tail i strings")
    case None
    then show ?thesis by (subst audit_next.simps) (simp add: next_string_None)
  next
    case (Some r)
    obtain t j ss where r: "r = (t, j, ss)" by (cases r)
    note ns = next_string_Some [OF Some [unfolded r], of secure]
    let ?f = "field_name SECURE_NAME_LIMIT (take (strcspn t '':'') t)" and ?t = "drop (strcspn t '':'' + 1) t"
    have unf: "audit_next secure tail i strings =
        (if dso_name_valid_for_suid secure ?f then Some (?f, ?t, j, ss) else audit_next secure ?t j ss)"
      using Some r by (subst audit_next.simps) (simp add: Let_def)
    have names: "audit_names secure (tail # strings) =
        (if dso_name_valid_for_suid secure ?f then [?f] else []) @ audit_names secure (?t # ss)"
      using ns audit_names_field [of t secure ss] by simp
    show ?thesis
    proof (cases "dso_name_valid_for_suid secure ?f")
      case True
      then show ?thesis unfolding unf names using ns by simp
    next
      case False
      have IH: "case audit_next secure ?t j ss of
          None \<Rightarrow> audit_names secure (?t # ss) = []
        | Some (f, t, k, ss') \<Rightarrow> audit_names secure (?t # ss) = f # audit_names secure (t # ss') \<and> j \<le> k \<and> ss' = drop (k - j) ss"
        using 1 [OF Some r [symmetric] refl refl refl refl False] by simp
      have d: "drop (k - j) (drop (j - i) strings) = drop (k - i) strings" if "j \<le> k" for k
        using that ns by (simp add: add.commute)
      show ?thesis unfolding unf names using False IH ns d by (auto split: option.splits)
    qed
  qed
qed

text \<open>The names that the iteration of an audit list still has to give.\<close>

definition audit_left :: "bool \<Rightarrow> audit_list \<Rightarrow> string list" where
  "audit_left secure l =
     (case current_tail l of None \<Rightarrow> [] | Some t \<Rightarrow> audit_names secure (t # drop (current_index l + 1) (audit_strings l)))"

lemma audit_list_next_left:
  "case audit_list_next secure l of
     (None, _) \<Rightarrow> audit_left secure l = []
   | (Some f, l') \<Rightarrow> audit_left secure l = f # audit_left secure l'"
proof (cases "current_tail l")
  case None
  then show ?thesis by (simp add: audit_list_next_def audit_left_def)
next
  case (Some tail)
  let ?i = "current_index l" and ?ss = "drop (current_index l + 1) (audit_strings l)"
  show ?thesis
  proof (cases "audit_next secure tail ?i ?ss")
    case None
    with audit_next_names [where secure = secure and tail = tail and i = ?i and strings = ?ss] Some show ?thesis by (simp add: audit_list_next_def audit_left_def)
  next
    case (Some r)
    obtain f t j ss where r: "r = (f, t, j, ss)" by (cases r)
    then have n: "audit_names secure (tail # ?ss) = f # audit_names secure (t # ss)" "?i \<le> j" "ss = drop (j - ?i) ?ss"
      using audit_next_names [where secure = secure and tail = tail and i = ?i and strings = ?ss] Some by auto
    have "ss = drop (j + 1) (audit_strings l)" using n(2,3) by (simp add: add.commute)
    then show ?thesis using n(1) Some \<open>current_tail l = Some tail\<close> r by (simp add: audit_list_next_def audit_left_def)
  qed
qed

lemma audit_count_loop_left:
  "length (audit_left secure l) < fuel \<Longrightarrow> audit_count_loop fuel secure l n = Inr (n + length (audit_left secure l))"
proof (induction fuel arbitrary: l n)
  case 0
  then show ?case by simp
next
  case (Suc fuel)
  note left = audit_list_next_left [of secure l]
  show ?case
  proof (cases "audit_list_next secure l")
    case (Pair r l')
    then show ?thesis using left Suc by (cases r) auto
  qed
qed

lemma load_audit_names_left:
  "length (audit_left secure l) < fuel \<Longrightarrow> load_audit_names fuel secure l = Inr (audit_left secure l)"
proof (induction fuel arbitrary: l)
  case 0
  then show ?case by simp
next
  case (Suc fuel)
  note left = audit_list_next_left [of secure l]
  show ?case
  proof (cases "audit_list_next secure l")
    case (Pair r l')
    then show ?thesis using left Suc by (cases r) auto
  qed
qed

lemma length_tokens: "length (tokens p s) \<le> length s"
proof (induction "length s" arbitrary: s rule: less_induct)
  case less
  show ?case
  proof (cases "s = []")
    case False
    let ?w = "takeWhile (\<lambda>c. \<not> p c) s" and ?r = "tl (dropWhile (\<lambda>c. \<not> p c) s)"
    have len: "length ?w + length (dropWhile (\<lambda>c. \<not> p c) s) = length s"
      by (metis length_append takeWhile_dropWhile_id)
    have "length ?r < length s"
    proof (cases "dropWhile (\<lambda>c. \<not> p c) s")
      case Nil
      with False show ?thesis by (metis length_greater_0_conv list.sel(2) list.size(3))
    next
      case (Cons d t)
      with len show ?thesis by (simp only: list.sel list.size)
    qed
    then have "length (tokens p ?r) \<le> length ?r" by (rule less)
    moreover have "length (tokens p s) \<le> (if ?w = [] then 0 else 1) + length (tokens p ?r)"
      by (subst tokens_unfold) (simp only: length_append, simp)
    ultimately show ?thesis using len \<open>length ?r < length s\<close> by (cases "?w") (auto simp: length_tl split: if_splits)
  qed simp
qed

lemma length_audit_names: "length (audit_names secure ss) \<le> size_list length ss"
proof -
  have "length (concat (map (tokens (\<lambda>c. c = colon)) ss)) \<le> size_list length ss"
  proof (induction ss)
    case (Cons s ss)
    then show ?case using length_tokens [of "\<lambda>c. c = colon" s] by simp
  qed simp
  then show ?thesis unfolding audit_names_def using length_filter_le le_trans by blast
qed

text \<open>An audit list to which strings have been added, and from which nothing has been taken.\<close>

definition audit_fresh :: "audit_list \<Rightarrow> bool" where
  "audit_fresh l \<longleftrightarrow> current_index l = 0 \<and> length (audit_strings l) \<le> 16 \<and> [] \<notin> set (audit_strings l) \<and>
     current_tail l = (case audit_strings l of [] \<Rightarrow> None | s # _ \<Rightarrow> Some s)"

lemma audit_fresh_left: "audit_fresh l \<Longrightarrow> audit_left secure l = audit_names secure (audit_strings l)"
  by (cases "audit_strings l") (simp_all add: audit_fresh_def audit_left_def)

lemma audit_fuel_enough: "audit_fresh l \<Longrightarrow> length (audit_left secure l) < audit_fuel l"
  using audit_fresh_left [of l secure] length_audit_names [of secure "audit_strings l"] by (simp add: audit_fuel_def)

lemma audit_list_add_string_fresh:
  assumes "audit_fresh l"
  shows "case audit_list_add_string s l of
      Inl f \<Rightarrow> f = Fatal \<and> s \<noteq> [] \<and> length (audit_strings l) = 16
    | Inr l' \<Rightarrow> audit_fresh l' \<and> audit_strings l' = audit_strings l @ (if s = [] then [] else [s])"
  using assms by (cases "audit_strings l") (auto simp: audit_list_add_string_def audit_fresh_def Let_def)

section \<open>The environment as a list of assignments\<close>

text \<open>The variables whose name begins with \<open>LD_\<close>: the rest of the name, and the value.\<close>

definition ld_var :: "string \<Rightarrow> (string \<times> string) option" where
  "ld_var e =
     (if take 3 e = ''LD_'' \<and> CHR ''='' \<in> set e
      then Some (takeWhile (\<lambda>c. c \<noteq> CHR ''='') (drop 3 e), tl (dropWhile (\<lambda>c. c \<noteq> CHR ''='') (drop 3 e)))
      else None)"

definition ld_vars :: "string list \<Rightarrow> (string \<times> string) list" where
  "ld_vars env = List.map_filter ld_var env"

text \<open>A variable is recognised by its name alone.\<close>

definition set_plain :: "bool \<Rightarrow> string \<Rightarrow> string \<Rightarrow> rtld_state \<Rightarrow> rtld_state" where
  "set_plain secure n v st =
     (if n = ''WARN'' then upd_ro (\<lambda>r. r\<lparr>dl_verbose := v \<noteq> []\<rparr>) st
      else if n = ''VERBOSE'' then upd_main (\<lambda>s. s\<lparr>version_info := v \<noteq> []\<rparr>) st
      else if n = ''PRELOAD'' then upd_main (\<lambda>s. s\<lparr>preloadlist := Some v\<rparr>) st
      else if n = ''PROFILE'' \<and> v \<noteq> [] then upd_ro (\<lambda>r. r\<lparr>dl_profile := Some v\<rparr>) st
      else if n = ''BIND_NOW'' then upd_ro (\<lambda>r. r\<lparr>dl_lazy := (if v = [] then 1 else 0)\<rparr>) st
      else if n = ''BIND_NOT'' then upd_ro (\<lambda>r. r\<lparr>dl_bind_not := v \<noteq> []\<rparr>) st
      else if n = ''ASSUME_KERNEL'' then upd_ro (dl_osversion_init v) st
      else if n = ''TRACE_PRELINKING'' then
        upd_ro (\<lambda>r. r\<lparr>dl_verbose := True, dl_debug_mask := dl_debug_mask r OR DL_DEBUG_PRELINK, dl_trace_prelink := Some v\<rparr>)
          (upd_main (\<lambda>s. s\<lparr>mode := rtld_mode_trace\<rparr>) st)
      else if n = ''LIBRARY_PATH_FDS'' then
        upd_main (\<lambda>s. s\<lparr>capsicum := Some True, library_path_fds := Some v,
          library_path_source := Some ''LD_LIBRARY_PATH_FDS''\<rparr>) st
      else if n = ''TRACE_LOADED_OBJECTS'' then upd_main (\<lambda>s. s\<lparr>mode := rtld_mode_trace\<rparr>) st
      else if secure then st
      else if n = ''ORIGIN_PATH'' then upd_ro (\<lambda>r. r\<lparr>dl_origin_path := Some v\<rparr>) st
      else if n = ''LIBRARY_PATH'' then
        upd_main (\<lambda>s. s\<lparr>library_path := Some v, library_path_source := Some ''LD_LIBRARY_PATH''\<rparr>) st
      else if n = ''DYNAMIC_WEAK'' then upd_ro (\<lambda>r. r\<lparr>dl_dynamic_weak := True\<rparr>) st
      else if n = ''USE_LOAD_BIAS'' then upd_ro (\<lambda>r. r\<lparr>dl_use_load_bias := (if cget v 0 = CHR ''1'' then - 1 else 0)\<rparr>) st
      else if n = ''PROFILE_OUTPUT'' \<and> v \<noteq> [] then upd_ro (\<lambda>r. r\<lparr>dl_profile_output := v\<rparr>) st
      else st)"

definition set_var ::
    "bool \<Rightarrow> string \<Rightarrow> string \<Rightarrow> rtld_state \<times> string option \<Rightarrow> (rtld_state \<times> string option) run" where
  "set_var secure n v so =
     (case so of (st, out) \<Rightarrow>
      if n = ''DEBUG'' then run_bind (process_dl_debug v st) (\<lambda>st. Done (st, out))
      else if n = ''AUDIT'' then
        (case audit_list_add_string v (main_audit_list (main_state st)) of
           Inl _ \<Rightarrow> Exit 127
         | Inr l \<Rightarrow> Done (upd_main (\<lambda>s. s\<lparr>main_audit_list := l\<rparr>) st, out))
      else if n = ''DEBUG_OUTPUT'' then Done (st, Some v)
      else Done (set_plain secure n v st, out))"

lemma env_starts_name: "length n = length s \<Longrightarrow> env_starts (n @ CHR ''='' # v) s \<longleftrightarrow> n = s"
  by (simp add: env_starts_def)

lemma env_starts_longer: "CHR ''='' \<notin> set s \<Longrightarrow> length n < length s \<Longrightarrow> \<not> env_starts (n @ CHR ''='' # v) s"
proof
  assume "CHR ''='' \<notin> set s" and len: "length n < length s" and "env_starts (n @ CHR ''='' # v) s"
  then have "take (length s) (n @ CHR ''='' # v) = s" by (simp add: env_starts_def)
  with len have "CHR ''='' \<in> set s"
    by (metis (no_types, lifting) in_set_conv_decomp take_Cons' take_append zero_less_diff less_imp_not_eq2 take_all_iff less_imp_le_nat)
  with \<open>CHR ''='' \<notin> set s\<close> show False by simp
qed

lemma cget_value: "cget (n @ CHR ''='' # v) (Suc (length n)) = cget v 0"
  using cget_append [of n "CHR ''='' # v" 1] by simp

lemma cget_NUL: "nul_free v \<Longrightarrow> cget v 0 = NUL \<longleftrightarrow> v = []"
  by (cases v) auto

lemma neq_by_length: "length n \<noteq> length s \<Longrightarrow> n = s \<longleftrightarrow> False"
  by auto

lemma drop_name: "drop (Suc (length n)) (n @ CHR ''='' # v) = v"
  by simp

lemma env_switch_name:
  assumes "nul_free v"
  shows "env_switch secure (length n) (n @ CHR ''='' # v) so = set_var secure n v so"
proof -
  obtain st out where so: "so = (st, out)" by (cases so)
  define e where "e = n @ CHR ''='' # v"
  have starts: "\<And>s. length s = length n \<Longrightarrow> env_starts e s \<longleftrightarrow> n = s"
    and longer: "\<And>s. CHR ''='' \<notin> set s \<Longrightarrow> length n < length s \<Longrightarrow> \<not> env_starts e s"
    and val: "drop (Suc (length n)) e = v" "cget e (Suc (length n)) = cget v 0" "cget v 0 = NUL \<longleftrightarrow> v = []"
    using assms by (auto simp: e_def env_starts_name env_starts_longer cget_value cget_NUL)
  note neq = neq_by_length [of n]
  note rules = env_switch_def set_var_def set_plain_def starts neq Let_def
  consider "length n = 4" | "length n = 5" | "length n = 7" | "length n = 8" | "length n = 11" | "length n = 12"
    | "length n = 13" | "length n = 14" | "length n = 16" | "length n = 20"
    | "length n \<notin> {4, 5, 7, 8, 11, 12, 13, 14, 16, 20}" by fastforce
  then have "env_switch secure (length n) e so = set_var secure n v so"
  proof cases
    case 1
    then show ?thesis using val unfolding so
      by (cases secure) (simp_all add: rules cong: if_cong split del: if_split)
  next
    case 2
    then show ?thesis using val unfolding so
      by (cases secure) (simp_all add: rules cong: if_cong split del: if_split)
  next
    case 3
    then show ?thesis using val unfolding so
      by (cases secure) (simp_all add: rules cong: if_cong split del: if_split)
  next
    case 4
    then show ?thesis using val unfolding so
      by (cases secure) (simp_all add: rules cong: if_cong split del: if_split)
  next
    case 5
    then show ?thesis using val unfolding so
      by (cases secure) (simp_all add: rules cong: if_cong split del: if_split)
  next
    case 6
    have d: "drop 13 e = v" using val(1) 6 by simp
    have st: "env_starts e ''LIBRARY_PATH'' \<longleftrightarrow> n = ''LIBRARY_PATH''" "env_starts e ''DEBUG_OUTPUT'' \<longleftrightarrow> n = ''DEBUG_OUTPUT''"
        "env_starts e ''DYNAMIC_WEAK'' \<longleftrightarrow> n = ''DYNAMIC_WEAK''"
      using 6 by (simp_all add: starts)
    consider "n = ''LIBRARY_PATH''" | "n = ''DEBUG_OUTPUT''" | "n = ''DYNAMIC_WEAK''"
      | "n \<noteq> ''LIBRARY_PATH''" "n \<noteq> ''DEBUG_OUTPUT''" "n \<noteq> ''DYNAMIC_WEAK''" by blast
    then show ?thesis
      by cases (use 6 in \<open>simp_all add: so env_switch_def set_var_def set_plain_def st d neq cong: if_cong\<close>)
  next
    case 7
    then show ?thesis using val unfolding so
      by (cases secure) (simp_all add: rules cong: if_cong split del: if_split)
  next
    case 8
    then show ?thesis using val unfolding so
      by (cases secure) (simp_all add: rules cong: if_cong split del: if_split)
  next
    case 9
    then show ?thesis using val unfolding so
      by (cases secure) (simp_all add: rules longer trace_loaded_objects_def cong: if_cong split del: if_split)
  next
    case 10
    then show ?thesis using val unfolding so
      by (cases secure) (simp_all add: rules trace_loaded_objects_def cong: if_cong split del: if_split)
  next
    case 11
    then have "n \<notin> {''DEBUG'', ''AUDIT'', ''DEBUG_OUTPUT'', ''WARN'', ''VERBOSE'', ''PRELOAD'', ''PROFILE'', ''BIND_NOW'',
        ''BIND_NOT'', ''ASSUME_KERNEL'', ''TRACE_PRELINKING'', ''LIBRARY_PATH_FDS'', ''TRACE_LOADED_OBJECTS'', ''ORIGIN_PATH'',
        ''LIBRARY_PATH'', ''DYNAMIC_WEAK'', ''USE_LOAD_BIAS'', ''PROFILE_OUTPUT''}"
      by auto
    with 11 show ?thesis by (simp add: so env_switch_def set_var_def set_plain_def)
  qed
  then show ?thesis by (simp add: e_def)
qed

text \<open>The loop is a fold over the assignments.\<close>

fun set_vars :: "bool \<Rightarrow> (string \<times> string) list \<Rightarrow> rtld_state \<times> string option \<Rightarrow> (rtld_state \<times> string option) run" where
  "set_vars secure [] so = Done so"
| "set_vars secure ((n, v) # vs) so = run_bind (set_var secure n v so) (set_vars secure vs)"

lemma ld_vars_simps [simp]:
  "ld_vars [] = []"
  "ld_vars (e # es) = (case ld_var e of None \<Rightarrow> ld_vars es | Some nv \<Rightarrow> nv # ld_vars es)"
  by (simp_all add: ld_vars_def List.map_filter_simps split: option.split)

lemma starts_LD: "cget e 0 = CHR ''L'' \<and> cget e 1 = CHR ''D'' \<and> cget e 2 = CHR ''_'' \<longleftrightarrow> take 3 e = ''LD_''"
proof (cases e)
  case (Cons a e')
  then show ?thesis
  proof (cases e')
    case (Cons b e'')
    then show ?thesis using \<open>e = a # e'\<close> by (cases e'') auto
  qed auto
qed simp

lemma split_at_eq:
  assumes "CHR ''='' \<in> set s"
  shows "s = takeWhile (\<lambda>c. c \<noteq> CHR ''='') s @ CHR ''='' # tl (dropWhile (\<lambda>c. c \<noteq> CHR ''='') s)"
proof -
  have "dropWhile (\<lambda>c. c \<noteq> CHR ''='') s \<noteq> []" using assms by auto
  moreover from this have "hd (dropWhile (\<lambda>c. c \<noteq> CHR ''='') s) = CHR ''=''"
    using hd_dropWhile by blast
  ultimately have "dropWhile (\<lambda>c. c \<noteq> CHR ''='') s = CHR ''='' # tl (dropWhile (\<lambda>c. c \<noteq> CHR ''='') s)"
    by (metis list.collapse)
  then show ?thesis by (metis takeWhile_dropWhile_id)
qed

lemma process_envline_var:
  assumes "take 3 e = ''LD_''" "nul_free e"
  shows "process_envline secure (drop 3 e) so =
     (case ld_var e of None \<Rightarrow> Done so | Some (n, v) \<Rightarrow> set_var secure n v so)"
proof -
  let ?s = "drop 3 e"
  have e: "e = ''LD_'' @ ?s" using assms(1) by (metis append_take_drop_id)
  have mem: "CHR ''='' \<in> set e \<longleftrightarrow> CHR ''='' \<in> set ?s" by (subst e) simp
  show ?thesis
  proof (cases "CHR ''='' \<in> set ?s")
    case False
    then have "takeWhile (\<lambda>c. c \<noteq> CHR ''='') ?s = ?s" by (auto simp: takeWhile_eq_all_conv)
    then have "cget ?s (length (takeWhile (\<lambda>c. c \<noteq> CHR ''='') ?s)) = NUL" unfolding cget_nth by (simp only: less_irrefl if_False)
    then show ?thesis using False mem by (simp add: process_envline_def ld_var_def)
  next
    case True
    define n v where "n = takeWhile (\<lambda>c. c \<noteq> CHR ''='') ?s" and "v = tl (dropWhile (\<lambda>c. c \<noteq> CHR ''='') ?s)"
    have s: "?s = n @ CHR ''='' # v" unfolding n_def v_def by (rule split_at_eq [OF True])
    have "nul_free ?s" using assms(2) by simp
    then have "nul_free v" unfolding s by simp
    then have "env_switch secure (length n) ?s so = set_var secure n v so" unfolding s by (rule env_switch_name)
    moreover have "cget ?s (length n) = CHR ''=''" unfolding s by (simp add: cget_append_length)
    ultimately have "process_envline secure ?s so = set_var secure n v so"
      by (simp add: process_envline_def n_def)
    then show ?thesis using True mem assms(1) by (simp add: ld_var_def n_def v_def)
  qed
qed

lemma process_env_loop_vars:
  "list_all nul_free env \<Longrightarrow> process_env_loop secure env so = set_vars secure (ld_vars env) so"
proof (induction env arbitrary: so)
  case Nil
  then show ?case by (simp add: process_env_loop.simps)
next
  case (Cons e es)
  show ?case
  proof (cases "take 3 e = ''LD_''")
    case True
    then have "process_env_loop secure (e # es) so = run_bind (process_envline secure (drop 3 e) so) (process_env_loop secure es)"
      using starts_LD [of e] by (subst process_env_loop.simps) simp
    also have "\<dots> = set_vars secure (ld_vars (e # es)) so"
    proof (cases "ld_var e")
      case None
      then show ?thesis using True Cons by (simp add: process_envline_var)
    next
      case (Some nv)
      moreover have "process_env_loop secure es = set_vars secure (ld_vars es)" using Cons by (intro ext) simp
      ultimately show ?thesis using True Cons.prems by (cases nv) (simp add: process_envline_var)
    qed
    finally show ?thesis .
  next
    case False
    then have "ld_var e = None" by (simp add: ld_var_def)
    moreover have "dl_next_ld_env_entry (e # es) = dl_next_ld_env_entry es"
      unfolding dl_next_ld_env_entry.simps starts_LD using False by (simp only: if_False)
    then have "process_env_loop secure (e # es) so = process_env_loop secure es so"
      by (subst (1 2) process_env_loop.simps) simp
    ultimately show ?thesis using Cons by simp
  qed
qed

section \<open>The last assignment counts\<close>

text \<open>
  Most variables set one thing, and only they do.  The contract between the reading of one variable and the loop: a step sets
  \<open>field\<close> to \<open>conv v old\<close> if it assigns \<open>v\<close> to \<open>name\<close>, and keeps it otherwise.
\<close>

locale env_field =
  fixes secure :: bool and name :: string and field :: "rtld_state \<times> string option \<Rightarrow> 'a" and conv :: "string \<Rightarrow> 'a \<Rightarrow> 'a"
  assumes step: "set_var secure n v so = Done so' \<Longrightarrow> field so' = (if n = name then conv v (field so) else field so)"
begin

lemma fields: "set_vars secure vs so = Done so' \<Longrightarrow>
  field so' = fold conv (map snd (filter (\<lambda>(n, _). n = name) vs)) (field so)"
proof (induction vs arbitrary: so)
  case (Cons nv vs)
  obtain n v where nv: "nv = (n, v)" by (cases nv)
  with Cons.prems obtain so1 where so1: "set_var secure n v so = Done so1" "set_vars secure vs so1 = Done so'"
    by (auto simp: run_bind_Done_iff)
  show ?case using Cons.IH [OF so1(2)] step [OF so1(1)] nv by simp
qed simp

end

text \<open>A variable whose last value counts: \<open>conv\<close> does not look at the old value.\<close>

locale last_field = env_field +
  fixes read :: "string \<Rightarrow> 'a"
  assumes conv_read: "conv v a = read v"
begin

lemma last_value: "set_vars secure vs so = Done so' \<Longrightarrow>
  field so' = (case map_of (rev vs) name of None \<Rightarrow> field so | Some v \<Rightarrow> read v)"
proof -
  assume "set_vars secure vs so = Done so'"
  moreover have "fold conv (map snd (filter (\<lambda>(n, _). n = name) vs)) a =
      (case map_of (rev vs) name of None \<Rightarrow> a | Some v \<Rightarrow> read v)" for a
    by (induction vs arbitrary: a) (auto simp: conv_read map_add_def split: option.splits)
  ultimately show ?thesis using fields by simp
qed

end

text \<open>A variable whose last value counts that is not empty.\<close>

locale nonempty_field = env_field +
  fixes read :: "string \<Rightarrow> 'a"
  assumes conv_nonempty: "conv v a = (if v = [] then a else read v)"
begin

lemma last_nonempty: "set_vars secure vs so = Done so' \<Longrightarrow>
  field so' = (case map_of (rev (filter (\<lambda>(_, v). v \<noteq> []) vs)) name of None \<Rightarrow> field so | Some v \<Rightarrow> read v)"
proof -
  assume "set_vars secure vs so = Done so'"
  moreover have "fold conv (map snd (filter (\<lambda>(n, _). n = name) vs)) a =
      (case map_of (rev (filter (\<lambda>(_, v). v \<noteq> []) vs)) name of None \<Rightarrow> a | Some v \<Rightarrow> read v)" for a
    by (induction vs arbitrary: a) (auto simp: conv_nonempty map_add_def split: option.splits)
  ultimately show ?thesis using fields by simp
qed

end

locale kept_field = env_field +
  assumes conv_keep: "conv v a = a"
begin

lemma kept_value: "set_vars secure vs so = Done so' \<Longrightarrow> field so' = field so"
proof -
  assume "set_vars secure vs so = Done so'"
  moreover have "fold conv ws a = a" for ws a by (induction ws) (simp_all add: conv_keep)
  ultimately show ?thesis using fields by simp
qed

end

lemma process_dl_debug_Done:
  "process_dl_debug v st = Done st' \<Longrightarrow>
     \<exists>m lazy any. st' = st\<lparr>ro := (ro st)\<lparr>dl_debug_mask := m, dl_lazy := lazy\<rparr>, main_state := (main_state st)\<lparr>any_debug := any\<rparr>\<rparr>"
  by (cases "ro st") (auto simp: process_dl_debug_def Let_def split: prod.splits if_splits)

lemma dl_osversion_init_fields [simp]:
  "dl_origin_path (dl_osversion_init v r) = dl_origin_path r"
  "dl_dynamic_weak (dl_osversion_init v r) = dl_dynamic_weak r"
  "dl_use_load_bias (dl_osversion_init v r) = dl_use_load_bias r"
  "dl_profile_output (dl_osversion_init v r) = dl_profile_output r"
  "dl_debug_fd (dl_osversion_init v r) = dl_debug_fd r"
  "dl_verbose (dl_osversion_init v r) = dl_verbose r"
  "dl_lazy (dl_osversion_init v r) = dl_lazy r"
  "dl_bind_not (dl_osversion_init v r) = dl_bind_not r"
  "dl_profile (dl_osversion_init v r) = dl_profile r"
  "dl_trace_prelink (dl_osversion_init v r) = dl_trace_prelink r"
  by (simp_all add: dl_osversion_init_def Let_def)

text \<open>A part of the state that debugging options and the audit list leave alone changes as \<open>set_plain\<close> says.\<close>

lemma set_var_plain:
  assumes "set_var secure n v so = Done so'"
    and debug: "\<And>st m lazy any. f (st\<lparr>ro := (ro st)\<lparr>dl_debug_mask := m, dl_lazy := lazy\<rparr>,
      main_state := (main_state st)\<lparr>any_debug := any\<rparr>\<rparr>) = f st"
    and audit: "\<And>st l. f (st\<lparr>main_state := (main_state st)\<lparr>main_audit_list := l\<rparr>\<rparr>) = f st"
  shows "f (fst so') = f (set_plain secure n v (fst so))"
proof -
  obtain st out where so: "so = (st, out)" by (cases so)
  consider "n = ''DEBUG''" | "n = ''AUDIT''" | "n = ''DEBUG_OUTPUT''"
    | "n \<noteq> ''DEBUG''" "n \<noteq> ''AUDIT''" "n \<noteq> ''DEBUG_OUTPUT''" by blast
  then show ?thesis
  proof cases
    case 1
    with assms(1) obtain st' where "process_dl_debug v st = Done st'" "so' = (st', out)"
      by (auto simp: so set_var_def run_bind_Done_iff)
    moreover have "set_plain secure n v st = st" using 1 by (simp add: set_plain_def)
    ultimately show ?thesis using debug by (auto simp: so dest!: process_dl_debug_Done)
  next
    case 2
    with assms(1) obtain l where "so' = (upd_main (\<lambda>s. s\<lparr>main_audit_list := l\<rparr>) st, out)"
      by (auto simp: so set_var_def split: sum.splits)
    moreover have "set_plain secure n v st = st" using 2 by (simp add: set_plain_def)
    ultimately show ?thesis using audit by (simp add: so upd_main_def)
  next
    case 3
    moreover from this have "set_plain secure n v st = st" by (simp add: set_plain_def)
    ultimately show ?thesis using assms(1) by (auto simp: so set_var_def)
  next
    case 4
    with assms(1) show ?thesis by (auto simp: so set_var_def)
  qed
qed

lemmas plain_rules = set_plain_def upd_main_def upd_ro_def

interpretation fds_var: last_field secure "''LIBRARY_PATH_FDS''" "\<lambda>so. library_path_fds (main_state (fst so))" "\<lambda>v _. Some v" Some
  for secure
proof unfold_locales
  fix n v so so'
  assume "set_var secure n v so = Done so'"
  then have "library_path_fds (main_state (fst so')) = library_path_fds (main_state (set_plain secure n v (fst so)))"
    by (rule set_var_plain) simp_all
  also have "\<dots> = (if n = ''LIBRARY_PATH_FDS'' then Some v else library_path_fds (main_state (fst so)))"
    by (cases "n = ''LIBRARY_PATH_FDS''")
      (simp_all add: plain_rules if_distrib [of "\<lambda>s. library_path_fds (main_state s)"] cong: if_cong split del: if_split)
  finally show "library_path_fds (main_state (fst so')) =
    (if n = ''LIBRARY_PATH_FDS'' then Some v else library_path_fds (main_state (fst so)))" .
qed simp

interpretation capsicum_var: last_field secure "''LIBRARY_PATH_FDS''" "\<lambda>so. capsicum (main_state (fst so))" "\<lambda>_ _. Some True"
    "\<lambda>_. Some True" for secure
proof unfold_locales
  fix n v so so'
  assume "set_var secure n v so = Done so'"
  then have "capsicum (main_state (fst so')) = capsicum (main_state (set_plain secure n v (fst so)))"
    by (rule set_var_plain) simp_all
  also have "\<dots> = (if n = ''LIBRARY_PATH_FDS'' then Some True else capsicum (main_state (fst so)))"
    by (cases "n = ''LIBRARY_PATH_FDS''")
      (simp_all add: plain_rules if_distrib [of "\<lambda>s. capsicum (main_state s)"] cong: if_cong split del: if_split)
  finally show "capsicum (main_state (fst so')) =
    (if n = ''LIBRARY_PATH_FDS'' then Some True else capsicum (main_state (fst so)))" .
qed simp

interpretation preload_var: last_field secure "''PRELOAD''" "\<lambda>so. preloadlist (main_state (fst so))" "\<lambda>v _. Some v" Some for secure
proof unfold_locales
  fix n v so so'
  assume "set_var secure n v so = Done so'"
  then have "preloadlist (main_state (fst so')) = preloadlist (main_state (set_plain secure n v (fst so)))"
    by (rule set_var_plain) simp_all
  also have "\<dots> = (if n = ''PRELOAD'' then Some v else preloadlist (main_state (fst so)))"
    by (cases "n = ''PRELOAD''")
      (simp_all add: plain_rules if_distrib [of "\<lambda>s. preloadlist (main_state s)"] cong: if_cong split del: if_split)
  finally show "preloadlist (main_state (fst so')) = (if n = ''PRELOAD'' then Some v else preloadlist (main_state (fst so)))" .
qed simp

interpretation path_var: last_field False "''LIBRARY_PATH''" "\<lambda>so. library_path (main_state (fst so))" "\<lambda>v _. Some v" Some
proof unfold_locales
  fix n v so so'
  assume "set_var False n v so = Done so'"
  then have "library_path (main_state (fst so')) = library_path (main_state (set_plain False n v (fst so)))"
    by (rule set_var_plain) simp_all
  also have "\<dots> = (if n = ''LIBRARY_PATH'' then Some v else library_path (main_state (fst so)))"
    by (cases "n = ''LIBRARY_PATH''")
      (simp_all add: plain_rules if_distrib [of "\<lambda>s. library_path (main_state s)"] cong: if_cong split del: if_split)
  finally show "library_path (main_state (fst so')) = (if n = ''LIBRARY_PATH'' then Some v else library_path (main_state (fst so)))" .
qed simp

interpretation origin_var: last_field False "''ORIGIN_PATH''" "\<lambda>so. dl_origin_path (ro (fst so))" "\<lambda>v _. Some v" Some
proof unfold_locales
  fix n v so so'
  assume "set_var False n v so = Done so'"
  then have "dl_origin_path (ro (fst so')) = dl_origin_path (ro (set_plain False n v (fst so)))"
    by (rule set_var_plain) simp_all
  also have "\<dots> = (if n = ''ORIGIN_PATH'' then Some v else dl_origin_path (ro (fst so)))"
    by (cases "n = ''ORIGIN_PATH''")
      (simp_all add: plain_rules if_distrib [of "\<lambda>s. dl_origin_path (ro s)"] cong: if_cong split del: if_split)
  finally show "dl_origin_path (ro (fst so')) = (if n = ''ORIGIN_PATH'' then Some v else dl_origin_path (ro (fst so)))" .
qed simp

text \<open>What a secure process takes from no variable.\<close>

definition guarded :: "rtld_state \<Rightarrow> string option \<times> string option \<times> bool \<times> int \<times> string" where
  "guarded st = (library_path (main_state st), dl_origin_path (ro st), dl_dynamic_weak (ro st), dl_use_load_bias (ro st),
     dl_profile_output (ro st))"

interpretation guarded_vars: kept_field True "''LIBRARY_PATH''" "\<lambda>so. guarded (fst so)" "\<lambda>_ a. a"
proof unfold_locales
  fix n v so so'
  assume "set_var True n v so = Done so'"
  then have "guarded (fst so') = guarded (set_plain True n v (fst so))"
    by (rule set_var_plain) (simp_all add: guarded_def)
  also have "\<dots> = guarded (fst so)"
    unfolding plain_rules if_distrib [of guarded] by (simp add: guarded_def cong: if_cong split del: if_split)
  finally show "guarded (fst so') = (if n = ''LIBRARY_PATH'' then guarded (fst so) else guarded (fst so))" by simp
qed simp

interpretation environ_kept: kept_field secure "''LIBRARY_PATH''" "\<lambda>so. environ (fst so)" "\<lambda>_ a. a" for secure
proof unfold_locales
  fix n v so so'
  assume "set_var secure n v so = Done so'"
  then have "environ (fst so') = environ (set_plain secure n v (fst so))"
    by (rule set_var_plain) simp_all
  also have "\<dots> = environ (fst so)"
    by (simp add: plain_rules if_distrib [of environ] cong: if_cong split del: if_split)
  finally show "environ (fst so') = (if n = ''LIBRARY_PATH'' then environ (fst so) else environ (fst so))" by simp
qed simp

interpretation exec_kept: kept_field secure "''LIBRARY_PATH''" "\<lambda>so. exec_fd (main_state (fst so))" "\<lambda>_ a. a" for secure
proof unfold_locales
  fix n v so so'
  assume "set_var secure n v so = Done so'"
  then have "exec_fd (main_state (fst so')) = exec_fd (main_state (set_plain secure n v (fst so)))"
    by (rule set_var_plain) simp_all
  also have "\<dots> = exec_fd (main_state (fst so))"
    by (simp add: plain_rules if_distrib [of "\<lambda>s. exec_fd (main_state s)"] cong: if_cong split del: if_split)
  finally show "exec_fd (main_state (fst so')) =
    (if n = ''LIBRARY_PATH'' then exec_fd (main_state (fst so)) else exec_fd (main_state (fst so)))" by simp
qed simp

interpretation verbose_var: last_field secure "''VERBOSE''" "\<lambda>so. version_info (main_state (fst so))" "\<lambda>v _. v \<noteq> []" "\<lambda>v. v \<noteq> []"
  for secure
proof unfold_locales
  fix n v so so'
  assume "set_var secure n v so = Done so'"
  then have "version_info (main_state (fst so')) = version_info (main_state (set_plain secure n v (fst so)))"
    by (rule set_var_plain) simp_all
  also have "\<dots> = (if n = ''VERBOSE'' then (\<lambda>v _. v \<noteq> []) v (version_info (main_state (fst so))) else version_info (main_state (fst so)))"
    by (cases "n = ''VERBOSE''")
      (simp_all add: plain_rules if_distrib [of "\<lambda>s. version_info (main_state s)"] cong: if_cong split del: if_split)
  finally show "version_info (main_state (fst so')) = (if n = ''VERBOSE'' then (\<lambda>v _. v \<noteq> []) v (version_info (main_state (fst so))) else version_info (main_state (fst so)))" .
qed simp

interpretation bind_not_var: last_field secure "''BIND_NOT''" "\<lambda>so. dl_bind_not (ro (fst so))" "\<lambda>v _. v \<noteq> []" "\<lambda>v. v \<noteq> []"
  for secure
proof unfold_locales
  fix n v so so'
  assume "set_var secure n v so = Done so'"
  then have "dl_bind_not (ro (fst so')) = dl_bind_not (ro (set_plain secure n v (fst so)))"
    by (rule set_var_plain) simp_all
  also have "\<dots> = (if n = ''BIND_NOT'' then (\<lambda>v _. v \<noteq> []) v (dl_bind_not (ro (fst so))) else dl_bind_not (ro (fst so)))"
    by (cases "n = ''BIND_NOT''")
      (simp_all add: plain_rules if_distrib [of "\<lambda>s. dl_bind_not (ro s)"] cong: if_cong split del: if_split)
  finally show "dl_bind_not (ro (fst so')) = (if n = ''BIND_NOT'' then (\<lambda>v _. v \<noteq> []) v (dl_bind_not (ro (fst so))) else dl_bind_not (ro (fst so)))" .
qed simp

interpretation prelink_var: last_field secure "''TRACE_PRELINKING''" "\<lambda>so. dl_trace_prelink (ro (fst so))" "\<lambda>v _. Some v" "Some"
  for secure
proof unfold_locales
  fix n v so so'
  assume "set_var secure n v so = Done so'"
  then have "dl_trace_prelink (ro (fst so')) = dl_trace_prelink (ro (set_plain secure n v (fst so)))"
    by (rule set_var_plain) simp_all
  also have "\<dots> = (if n = ''TRACE_PRELINKING'' then (\<lambda>v _. Some v) v (dl_trace_prelink (ro (fst so))) else dl_trace_prelink (ro (fst so)))"
    by (cases "n = ''TRACE_PRELINKING''")
      (simp_all add: plain_rules if_distrib [of "\<lambda>s. dl_trace_prelink (ro s)"] cong: if_cong split del: if_split)
  finally show "dl_trace_prelink (ro (fst so')) = (if n = ''TRACE_PRELINKING'' then (\<lambda>v _. Some v) v (dl_trace_prelink (ro (fst so))) else dl_trace_prelink (ro (fst so)))" .
qed simp

interpretation profile_var: nonempty_field secure "''PROFILE''" "\<lambda>so. dl_profile (ro (fst so))" "\<lambda>v a. if v = [] then a else Some v" "Some"
  for secure
proof unfold_locales
  fix n v so so'
  assume "set_var secure n v so = Done so'"
  then have "dl_profile (ro (fst so')) = dl_profile (ro (set_plain secure n v (fst so)))"
    by (rule set_var_plain) simp_all
  also have "\<dots> = (if n = ''PROFILE'' then (\<lambda>v a. if v = [] then a else Some v) v (dl_profile (ro (fst so))) else dl_profile (ro (fst so)))"
    by (cases "v = []"; cases "n = ''PROFILE''")
      (simp_all add: plain_rules if_distrib [of "\<lambda>s. dl_profile (ro s)"] cong: if_cong split del: if_split)
  finally show "dl_profile (ro (fst so')) = (if n = ''PROFILE'' then (\<lambda>v a. if v = [] then a else Some v) v (dl_profile (ro (fst so))) else dl_profile (ro (fst so)))" .
qed simp

interpretation weak_var: last_field False "''DYNAMIC_WEAK''" "\<lambda>so. dl_dynamic_weak (ro (fst so))" "\<lambda>_ _. True" "\<lambda>_. True"
proof unfold_locales
  fix n v so so'
  assume "set_var False n v so = Done so'"
  then have "dl_dynamic_weak (ro (fst so')) = dl_dynamic_weak (ro (set_plain False n v (fst so)))"
    by (rule set_var_plain) simp_all
  also have "\<dots> = (if n = ''DYNAMIC_WEAK'' then (\<lambda>_ _. True) v (dl_dynamic_weak (ro (fst so))) else dl_dynamic_weak (ro (fst so)))"
    by (cases "n = ''DYNAMIC_WEAK''")
      (simp_all add: plain_rules if_distrib [of "\<lambda>s. dl_dynamic_weak (ro s)"] cong: if_cong split del: if_split)
  finally show "dl_dynamic_weak (ro (fst so')) = (if n = ''DYNAMIC_WEAK'' then (\<lambda>_ _. True) v (dl_dynamic_weak (ro (fst so))) else dl_dynamic_weak (ro (fst so)))" .
qed simp

interpretation bias_var: last_field False "''USE_LOAD_BIAS''" "\<lambda>so. dl_use_load_bias (ro (fst so))" "\<lambda>v _. if cget v 0 = CHR ''1'' then - 1 else 0" "\<lambda>v. if cget v 0 = CHR ''1'' then - 1 else 0"
proof unfold_locales
  fix n v so so'
  assume "set_var False n v so = Done so'"
  then have "dl_use_load_bias (ro (fst so')) = dl_use_load_bias (ro (set_plain False n v (fst so)))"
    by (rule set_var_plain) simp_all
  also have "\<dots> = (if n = ''USE_LOAD_BIAS'' then (\<lambda>v _. if cget v 0 = CHR ''1'' then - 1 else 0) v (dl_use_load_bias (ro (fst so))) else dl_use_load_bias (ro (fst so)))"
    by (cases "n = ''USE_LOAD_BIAS''")
      (simp_all add: plain_rules if_distrib [of "\<lambda>s. dl_use_load_bias (ro s)"] cong: if_cong split del: if_split)
  finally show "dl_use_load_bias (ro (fst so')) = (if n = ''USE_LOAD_BIAS'' then (\<lambda>v _. if cget v 0 = CHR ''1'' then - 1 else 0) v (dl_use_load_bias (ro (fst so))) else dl_use_load_bias (ro (fst so)))" .
qed simp

interpretation output_var: nonempty_field False "''PROFILE_OUTPUT''" "\<lambda>so. dl_profile_output (ro (fst so))" "\<lambda>v a. if v = [] then a else v" "\<lambda>v. v"
proof unfold_locales
  fix n v so so'
  assume "set_var False n v so = Done so'"
  then have "dl_profile_output (ro (fst so')) = dl_profile_output (ro (set_plain False n v (fst so)))"
    by (rule set_var_plain) simp_all
  also have "\<dots> = (if n = ''PROFILE_OUTPUT'' then (\<lambda>v a. if v = [] then a else v) v (dl_profile_output (ro (fst so))) else dl_profile_output (ro (fst so)))"
    by (cases "v = []"; cases "n = ''PROFILE_OUTPUT''")
      (simp_all add: plain_rules if_distrib [of "\<lambda>s. dl_profile_output (ro s)"] cong: if_cong split del: if_split)
  finally show "dl_profile_output (ro (fst so')) = (if n = ''PROFILE_OUTPUT'' then (\<lambda>v a. if v = [] then a else v) v (dl_profile_output (ro (fst so))) else dl_profile_output (ro (fst so)))" .
qed simp

section \<open>Ends of the loop\<close>

definition audit_values :: "(string \<times> string) list \<Rightarrow> string list" where
  "audit_values vs = filter (\<lambda>v. v \<noteq> []) (map snd (filter (\<lambda>(n, _). n = ''AUDIT'') vs))"

lemma set_var_audit_kept:
  assumes "set_var secure n v so = Done so'" "n \<noteq> ''AUDIT''"
  shows "main_audit_list (main_state (fst so')) = main_audit_list (main_state (fst so))"
proof -
  obtain st out where so: "so = (st, out)" by (cases so)
  consider "n = ''DEBUG''" | "n = ''DEBUG_OUTPUT''" | "n \<noteq> ''DEBUG''" "n \<noteq> ''DEBUG_OUTPUT''" by blast
  then show ?thesis
  proof cases
    case 1
    with assms(1) obtain st' where "process_dl_debug v st = Done st'" "so' = (st', out)"
      by (auto simp: so set_var_def run_bind_Done_iff)
    then show ?thesis by (auto simp: so dest!: process_dl_debug_Done)
  next
    case 2
    with assms(1) show ?thesis by (auto simp: so set_var_def)
  next
    case 3
    with assms have "fst so' = set_plain secure n v st" by (auto simp: so set_var_def)
    also have "main_audit_list (main_state (set_plain secure n v st)) = main_audit_list (main_state st)"
      by (simp add: plain_rules if_distrib [of "\<lambda>s. main_audit_list (main_state s)"] cong: if_cong split del: if_split)
    finally show ?thesis by (simp add: so)
  qed
qed

lemma set_var_ends:
  assumes "audit_fresh (main_audit_list (main_state (fst so)))"
  shows "case set_var secure n v so of
      Done so' \<Rightarrow> audit_fresh (main_audit_list (main_state (fst so'))) \<and>
        audit_strings (main_audit_list (main_state (fst so'))) =
          audit_strings (main_audit_list (main_state (fst so))) @ audit_values [(n, v)]
    | Exit x \<Rightarrow> x = 0 \<and> n = ''DEBUG'' \<or>
        x = 127 \<and> length (audit_strings (main_audit_list (main_state (fst so)))) = 16 \<and> audit_values [(n, v)] = [v]
    | Undef _ \<Rightarrow> False"
proof -
  obtain st out where so: "so = (st, out)" by (cases so)
  consider "n = ''AUDIT''" | "n = ''DEBUG''" | "n \<noteq> ''DEBUG''" "n \<noteq> ''AUDIT''" by blast
  then show ?thesis
  proof cases
    case 1
    with audit_list_add_string_fresh [of "main_audit_list (main_state st)" v] assms show ?thesis
      by (auto simp: so set_var_def audit_values_def upd_main_def split: sum.splits)
  next
    case 2
    show ?thesis
    proof (cases "set_var secure n v so")
      case (Done so')
      with set_var_audit_kept [OF Done] 2 assms show ?thesis by (simp add: audit_values_def)
    next
      case (Exit x)
      with 2 show ?thesis
        by (auto simp: so set_var_def process_dl_debug_def run_bind_def Let_def split: prod.splits if_splits)
    next
      case (Undef e)
      with 2 show ?thesis
        by (auto simp: so set_var_def process_dl_debug_def run_bind_def Let_def split: prod.splits if_splits)
    qed
  next
    case 3
    then obtain so' where d: "set_var secure n v so = Done so'" by (cases "n = ''DEBUG_OUTPUT''") (auto simp: so set_var_def)
    with set_var_audit_kept [OF d] 3 assms show ?thesis by (simp add: audit_values_def)
  qed
qed

lemma audit_values_Cons: "audit_values (nv # vs) = audit_values [nv] @ audit_values vs"
  by (cases nv) (simp add: audit_values_def)

lemma set_vars_ends:
  assumes "audit_fresh (main_audit_list (main_state (fst so)))"
  shows "case set_vars secure vs so of
      Done so' \<Rightarrow> audit_fresh (main_audit_list (main_state (fst so'))) \<and>
        audit_strings (main_audit_list (main_state (fst so'))) =
          audit_strings (main_audit_list (main_state (fst so))) @ audit_values vs
    | Exit x \<Rightarrow> x = 0 \<and> ''DEBUG'' \<in> fst ` set vs \<or>
        x = 127 \<and> 16 < length (audit_strings (main_audit_list (main_state (fst so))) @ audit_values vs)
    | Undef _ \<Rightarrow> False"
  using assms
proof (induction vs arbitrary: so)
  case Nil
  then show ?case by (simp add: audit_values_def)
next
  case (Cons nv vs)
  obtain n v where nv: "nv = (n, v)" by (cases nv)
  note e = set_var_ends [OF Cons.prems, where secure = secure and n = n and v = v]
  show ?case
  proof (cases "set_var secure n v so")
    case (Done so1)
    with e have fresh: "audit_fresh (main_audit_list (main_state (fst so1)))" by simp
    from Cons.IH [OF fresh] Done e show ?thesis
      by (auto simp: nv audit_values_Cons [of "(n, v)" vs] split: run.splits)
  next
    case (Exit x)
    with e show ?thesis by (auto simp: nv audit_values_Cons [of "(n, v)" vs])
  next
    case (Undef x)
    with e show ?thesis by simp
  qed
qed

section \<open>Removal of unsafe variables\<close>

lemma names_var_iff: "names_var name e \<longleftrightarrow> (\<exists>w. e = name @ CHR ''='' # w)"
proof (induction name e rule: names_var.induct)
  case (1 ep)
  then show ?case by (cases ep) auto
qed auto

lemma unsetenv_filter: "unsetenv name env = filter (\<lambda>e. \<not> names_var name e) env"
  by (induction env) auto

lemma fold_unsetenv: "fold unsetenv names env = filter (\<lambda>e. \<not> (\<exists>n \<in> set names. names_var n e)) env"
  by (induction names arbitrary: env) (auto simp: unsetenv_filter intro: filter_cong)

lemma digits_value_grows: "is_digits 10 ds \<Longrightarrow> v * 10 ^ length ds \<le> digits_value 10 v ds"
proof (induction ds arbitrary: v)
  case (Cons c ds)
  then obtain d where d: "digit_value c = Some d" by auto
  have "v * 10 ^ length (c # ds) \<le> (v * 10 + d) * 10 ^ length ds" by (simp add: algebra_simps)
  also have "\<dots> \<le> digits_value 10 (v * 10 + d) ds" using Cons by simp
  finally show ?case using d by simp
qed simp

lemma digit_value_zero: "digit_value c = Some 0 \<Longrightarrow> c = CHR ''0''"
proof -
  assume "digit_value c = Some 0"
  then have "ord c = ord (CHR ''0'')" by (auto simp: digit_value_def split: if_splits)
  then show ?thesis by (simp only: of_char_eq_iff)
qed

lemma itoa_short:
  assumes "0 < v" "v < 10 ^ 10"
  shows "\<exists>ds. itoa v 10 False = Inr ds \<and> length ds \<le> 10"
proof -
  obtain ds where ds: "itoa v 10 False = Inr ds" "ds \<noteq> []" "is_digits 10 ds" "digits_value 10 0 ds = v"
    "v \<noteq> 0 \<Longrightarrow> hd ds \<noteq> CHR ''0''"
    using itoa_decimal by blast
  obtain c cs where c: "ds = c # cs" using ds(2) by (cases ds) auto
  with ds(3) obtain d where d: "digit_value c = Some d" "is_digits 10 cs" by auto
  then have "0 < d" using ds(5) assms(1) c digit_value_zero by (cases d) auto
  have "10 ^ length cs \<le> d * 10 ^ length cs" using \<open>0 < d\<close> by simp
  also have "\<dots> \<le> digits_value 10 d cs" using d(2) by (rule digits_value_grows)
  also have "\<dots> = v" using ds(4) c d by simp
  finally have "(10::nat) ^ length cs < 10 ^ 10" using assms(2) by simp
  then have "length cs < 10" using power_less_imp_less_exp [of 10 "length cs" 10] by simp
  with ds(1) c show ?thesis by simp
qed

text \<open>The mode changes only with the variables for tracing.\<close>

definition trace_vars :: "string list" where
  "trace_vars = [''TRACE_PRELINKING'', ''TRACE_LOADED_OBJECTS'']"

lemma set_vars_mode:
  "set_vars secure vs so = Done so' \<Longrightarrow> \<forall>n \<in> set trace_vars. map_of vs n = None \<Longrightarrow>
     mode (main_state (fst so')) = mode (main_state (fst so))"
proof (induction vs arbitrary: so)
  case (Cons nv vs)
  obtain n v where nv: "nv = (n, v)" by (cases nv)
  with Cons.prems obtain so1 where so1: "set_var secure n v so = Done so1" "set_vars secure vs so1 = Done so'"
    by (auto simp: run_bind_Done_iff)
  have n: "n \<noteq> ''TRACE_PRELINKING''" "n \<noteq> ''TRACE_LOADED_OBJECTS''" and rest: "\<forall>n \<in> set trace_vars. map_of vs n = None"
    using Cons.prems(2) by (auto simp: nv trace_vars_def split: if_splits)
  have "mode (main_state (fst so1)) = mode (main_state (set_plain secure n v (fst so)))"
    using so1(1) by (rule set_var_plain) simp_all
  also have "\<dots> = mode (main_state (fst so))" using n
    by (simp add: plain_rules if_distrib [of "\<lambda>s. mode (main_state s)"] cong: if_cong split del: if_split)
  finally show ?case using Cons.IH [OF so1(2) rest] by simp
qed simp

text \<open>\<open>LD_DEBUG=unused\<close> binds at start as well, and \<open>LD_TRACE_PRELINKING\<close> asks for warnings as well.\<close>

lemma set_var_no_debug:
  assumes "set_var secure n v so = Done so'" "n \<noteq> ''DEBUG''"
    and audit: "\<And>st l. f (st\<lparr>main_state := (main_state st)\<lparr>main_audit_list := l\<rparr>\<rparr>) = f st"
  shows "f (fst so') = f (set_plain secure n v (fst so))"
proof -
  obtain st out where so: "so = (st, out)" by (cases so)
  show ?thesis
  proof (cases "n = ''AUDIT''")
    case True
    then have "set_plain secure n v st = st" by (simp add: set_plain_def)
    then show ?thesis using assms True by (auto simp: so set_var_def upd_main_def split: sum.splits)
  next
    case False
    moreover have "set_plain secure n v st = st" if "n = ''DEBUG_OUTPUT''" using that by (simp add: set_plain_def)
    ultimately show ?thesis using assms(1,2) by (auto simp: so set_var_def split: if_splits)
  qed
qed

lemma set_vars_lazy:
  "set_vars secure vs so = Done so' \<Longrightarrow> map_of vs ''DEBUG'' = None \<Longrightarrow>
     dl_lazy (ro (fst so')) =
       (case map_of (rev vs) ''BIND_NOW'' of None \<Rightarrow> dl_lazy (ro (fst so)) | Some v \<Rightarrow> if v = [] then 1 else 0)"
proof (induction vs arbitrary: so)
  case (Cons nv vs)
  obtain n v where nv: "nv = (n, v)" by (cases nv)
  with Cons.prems obtain so1 where so1: "set_var secure n v so = Done so1" "set_vars secure vs so1 = Done so'"
    by (auto simp: run_bind_Done_iff)
  have n: "n \<noteq> ''DEBUG''" and rest: "map_of vs ''DEBUG'' = None" using Cons.prems(2) nv by (auto split: if_splits)
  have "dl_lazy (ro (fst so1)) = dl_lazy (ro (set_plain secure n v (fst so)))"
    using so1(1) n by (rule set_var_no_debug) simp
  also have "\<dots> = (if n = ''BIND_NOW'' then if v = [] then 1 else 0 else dl_lazy (ro (fst so)))"
    by (cases "n = ''BIND_NOW''")
      (simp_all add: plain_rules if_distrib [of "\<lambda>s. dl_lazy (ro s)"] cong: if_cong split del: if_split)
  finally show ?case using Cons.IH [OF so1(2) rest] nv by (auto simp: map_add_def split: option.splits)
qed simp

lemma set_vars_verbose:
  "set_vars secure vs so = Done so' \<Longrightarrow> map_of vs ''TRACE_PRELINKING'' = None \<Longrightarrow>
     dl_verbose (ro (fst so')) =
       (case map_of (rev vs) ''WARN'' of None \<Rightarrow> dl_verbose (ro (fst so)) | Some v \<Rightarrow> v \<noteq> [])"
proof (induction vs arbitrary: so)
  case (Cons nv vs)
  obtain n v where nv: "nv = (n, v)" by (cases nv)
  with Cons.prems obtain so1 where so1: "set_var secure n v so = Done so1" "set_vars secure vs so1 = Done so'"
    by (auto simp: run_bind_Done_iff)
  have n: "n \<noteq> ''TRACE_PRELINKING''" and rest: "map_of vs ''TRACE_PRELINKING'' = None"
    using Cons.prems(2) nv by (auto split: if_splits)
  have "dl_verbose (ro (fst so1)) = dl_verbose (ro (set_plain secure n v (fst so)))"
    using so1(1) by (rule set_var_plain) simp_all
  also have "\<dots> = (if n = ''WARN'' then v \<noteq> [] else dl_verbose (ro (fst so)))"
    using n by (cases "n = ''WARN''")
      (simp_all add: plain_rules if_distrib [of "\<lambda>s. dl_verbose (ro s)"] cong: if_cong split del: if_split)
  finally show ?case using Cons.IH [OF so1(2) rest] nv by (auto simp: map_add_def split: option.splits)
qed simp

definition env_last :: "string \<Rightarrow> string list \<Rightarrow> string option" where
  "env_last n env = map_of (rev (ld_vars env)) n"

definition last_or :: "string option \<Rightarrow> string option \<Rightarrow> string option" where
  "last_or old new = (case new of None \<Rightarrow> old | Some v \<Rightarrow> Some v)"

text \<open>The last value that is not empty.\<close>

definition env_last_nonempty :: "string \<Rightarrow> string list \<Rightarrow> string option" where
  "env_last_nonempty n env = map_of (rev (filter (\<lambda>(_, v). v \<noteq> []) (ld_vars env))) n"

lemma env_last_None: "env_last n env = None \<longleftrightarrow> map_of (ld_vars env) n = None"
  by (simp add: env_last_def map_of_eq_None_iff)

text \<open>The state before the loop.\<close>

definition env_start :: "env_kernel \<Rightarrow> rtld_state \<Rightarrow> rtld_state" where
  "env_start k st = upd_ro (\<lambda>r. r\<lparr>dl_profile_output := (if enable_secure k then ''/var/profile'' else ''/var/tmp'')\<rparr>) st"

lemma env_start_simps [simp]: "main_state (env_start k st) = main_state st" "environ (env_start k st) = environ st"
  by (simp_all add: env_start_def upd_ro_def)

lemma env_start_ro [simp]:
  "dl_verbose (ro (env_start k st)) = dl_verbose (ro st)" "dl_lazy (ro (env_start k st)) = dl_lazy (ro st)"
  "dl_bind_not (ro (env_start k st)) = dl_bind_not (ro st)" "dl_profile (ro (env_start k st)) = dl_profile (ro st)"
  "dl_trace_prelink (ro (env_start k st)) = dl_trace_prelink (ro st)"
  "dl_dynamic_weak (ro (env_start k st)) = dl_dynamic_weak (ro st)"
  "dl_use_load_bias (ro (env_start k st)) = dl_use_load_bias (ro st)"
  "dl_profile_output (ro (env_start k st)) = (if enable_secure k then ''/var/profile'' else ''/var/tmp'')"
  by (simp_all add: env_start_def upd_ro_def)

text \<open>After the loop only the environment, the debugging mask and the debugging descriptor change.\<close>

lemma process_envvars_after:
  assumes "list_all nul_free (environ st)" "0 < getpid k" "getpid k < 10 ^ 10"
  shows "case set_vars (enable_secure k) (ld_vars (environ st)) (env_start k st, None) of
      Done (st1, out) \<Rightarrow>
        if enable_secure k then process_envvars k st = secure_cleanup k st1
        else \<exists>fd. process_envvars k st = Done (upd_ro (\<lambda>r. r\<lparr>dl_debug_fd := fd\<rparr>) st1)
    | Exit x \<Rightarrow> process_envvars k st = Exit x
    | Undef e \<Rightarrow> process_envvars k st = Undef e"
proof -
  have eq: "process_envvars k st =
      run_bind (set_vars (enable_secure k) (ld_vars (environ st)) (env_start k st, None)) (\<lambda>(st, debug_output).
        if enable_secure k then secure_cleanup k st
        else if any_debug (main_state st) \<and> debug_output \<noteq> None then open_debug_output k (the debug_output) st
        else Done st)"
    using process_env_loop_vars [OF assms(1)] env_start_simps(2) [of k st]
    by (simp add: process_envvars_def Let_def flip: env_start_def)
  obtain ds where "itoa (getpid k) 10 False = Inr ds" "length ds \<le> 10" using itoa_short assms(2,3) by blast
  then have opened: "\<exists>fd. open_debug_output k name s = Done (upd_ro (\<lambda>r. r\<lparr>dl_debug_fd := fd\<rparr>) s)" for name s
    by (auto simp: open_debug_output_def debug_file_name_def Let_def)
  have kept: "\<exists>fd. Done s = Done (upd_ro (\<lambda>r. r\<lparr>dl_debug_fd := fd\<rparr>) s)" for s :: rtld_state
    by (intro exI [of _ "dl_debug_fd (ro s)"]) (simp add: upd_ro_def)
  show ?thesis
  proof (cases "set_vars (enable_secure k) (ld_vars (environ st)) (env_start k st, None)")
    case (Done so)
    then show ?thesis using eq opened kept by (cases so) simp
  qed (use eq in simp_all)
qed

section \<open>What the variables do\<close>

lemma process_envvars_cases:
  assumes env: "list_all nul_free (environ st)" and pid: "0 < getpid k" "getpid k < 2 ^ 31"
    and fresh: "audit_fresh (main_audit_list (main_state st))"
  shows "case process_envvars k st of
      Done st' \<Rightarrow>
        library_path_fds (main_state st') = last_or (library_path_fds (main_state st)) (env_last ''LIBRARY_PATH_FDS'' (environ st)) \<and>
        capsicum (main_state st') =
          (if env_last ''LIBRARY_PATH_FDS'' (environ st) = None then capsicum (main_state st) else Some True) \<and>
        preloadlist (main_state st') = last_or (preloadlist (main_state st)) (env_last ''PRELOAD'' (environ st)) \<and>
        library_path (main_state st') =
          (if enable_secure k then library_path (main_state st)
           else last_or (library_path (main_state st)) (env_last ''LIBRARY_PATH'' (environ st))) \<and>
        dl_origin_path (ro st') =
          (if enable_secure k then dl_origin_path (ro st)
           else last_or (dl_origin_path (ro st)) (env_last ''ORIGIN_PATH'' (environ st))) \<and>
        audit_strings (main_audit_list (main_state st')) =
          audit_strings (main_audit_list (main_state st)) @ audit_values (ld_vars (environ st)) \<and>
        exec_fd (main_state st') = exec_fd (main_state st) \<and>
        ((\<exists>n \<in> set trace_vars. env_last n (environ st) \<noteq> None) \<or> mode (main_state st') = mode (main_state st))
    | Exit x \<Rightarrow>
        x = 0 \<and> env_last ''DEBUG'' (environ st) \<noteq> None \<or>
        x = 127 \<and> 16 < length (audit_strings (main_audit_list (main_state st)) @ audit_values (ld_vars (environ st))) \<or>
        x = 5 \<and> enable_secure k \<and>
          (mode (main_state st) \<noteq> rtld_mode_normal \<or> (\<exists>n \<in> set trace_vars. env_last n (environ st) \<noteq> None))
    | Undef _ \<Rightarrow> False"
proof -
  have "getpid k < 10 ^ 10" using pid(2) by simp
  note after = process_envvars_after [OF env pid(1) this]
  let ?vs = "ld_vars (environ st)" and ?so = "(env_start k st, None)"
  have ends: "case set_vars (enable_secure k) ?vs ?so of
      Done so' \<Rightarrow> audit_fresh (main_audit_list (main_state (fst so'))) \<and>
        audit_strings (main_audit_list (main_state (fst so'))) = audit_strings (main_audit_list (main_state st)) @ audit_values ?vs
    | Exit x \<Rightarrow> x = 0 \<and> ''DEBUG'' \<in> fst ` set ?vs \<or>
        x = 127 \<and> 16 < length (audit_strings (main_audit_list (main_state st)) @ audit_values ?vs)
    | Undef _ \<Rightarrow> False"
    using set_vars_ends [where so = ?so and secure = "enable_secure k" and vs = ?vs, unfolded fst_conv env_start_simps, OF fresh] .
  show ?thesis
  proof (cases "set_vars (enable_secure k) ?vs ?so")
    case (Done so')
    obtain st1 out where so': "so' = (st1, out)" by (cases so')
    note run = Done [unfolded so']
    have vals: "library_path_fds (main_state st1) = last_or (library_path_fds (main_state st)) (env_last ''LIBRARY_PATH_FDS'' (environ st))"
        "capsicum (main_state st1) = (if env_last ''LIBRARY_PATH_FDS'' (environ st) = None then capsicum (main_state st) else Some True)"
        "preloadlist (main_state st1) = last_or (preloadlist (main_state st)) (env_last ''PRELOAD'' (environ st))"
      using fds_var.last_value [OF run] capsicum_var.last_value [OF run] preload_var.last_value [OF run]
      by (simp_all add: env_last_def last_or_def split: option.splits)
    have audit: "audit_strings (main_audit_list (main_state st1)) = audit_strings (main_audit_list (main_state st)) @ audit_values ?vs"
      using ends run by simp
    have exec: "exec_fd (main_state st1) = exec_fd (main_state st)" using exec_kept.kept_value [OF run] by simp
    have traced: "(\<exists>n \<in> set trace_vars. env_last n (environ st) \<noteq> None) \<or> mode (main_state st1) = mode (main_state st)"
      using set_vars_mode [OF run] env_last_None by fastforce
    show ?thesis
    proof (cases "enable_secure k")
      case False
      from run False have plain: "set_vars False ?vs ?so = Done (st1, out)" by simp
      obtain fd where "process_envvars k st = Done (upd_ro (\<lambda>r. r\<lparr>dl_debug_fd := fd\<rparr>) st1)"
        using after run False by auto
      moreover have "library_path (main_state st1) = last_or (library_path (main_state st)) (env_last ''LIBRARY_PATH'' (environ st))"
          "dl_origin_path (ro st1) = last_or (dl_origin_path (ro st)) (env_last ''ORIGIN_PATH'' (environ st))"
        using path_var.last_value [OF plain] origin_var.last_value [OF plain]
        by (simp_all add: env_last_def last_or_def env_start_def upd_ro_def split: option.splits)
      ultimately show ?thesis using vals audit exec traced False by (simp add: upd_ro_def)
    next
      case True
      have "process_envvars k st = secure_cleanup k st1" using after run True by simp
      moreover have "guarded st1 = guarded (env_start k st)"
        using guarded_vars.kept_value [of ?vs ?so "(st1, out)"] run True by simp
      then have "library_path (main_state st1) = library_path (main_state st)" "dl_origin_path (ro st1) = dl_origin_path (ro st)"
        by (simp_all add: guarded_def env_start_def upd_ro_def)
      ultimately show ?thesis using vals audit exec traced True by (auto simp: secure_cleanup_def upd_ro_def Let_def)
    qed
  next
    case (Exit x)
    with after ends have "process_envvars k st = Exit x" by simp
    then show ?thesis using ends Exit by (auto simp: env_last_None map_of_eq_None_iff)
  next
    case (Undef e)
    with ends show ?thesis by simp
  qed
qed

lemma process_envvars_flags:
  assumes env: "list_all nul_free (environ st)" and pid: "0 < getpid k" "getpid k < 2 ^ 31"
    and fresh: "audit_fresh (main_audit_list (main_state st))" and run: "process_envvars k st = Done st'"
  shows "version_info (main_state st') =
          (case env_last ''VERBOSE'' (environ st) of None \<Rightarrow> version_info (main_state st) | Some v \<Rightarrow> v \<noteq> []) \<and>
        dl_bind_not (ro st') = (case env_last ''BIND_NOT'' (environ st) of None \<Rightarrow> dl_bind_not (ro st) | Some v \<Rightarrow> v \<noteq> []) \<and>
        dl_trace_prelink (ro st') = last_or (dl_trace_prelink (ro st)) (env_last ''TRACE_PRELINKING'' (environ st)) \<and>
        dl_profile (ro st') = last_or (dl_profile (ro st)) (env_last_nonempty ''PROFILE'' (environ st)) \<and>
        (env_last ''DEBUG'' (environ st) = None \<longrightarrow> dl_lazy (ro st') =
          (case env_last ''BIND_NOW'' (environ st) of None \<Rightarrow> dl_lazy (ro st) | Some v \<Rightarrow> if v = [] then 1 else 0)) \<and>
        (env_last ''TRACE_PRELINKING'' (environ st) = None \<longrightarrow> dl_verbose (ro st') =
          (case env_last ''WARN'' (environ st) of None \<Rightarrow> dl_verbose (ro st) | Some v \<Rightarrow> v \<noteq> [])) \<and>
        (if enable_secure k
         then dl_dynamic_weak (ro st') = dl_dynamic_weak (ro st) \<and> dl_use_load_bias (ro st') = dl_use_load_bias (ro st) \<and>
           dl_profile_output (ro st') = ''/var/profile''
         else dl_dynamic_weak (ro st') = (env_last ''DYNAMIC_WEAK'' (environ st) \<noteq> None \<or> dl_dynamic_weak (ro st)) \<and>
           dl_use_load_bias (ro st') =
             (case env_last ''USE_LOAD_BIAS'' (environ st) of
                None \<Rightarrow> dl_use_load_bias (ro st) | Some v \<Rightarrow> if cget v 0 = CHR ''1'' then - 1 else 0) \<and>
           dl_profile_output (ro st') =
             (case env_last_nonempty ''PROFILE_OUTPUT'' (environ st) of None \<Rightarrow> ''/var/tmp'' | Some v \<Rightarrow> v))"
proof -
  have "getpid k < 10 ^ 10" using pid(2) by simp
  note after = process_envvars_after [OF env pid(1) this]
  let ?vs = "ld_vars (environ st)" and ?so = "(env_start k st, None)"
  obtain st1 out where vars: "set_vars (enable_secure k) ?vs ?so = Done (st1, out)"
    using after run by (cases "set_vars (enable_secure k) ?vs ?so") auto
  have same: "main_state st' = main_state st1 \<and> (\<exists>m fd. ro st' = (ro st1)\<lparr>dl_debug_mask := m, dl_debug_fd := fd\<rparr>)"
  proof (cases "enable_secure k")
    case True
    then have "secure_cleanup k st1 = Done st'" using after run vars by simp
    then have "main_state st' = main_state st1 \<and> ro st' = (ro st1)\<lparr>dl_debug_mask := dl_debug_mask (ro st')\<rparr>"
      by (auto simp: secure_cleanup_def upd_ro_def Let_def split: if_splits)
    then show ?thesis by (metis rtld_ro.surjective rtld_ro.update_convs(2) rtld_ro.update_convs(12))
  next
    case False
    then obtain fd where "st' = upd_ro (\<lambda>r. r\<lparr>dl_debug_fd := fd\<rparr>) st1" using after run vars by auto
    then show ?thesis by (auto simp: upd_ro_def intro!: exI [of _ "dl_debug_mask (ro st1)"])
  qed
  have kept: "version_info (main_state st') = version_info (main_state st1)" "dl_bind_not (ro st') = dl_bind_not (ro st1)"
      "dl_trace_prelink (ro st') = dl_trace_prelink (ro st1)" "dl_profile (ro st') = dl_profile (ro st1)"
      "dl_lazy (ro st') = dl_lazy (ro st1)" "dl_verbose (ro st') = dl_verbose (ro st1)"
      "dl_dynamic_weak (ro st') = dl_dynamic_weak (ro st1)" "dl_use_load_bias (ro st') = dl_use_load_bias (ro st1)"
      "dl_profile_output (ro st') = dl_profile_output (ro st1)"
    using same by auto
  have debug: "map_of ?vs ''DEBUG'' = None" if "env_last ''DEBUG'' (environ st) = None" using that env_last_None by simp
  have prelink: "map_of ?vs ''TRACE_PRELINKING'' = None" if "env_last ''TRACE_PRELINKING'' (environ st) = None"
    using that env_last_None by simp
  note lasts = verbose_var.last_value [OF vars] bind_not_var.last_value [OF vars] prelink_var.last_value [OF vars]
    profile_var.last_nonempty [OF vars]
  note flags = lasts [unfolded fst_conv env_start_simps env_start_ro, folded env_last_def env_last_nonempty_def]
  have secure_part: "dl_dynamic_weak (ro st1) = dl_dynamic_weak (ro st) \<and> dl_use_load_bias (ro st1) = dl_use_load_bias (ro st) \<and>
      dl_profile_output (ro st1) = ''/var/profile''" if secure: "enable_secure k"
    using guarded_vars.kept_value [of ?vs ?so "(st1, out)"] vars secure by (simp add: guarded_def)
  have plain_part: "dl_dynamic_weak (ro st1) = (env_last ''DYNAMIC_WEAK'' (environ st) \<noteq> None \<or> dl_dynamic_weak (ro st)) \<and>
      dl_use_load_bias (ro st1) = (case env_last ''USE_LOAD_BIAS'' (environ st) of
          None \<Rightarrow> dl_use_load_bias (ro st) | Some v \<Rightarrow> if cget v 0 = CHR ''1'' then - 1 else 0) \<and>
      dl_profile_output (ro st1) = (case env_last_nonempty ''PROFILE_OUTPUT'' (environ st) of None \<Rightarrow> ''/var/tmp'' | Some v \<Rightarrow> v)"
    if plain: "\<not> enable_secure k"
  proof -
    have run': "set_vars False ?vs ?so = Done (st1, out)" using vars plain by simp
    show ?thesis using weak_var.last_value [OF run'] bias_var.last_value [OF run'] output_var.last_nonempty [OF run'] plain
      by (auto simp: env_last_def env_last_nonempty_def split: option.splits)
  qed
  show ?thesis
    unfolding kept
    using flags set_vars_lazy [OF vars debug] set_vars_verbose [OF vars prelink] secure_part plain_part
    by (simp add: last_or_def env_last_def split: option.splits)
qed

text \<open>C7: after the environment has been read, the library path, the directories of LD_LIBRARY_PATH_FDS, the preloaded
  objects, the path of the origin, the flags of LD_VERBOSE, LD_BIND_NOT and LD_USE_LOAD_BIAS and the program of
  LD_TRACE_PRELINKING are those of the last assignment of their variable; so are the flags of LD_BIND_NOW and LD_WARN if there
  is no LD_DEBUG and no LD_TRACE_PRELINKING.  The object to profile and the directory for the profile are those of the last
  assignment that is not empty, LD_DYNAMIC_WEAK counts if it occurs, and the auditing modules are those of all assignments in
  order.  A secure process takes no library path, origin, load bias, weak flag or profile directory from a variable, but it takes
  LD_LIBRARY_PATH_FDS.  The process ends before that only for a debugging option, for more than 16 auditing strings, or, if it
  is secure, when tracing is asked for.\<close>

theorem process_envvars_values:
  assumes env: "list_all nul_free (environ st)" and pid: "0 < getpid k" "getpid k < 2 ^ 31"
    and fresh: "audit_fresh (main_audit_list (main_state st))"
  shows "case process_envvars k st of
      Done st' \<Rightarrow>
        library_path_fds (main_state st') = last_or (library_path_fds (main_state st)) (env_last ''LIBRARY_PATH_FDS'' (environ st)) \<and>
        capsicum (main_state st') =
          (if env_last ''LIBRARY_PATH_FDS'' (environ st) = None then capsicum (main_state st) else Some True) \<and>
        preloadlist (main_state st') = last_or (preloadlist (main_state st)) (env_last ''PRELOAD'' (environ st)) \<and>
        library_path (main_state st') =
          (if enable_secure k then library_path (main_state st)
           else last_or (library_path (main_state st)) (env_last ''LIBRARY_PATH'' (environ st))) \<and>
        dl_origin_path (ro st') =
          (if enable_secure k then dl_origin_path (ro st)
           else last_or (dl_origin_path (ro st)) (env_last ''ORIGIN_PATH'' (environ st))) \<and>
        audit_strings (main_audit_list (main_state st')) =
          audit_strings (main_audit_list (main_state st)) @ audit_values (ld_vars (environ st)) \<and>
        exec_fd (main_state st') = exec_fd (main_state st) \<and>
        ((\<exists>n \<in> set trace_vars. env_last n (environ st) \<noteq> None) \<or> mode (main_state st') = mode (main_state st)) \<and>
        version_info (main_state st') =
          (case env_last ''VERBOSE'' (environ st) of None \<Rightarrow> version_info (main_state st) | Some v \<Rightarrow> v \<noteq> []) \<and>
        dl_bind_not (ro st') = (case env_last ''BIND_NOT'' (environ st) of None \<Rightarrow> dl_bind_not (ro st) | Some v \<Rightarrow> v \<noteq> []) \<and>
        dl_trace_prelink (ro st') = last_or (dl_trace_prelink (ro st)) (env_last ''TRACE_PRELINKING'' (environ st)) \<and>
        dl_profile (ro st') = last_or (dl_profile (ro st)) (env_last_nonempty ''PROFILE'' (environ st)) \<and>
        (env_last ''DEBUG'' (environ st) = None \<longrightarrow> dl_lazy (ro st') =
          (case env_last ''BIND_NOW'' (environ st) of None \<Rightarrow> dl_lazy (ro st) | Some v \<Rightarrow> if v = [] then 1 else 0)) \<and>
        (env_last ''TRACE_PRELINKING'' (environ st) = None \<longrightarrow> dl_verbose (ro st') =
          (case env_last ''WARN'' (environ st) of None \<Rightarrow> dl_verbose (ro st) | Some v \<Rightarrow> v \<noteq> [])) \<and>
        (if enable_secure k
         then dl_dynamic_weak (ro st') = dl_dynamic_weak (ro st) \<and> dl_use_load_bias (ro st') = dl_use_load_bias (ro st) \<and>
           dl_profile_output (ro st') = ''/var/profile''
         else dl_dynamic_weak (ro st') = (env_last ''DYNAMIC_WEAK'' (environ st) \<noteq> None \<or> dl_dynamic_weak (ro st)) \<and>
           dl_use_load_bias (ro st') =
             (case env_last ''USE_LOAD_BIAS'' (environ st) of
                None \<Rightarrow> dl_use_load_bias (ro st) | Some v \<Rightarrow> if cget v 0 = CHR ''1'' then - 1 else 0) \<and>
           dl_profile_output (ro st') =
             (case env_last_nonempty ''PROFILE_OUTPUT'' (environ st) of None \<Rightarrow> ''/var/tmp'' | Some v \<Rightarrow> v))
    | Exit x \<Rightarrow>
        x = 0 \<and> env_last ''DEBUG'' (environ st) \<noteq> None \<or>
        x = 127 \<and> 16 < length (audit_strings (main_audit_list (main_state st)) @ audit_values (ld_vars (environ st))) \<or>
        x = 5 \<and> enable_secure k \<and>
          (mode (main_state st) \<noteq> rtld_mode_normal \<or> (\<exists>n \<in> set trace_vars. env_last n (environ st) \<noteq> None))
    | Undef _ \<Rightarrow> False"
proof (cases "process_envvars k st")
  case (Done st')
  show ?thesis using process_envvars_cases [OF assms] process_envvars_flags [OF assms Done] unfolding Done run.case by blast
qed (use process_envvars_cases [OF assms] in simp_all)

text \<open>C8: in a secure process none of the unsafe variables is left in the environment and all others are, in order; the
  library path, the origin and the profiling directory are taken from no variable, no mode other than the normal one goes
  on, and without \<open>/etc/suid-debug\<close> nothing is debugged.\<close>

theorem process_envvars_secure:
  assumes secure: "enable_secure k" and env: "list_all nul_free (environ st)" and pid: "0 < getpid k" "getpid k < 2 ^ 31"
    and fresh: "audit_fresh (main_audit_list (main_state st))"
  shows "case process_envvars k st of
      Done st' \<Rightarrow>
        environ st' = filter (\<lambda>e. \<not> (\<exists>n \<in> set unsecure_envvars. \<exists>w. e = n @ ''='' @ w)) (environ st) \<and>
        guarded st' = (library_path (main_state st), dl_origin_path (ro st), dl_dynamic_weak (ro st), dl_use_load_bias (ro st),
          ''/var/profile'') \<and>
        mode (main_state st') = rtld_mode_normal \<and> (suid_debug k \<or> dl_debug_mask (ro st') = 0)
    | Exit x \<Rightarrow> x \<in> {0, 5, 127}
    | Undef _ \<Rightarrow> False"
proof -
  have "getpid k < 10 ^ 10" using pid(2) by simp
  note after = process_envvars_after [OF env pid(1) this]
  let ?vs = "ld_vars (environ st)" and ?so = "(env_start k st, None)"
  have fresh': "audit_fresh (main_audit_list (main_state (fst ?so)))" using fresh by simp
  note ends = set_vars_ends [OF fresh', where secure = "enable_secure k" and vs = ?vs]
  show ?thesis
  proof (cases "set_vars (enable_secure k) ?vs ?so")
    case (Done so')
    obtain st1 out where so': "so' = (st1, out)" by (cases so')
    from Done so' secure have run: "set_vars True ?vs ?so = Done (st1, out)" by simp
    have "process_envvars k st = secure_cleanup k st1" using after run secure by simp
    moreover have "guarded st1 = guarded (env_start k st)" using guarded_vars.kept_value [OF run] by simp
    moreover have "environ st1 = environ st" using environ_kept.kept_value [OF run] by simp
    ultimately show ?thesis using secure
      by (auto simp: secure_cleanup_def upd_ro_def Let_def guarded_def env_start_def fold_unsetenv names_var_iff)
  next
    case (Exit x)
    with after ends show ?thesis by auto
  next
    case (Undef e)
    with ends show ?thesis by simp
  qed
qed

text \<open>C11: the auditing modules are the fields of the audit strings between colons, in order, without empty and overlong
  names and, in a secure process, without names with a slash; counting them beforehand gives their number and leaves the
  list as it was.\<close>

theorem audit_list_names:
  assumes "audit_fresh l"
  shows "audit_list_count secure l = Inr (length (audit_names secure (audit_strings l)), l) \<and>
    load_audit_names (audit_fuel l) secure l = Inr (audit_names secure (audit_strings l))"
  using audit_count_loop_left [OF audit_fuel_enough [OF assms], of secure 0]
    load_audit_names_left [OF audit_fuel_enough [OF assms]] audit_fresh_left [OF assms] assms
  by (simp add: audit_list_count_def audit_fresh_def)

text \<open>The objects that are preloaded are the fields of the list between blanks and colons, in order, without empty and
  overlong names and, in a secure process, without names with a slash.\<close>

theorem handle_preload_list_names:
  "handle_preload_list do_preload secure names =
     sum_list (map do_preload (filter (usable_name SECURE_PATH_LIMIT secure) (tokens (\<lambda>c. c = CHR '' '' \<or> c = colon) names)))"
  by (simp add: handle_preload_list_def preload_names_tokens)

section \<open>Instances\<close>

definition demo_ro :: rtld_ro where
  "demo_ro = \<lparr>dl_verbose = False, dl_debug_mask = 0, dl_profile = None, dl_lazy = 1, dl_bind_not = False,
     dl_origin_path = None, dl_dynamic_weak = False, dl_use_load_bias = - 2, dl_profile_output = [], dl_trace_prelink = None,
     ro_osversion = 0, dl_debug_fd = 1\<rparr>"

definition demo_main :: dl_main_state where
  "demo_main = \<lparr>main_audit_list = audit_list_init, exec_fd = None, library_path_fds = None, library_path = None,
     library_path_source = None, preloadlist = None, preloadarg = None, glibc_hwcaps_prepend = None, glibc_hwcaps_mask = None,
     mode = rtld_mode_normal, any_debug = False, version_info = False, capsicum = None\<rparr>"

definition demo_rtld :: rtld_state where
  "demo_rtld = \<lparr>main_state = demo_main, ro = demo_ro,
     environ = [''HOME=/root'', ''LD_LIBRARY_PATH=/tmp'', ''LD_LIBRARY_PATH_FDS=3:4'', ''LD_PRELOAD=a.so'']\<rparr>"

definition demo_secure :: env_kernel where
  "demo_secure = \<lparr>enable_secure = True, suid_debug = False, getpid = 42, open_debug = (\<lambda>_. - 1)\<rparr>"

lemma demo_rtld_ok:
  "list_all nul_free (environ demo_rtld)" "audit_fresh (main_audit_list (main_state demo_rtld))"
  "0 < getpid demo_secure" "getpid demo_secure < 2 ^ 31" "enable_secure demo_secure"
  by (simp_all add: demo_rtld_def demo_main_def demo_secure_def audit_fresh_def audit_list_init_def)

lemma demo_rtld_run: "case process_envvars demo_secure demo_rtld of Done _ \<Rightarrow> True | _ \<Rightarrow> False"
  by code_simp

lemma demo_rtld_last:
  "env_last ''LIBRARY_PATH_FDS'' (environ demo_rtld) = Some ''3:4''"
  "env_last ''PRELOAD'' (environ demo_rtld) = Some ''a.so''"
  by code_simp+

theorem process_envvars_values_witness:
  "case process_envvars demo_secure demo_rtld of
     Done st' \<Rightarrow> library_path_fds (main_state st') = Some ''3:4'' \<and> capsicum (main_state st') = Some True \<and>
       library_path (main_state st') = None \<and> preloadlist (main_state st') = Some ''a.so''
   | Exit _ \<Rightarrow> False | Undef _ \<Rightarrow> False"
  using process_envvars_values [OF demo_rtld_ok(1,3,4,2)] demo_rtld_run demo_rtld_last demo_rtld_ok(5)
  by (auto simp: last_or_def demo_rtld_def demo_main_def split: run.splits)

theorem process_envvars_secure_witness:
  "case process_envvars demo_secure demo_rtld of
     Done st' \<Rightarrow> environ st' = [''HOME=/root'', ''LD_LIBRARY_PATH_FDS=3:4''] \<and> mode (main_state st') = rtld_mode_normal
   | Exit _ \<Rightarrow> False | Undef _ \<Rightarrow> False"
proof -
  have "filter (\<lambda>e. \<not> (\<exists>n \<in> set unsecure_envvars. names_var n e)) (environ demo_rtld) = [''HOME=/root'', ''LD_LIBRARY_PATH_FDS=3:4'']"
    by code_simp
  with process_envvars_secure [OF demo_rtld_ok(5,1,3,4,2)] demo_rtld_run show ?thesis
    by (auto simp: names_var_iff split: run.splits)
qed

definition demo_audit :: audit_list where
  "demo_audit = \<lparr>audit_strings = [''a.so::/b.so'', ''c.so''], current_index = 0, current_tail = Some ''a.so::/b.so''\<rparr>"

theorem audit_list_names_witness:
  "audit_list_count True demo_audit = Inr (2, demo_audit) \<and>
   load_audit_names (audit_fuel demo_audit) True demo_audit = Inr [''a.so'', ''c.so'']"
proof -
  have "audit_fresh demo_audit" by (simp add: audit_fresh_def demo_audit_def)
  moreover have "audit_names True (audit_strings demo_audit) = [''a.so'', ''c.so'']" by code_simp
  ultimately show ?thesis using audit_list_names [of demo_audit True] by simp
qed

end
