(* ===== verification/RtldArgs.thy ===== *)
theory RtldArgs
  imports RtldEnvSpec
begin

text \<open>
  The start of \<open>dl_main\<close> (elf/rtld.c) when the loader is run as a command: the initial state, the environment, the options
  of the command line, and the choice of the file to run.  The functions that print and end the process are their exit
  status.  The lemmas show that the options are read back as they were written, and which of the loader's inputs decide
  about the descriptor of the program.
\<close>

section \<open>Options\<close>

record rtld_args =
  args_state :: rtld_state
  skip_args :: nat
  argv0 :: "string option"
  inhibit_cache :: bool
  inhibit_rpath :: "string option"

definition args_main :: "(dl_main_state \<Rightarrow> dl_main_state) \<Rightarrow> rtld_args \<Rightarrow> rtld_args" where
  "args_main f a = a\<lparr>args_state := upd_main f (args_state a)\<rparr>"

text \<open>An option: \<open>None\<close> when the loop ends here, otherwise whether its argument is used up, too.  \<open>v\<close> is that argument, if
  there is one.\<close>

definition skipped :: "nat \<Rightarrow> rtld_args \<Rightarrow> rtld_args" where
  "skipped n a = a\<lparr>skip_args := skip_args a + n\<rparr>"

definition arg_option :: "string \<Rightarrow> string option \<Rightarrow> rtld_args \<Rightarrow> (bool \<times> rtld_args) run option" where
  "arg_option opt v a =
     (let one = (\<lambda>a. Some (Done (False, skipped 1 a))); two = (\<lambda>a. Some (Done (True, skipped 2 a)));
          main = args_state a in
      if opt = ''--list'' then
        one (if mode (main_state main) \<noteq> rtld_mode_help
             then a\<lparr>args_state := upd_ro (\<lambda>r. r\<lparr>dl_lazy := - 1\<rparr>) (upd_main (\<lambda>s. s\<lparr>mode := rtld_mode_list\<rparr>) main)\<rparr> else a)
      else if opt = ''--verify'' then
        one (if mode (main_state main) \<noteq> rtld_mode_help then args_main (\<lambda>s. s\<lparr>mode := rtld_mode_verify\<rparr>) a else a)
      else if opt = ''--inhibit-cache'' then one (a\<lparr>inhibit_cache := True\<rparr>)
      else if opt = ''--library-path'' \<and> v \<noteq> None then
        two (args_main (\<lambda>s. s\<lparr>library_path := v, library_path_source := Some ''--library-path''\<rparr>) a)
      else if opt = ''--inhibit-rpath'' \<and> v \<noteq> None then two (a\<lparr>inhibit_rpath := v\<rparr>)
      else if opt = ''--audit'' \<and> v \<noteq> None then
        (case audit_list_add_string (the v) (main_audit_list (main_state main)) of
           Inl _ \<Rightarrow> Some (Exit 127)
         | Inr l \<Rightarrow> two (args_main (\<lambda>s. s\<lparr>main_audit_list := l\<rparr>) a))
      else if opt = ''--preload'' \<and> v \<noteq> None then two (args_main (\<lambda>s. s\<lparr>preloadarg := v\<rparr>) a)
      else if opt = ''--argv0'' \<and> v \<noteq> None then two (a\<lparr>argv0 := v\<rparr>)
      else if opt = ''--glibc-hwcaps-prepend'' \<and> v \<noteq> None then two (args_main (\<lambda>s. s\<lparr>glibc_hwcaps_prepend := v\<rparr>) a)
      else if opt = ''--glibc-hwcaps-mask'' \<and> v \<noteq> None then two (args_main (\<lambda>s. s\<lparr>glibc_hwcaps_mask := v\<rparr>) a)
      else if opt = ''--'' \<and> v \<noteq> None then two (args_main (\<lambda>s. s\<lparr>exec_fd := v\<rparr>) a)
      else if opt = ''--library-path-fds'' \<and> v \<noteq> None then
        two (args_main (\<lambda>s. s\<lparr>library_path_fds := v, library_path_source := Some ''--library-path-fds''\<rparr>) a)
      else if opt = ''--list-tunables'' then one (args_main (\<lambda>s. s\<lparr>mode := rtld_mode_list_tunables\<rparr>) a)
      else if opt = ''--list-diagnostics'' then one (args_main (\<lambda>s. s\<lparr>mode := rtld_mode_list_diagnostics\<rparr>) a)
      else if opt = ''--help'' then Some (Done (False, args_main (\<lambda>s. s\<lparr>mode := rtld_mode_help\<rparr>) a))
      else if opt = ''--version'' then Some (Exit 0)
      else if cget opt 0 = CHR ''-'' \<and> cget opt 1 = CHR ''-'' then (if cget opt 1 = NUL then None else Some (Exit 1))
      else None)"

text \<open>\<open>_dl_argv\<close> and \<open>_dl_argc\<close> are the list of the arguments that are left, the one passed last first.\<close>

fun args_loop :: "string list \<Rightarrow> rtld_args \<Rightarrow> (string list \<times> rtld_args) run" where
  "args_loop (p # opt # rest) a =
     (case arg_option opt (case rest of [] \<Rightarrow> None | v # _ \<Rightarrow> Some v) a of
        None \<Rightarrow> Done (p # opt # rest, a)
      | Some (Exit x) \<Rightarrow> Exit x
      | Some (Undef e) \<Rightarrow> Undef e
      | Some (Done (two, a)) \<Rightarrow> if two then args_loop (tl (opt # rest)) a else args_loop (opt # rest) a)"
| "args_loop argv a = Done (argv, a)"

text \<open>After the options: the modes that end the process, and the name of the program.\<close>

definition args_end :: "string list \<Rightarrow> rtld_args \<Rightarrow> (string list \<times> rtld_args) run" where
  "args_end argv a =
     (let m = mode (main_state (args_state a)) in
      if m = rtld_mode_list_tunables then Exit 0
      else if m = rtld_mode_list_diagnostics then Exit 0
      else if length argv < 2 then (if m = rtld_mode_help then Exit 0 else Exit 1)
      else Done (tl argv, skipped 1 a))"

text \<open>The descriptor of the program, \<open>GL(dl_exec_fd)\<close>: \<open>None\<close> if it is left as it is.  \<open>mem_ok\<close> answers \<open>malloc\<close>.\<close>

definition exec_fd_step :: "(nat \<Rightarrow> bool) \<Rightarrow> dl_main_state \<Rightarrow> int option run" where
  "exec_fd_step mem_ok s =
     (if mode s = rtld_mode_verify \<or> mode s = rtld_mode_help then Done None
      else
        (case capsicum s of
           None \<Rightarrow> Undef Uninit_read
         | Some False \<Rightarrow> Done None
         | Some True \<Rightarrow>
             (case exec_fd s of
                None \<Rightarrow> Undef Null_deref
              | Some binary_fd \<Rightarrow>
                  if \<not> mem_ok (length binary_fd + 1) then Undef Null_deref
                  else Done (Some (sint (ucast (fst (dl_strtoul binary_fd)) :: 32 word))))))"

definition dl_main_start ::
    "(nat \<Rightarrow> bool) \<Rightarrow> env_kernel \<Rightarrow> string list \<Rightarrow> rtld_args \<Rightarrow> (string list \<times> rtld_args \<times> int option) run" where
  "dl_main_start mem_ok k argv a =
     run_bind (process_envvars k (upd_main dl_main_state_init (args_state a))) (\<lambda>st.
     run_bind (args_loop argv (a\<lparr>args_state := st\<rparr>)) (\<lambda>(argv, a).
     run_bind (args_end argv a) (\<lambda>(argv, a).
     run_bind (exec_fd_step mem_ok (main_state (args_state a))) (\<lambda>fd. Done (argv, a, fd)))))"

section \<open>Options as they are written\<close>

text \<open>The options that do not end the process by themselves.\<close>

datatype ld_option =
    Opt_list | Opt_verify | Opt_inhibit_cache | Opt_list_tunables | Opt_list_diagnostics | Opt_help
  | Opt_library_path string | Opt_inhibit_rpath string | Opt_audit string | Opt_preload string | Opt_argv0 string
  | Opt_hwcaps_prepend string | Opt_hwcaps_mask string | Opt_exec_fd string | Opt_library_path_fds string

fun render :: "ld_option \<Rightarrow> string list" where
  "render Opt_list = [''--list'']"
| "render Opt_verify = [''--verify'']"
| "render Opt_inhibit_cache = [''--inhibit-cache'']"
| "render Opt_list_tunables = [''--list-tunables'']"
| "render Opt_list_diagnostics = [''--list-diagnostics'']"
| "render Opt_help = [''--help'']"
| "render (Opt_library_path v) = [''--library-path'', v]"
| "render (Opt_inhibit_rpath v) = [''--inhibit-rpath'', v]"
| "render (Opt_audit v) = [''--audit'', v]"
| "render (Opt_preload v) = [''--preload'', v]"
| "render (Opt_argv0 v) = [''--argv0'', v]"
| "render (Opt_hwcaps_prepend v) = [''--glibc-hwcaps-prepend'', v]"
| "render (Opt_hwcaps_mask v) = [''--glibc-hwcaps-mask'', v]"
| "render (Opt_exec_fd v) = [''--'', v]"
| "render (Opt_library_path_fds v) = [''--library-path-fds'', v]"

definition set_mode :: "rtld_mode \<Rightarrow> rtld_args \<Rightarrow> rtld_args" where
  "set_mode m = args_main (\<lambda>s. s\<lparr>mode := m\<rparr>)"

text \<open>What an option means.\<close>

fun apply_option :: "ld_option \<Rightarrow> rtld_args \<Rightarrow> rtld_args run" where
  "apply_option Opt_list a = Done (skipped 1 (if mode (main_state (args_state a)) = rtld_mode_help then a
     else (set_mode rtld_mode_list a)\<lparr>args_state := upd_ro (\<lambda>r. r\<lparr>dl_lazy := - 1\<rparr>) (args_state (set_mode rtld_mode_list a))\<rparr>))"
| "apply_option Opt_verify a =
     Done (skipped 1 (if mode (main_state (args_state a)) = rtld_mode_help then a else set_mode rtld_mode_verify a))"
| "apply_option Opt_inhibit_cache a = Done (skipped 1 (a\<lparr>inhibit_cache := True\<rparr>))"
| "apply_option Opt_list_tunables a = Done (skipped 1 (set_mode rtld_mode_list_tunables a))"
| "apply_option Opt_list_diagnostics a = Done (skipped 1 (set_mode rtld_mode_list_diagnostics a))"
| "apply_option Opt_help a = Done (set_mode rtld_mode_help a)"
| "apply_option (Opt_library_path v) a =
     Done (skipped 2 (args_main (\<lambda>s. s\<lparr>library_path := Some v, library_path_source := Some ''--library-path''\<rparr>) a))"
| "apply_option (Opt_inhibit_rpath v) a = Done (skipped 2 (a\<lparr>inhibit_rpath := Some v\<rparr>))"
| "apply_option (Opt_audit v) a =
     (case audit_list_add_string v (main_audit_list (main_state (args_state a))) of
        Inl _ \<Rightarrow> Exit 127
      | Inr l \<Rightarrow> Done (skipped 2 (args_main (\<lambda>s. s\<lparr>main_audit_list := l\<rparr>) a)))"
| "apply_option (Opt_preload v) a = Done (skipped 2 (args_main (\<lambda>s. s\<lparr>preloadarg := Some v\<rparr>) a))"
| "apply_option (Opt_argv0 v) a = Done (skipped 2 (a\<lparr>argv0 := Some v\<rparr>))"
| "apply_option (Opt_hwcaps_prepend v) a = Done (skipped 2 (args_main (\<lambda>s. s\<lparr>glibc_hwcaps_prepend := Some v\<rparr>) a))"
| "apply_option (Opt_hwcaps_mask v) a = Done (skipped 2 (args_main (\<lambda>s. s\<lparr>glibc_hwcaps_mask := Some v\<rparr>) a))"
| "apply_option (Opt_exec_fd v) a = Done (skipped 2 (args_main (\<lambda>s. s\<lparr>exec_fd := Some v\<rparr>) a))"
| "apply_option (Opt_library_path_fds v) a =
     Done (skipped 2 (args_main (\<lambda>s. s\<lparr>library_path_fds := Some v, library_path_source := Some ''--library-path-fds''\<rparr>) a))"

fun apply_options :: "ld_option list \<Rightarrow> rtld_args \<Rightarrow> rtld_args run" where
  "apply_options [] a = Done a"
| "apply_options (opt # opts) a = run_bind (apply_option opt a) (apply_options opts)"

text \<open>A program name does not begin with two dashes.\<close>

definition program_name :: "string \<Rightarrow> bool" where
  "program_name s \<longleftrightarrow> \<not> prefix ''--'' s"

lemma arg_option_program:
  assumes "program_name s"
  shows "arg_option s v a = None"
proof -
  have n: "\<not> (cget s 0 = CHR ''-'' \<and> cget s 1 = CHR ''-'')"
  proof (cases s)
    case (Cons c cs)
    then show ?thesis using assms by (cases cs) (auto simp: program_name_def)
  qed simp
  have "s \<noteq> CHR ''-'' # CHR ''-'' # t" for t using assms by (auto simp: program_name_def)
  then show ?thesis using n unfolding arg_option_def Let_def by (simp only: if_False simp_thms refl)
qed

lemma render_shape: "(\<exists>opt'. render opt = [opt']) \<or> (\<exists>opt' v. render opt = [opt', v])"
  by (cases opt) simp_all

lemma arg_option_one:
  "length (render opt) = 1 \<Longrightarrow>
     arg_option (hd (render opt)) v a = Some (run_bind (apply_option opt a) (\<lambda>a. Done (False, a)))"
  by (cases opt; cases "mode (main_state (args_state a)) = rtld_mode_help")
    (simp_all add: arg_option_def set_mode_def args_main_def Let_def)

lemma arg_option_two:
  "length (render opt) = 2 \<Longrightarrow>
     arg_option (hd (render opt)) (Some (last (render opt))) a = Some (run_bind (apply_option opt a) (\<lambda>a. Done (True, a)))"
  by (cases opt) (simp_all add: arg_option_def Let_def split: sum.split)

declare args_loop.simps(1) [simp del]

lemma args_loop_option:
  "args_loop (p # render opt @ q # rest) a = run_bind (apply_option opt a) (args_loop (last (render opt) # q # rest))"
  using render_shape [of opt]
proof (elim disjE exE)
  fix s
  assume r: "render opt = [s]"
  have "args_loop (p # s # q # rest) a = run_bind (apply_option opt a) (args_loop (s # q # rest))"
    by (subst args_loop.simps(1)) (cases "apply_option opt a"; simp add: arg_option_one [of opt, unfolded r, simplified])
  then show ?thesis by (simp add: r)
next
  fix s v
  assume r: "render opt = [s, v]"
  have "args_loop (p # s # v # q # rest) a = run_bind (apply_option opt a) (args_loop (v # q # rest))"
    by (subst args_loop.simps(1)) (cases "apply_option opt a"; simp add: arg_option_two [of opt, unfolded r, simplified])
  then show ?thesis by (simp add: r)
qed

lemma run_bind_assoc: "run_bind (run_bind m f) g = run_bind m (\<lambda>a. run_bind (f a) g)"
  by (cases m) simp_all

lemma args_loop_rendered:
  "program_name prog \<Longrightarrow>
     args_loop (p # concat (map render opts) @ prog # rest) a =
       run_bind (apply_options opts a) (\<lambda>a. Done (last (p # concat (map render opts)) # prog # rest, a))"
proof (induction opts arbitrary: p a)
  case Nil
  then show ?case by (simp add: args_loop.simps(1) arg_option_program)
next
  case (Cons opt opts)
  obtain q rest' where tail: "concat (map render opts) @ prog # rest = q # rest'"
    by (cases "concat (map render opts)") auto
  have "args_loop (p # concat (map render (opt # opts)) @ prog # rest) a =
      run_bind (apply_option opt a) (args_loop (last (render opt) # concat (map render opts) @ prog # rest))"
    using args_loop_option [of p opt q rest' a] tail by simp
  also have "\<dots> = run_bind (apply_option opt a) (\<lambda>a. run_bind (apply_options opts a)
      (\<lambda>a. Done (last (last (render opt) # concat (map render opts)) # prog # rest, a)))"
    by (cases "apply_option opt a") (simp_all only: run_bind_simps Cons.IH [OF Cons.prems])
  also have "last (last (render opt) # concat (map render opts)) = last (p # concat (map render (opt # opts)))"
    using render_shape [of opt] by auto
  finally show ?case by (simp only: apply_options.simps run_bind_assoc)
qed

text \<open>Options that neither change the mode nor load an auditing module, and the last descriptor among them.\<close>

fun plain_option :: "ld_option \<Rightarrow> bool" where
  "plain_option (Opt_audit _) = False"
| "plain_option opt = (opt \<notin> {Opt_list, Opt_verify, Opt_list_tunables, Opt_list_diagnostics, Opt_help})"

fun last_exec_fd :: "ld_option list \<Rightarrow> string option \<Rightarrow> string option" where
  "last_exec_fd [] fd = fd"
| "last_exec_fd (Opt_exec_fd v # opts) fd = last_exec_fd opts (Some v)"
| "last_exec_fd (_ # opts) fd = last_exec_fd opts fd"

lemma apply_option_plain:
  "plain_option opt \<Longrightarrow> \<exists>a'. apply_option opt a = Done a' \<and>
     mode (main_state (args_state a')) = mode (main_state (args_state a)) \<and>
     capsicum (main_state (args_state a')) = capsicum (main_state (args_state a)) \<and>
     exec_fd (main_state (args_state a')) = last_exec_fd [opt] (exec_fd (main_state (args_state a)))"
  by (cases opt) (simp_all add: skipped_def args_main_def upd_main_def)

lemma last_exec_fd_Cons: "last_exec_fd (opt # opts) fd = last_exec_fd opts (last_exec_fd [opt] fd)"
  by (cases opt) simp_all

lemma apply_options_plain:
  "list_all plain_option opts \<Longrightarrow> \<exists>a'. apply_options opts a = Done a' \<and>
     mode (main_state (args_state a')) = mode (main_state (args_state a)) \<and>
     capsicum (main_state (args_state a')) = capsicum (main_state (args_state a)) \<and>
     exec_fd (main_state (args_state a')) = last_exec_fd opts (exec_fd (main_state (args_state a)))"
proof (induction opts arbitrary: a)
  case (Cons opt opts)
  then obtain a1 where a1: "apply_option opt a = Done a1"
    "mode (main_state (args_state a1)) = mode (main_state (args_state a))"
    "capsicum (main_state (args_state a1)) = capsicum (main_state (args_state a))"
    "exec_fd (main_state (args_state a1)) = last_exec_fd [opt] (exec_fd (main_state (args_state a)))"
    using apply_option_plain [of opt a] by auto
  with Cons.IH [of a1] Cons.prems show ?case by (auto simp: last_exec_fd_Cons [of opt opts])
qed simp

section \<open>Properties\<close>

text \<open>C10: the options of the command line are read back as they are written, in order, and the loop stops at the name of the
  program with its arguments behind it.\<close>

theorem args_loop_roundtrip:
  "program_name prog \<Longrightarrow>
     args_loop (p # concat (map render opts) @ prog # rest) a =
       run_bind (apply_options opts a) (\<lambda>a. Done (last (p # concat (map render opts)) # prog # rest, a))"
  by (rule args_loop_rendered)

text \<open>C9: when the loader is run as a command without debugging, auditing and tracing, a program is taken from a descriptor
  exactly if LD_LIBRARY_PATH_FDS is set, and then the descriptor is the number behind the last \<open>--\<close> option; if the
  variable is not set, a part of the state that was never written decides, and if the option is missing, a null pointer is
  read.\<close>

theorem dl_main_exec_fd:
  assumes env: "list_all nul_free (environ (args_state a))" and pid: "0 < getpid k" "getpid k < 2 ^ 31"
    and vars: "env_last ''DEBUG'' (environ (args_state a)) = None" "env_last ''AUDIT'' (environ (args_state a)) = None"
      "\<forall>n \<in> set trace_vars. env_last n (environ (args_state a)) = None"
    and start: "capsicum (main_state (args_state a)) = None" and mem: "\<And>n. mem_ok n"
    and args: "program_name prog" "list_all plain_option opts"
  shows "case dl_main_start mem_ok k (p # concat (map render opts) @ prog # rest) a of
      Done (argv, a', fd) \<Rightarrow>
        argv = prog # rest \<and> env_last ''LIBRARY_PATH_FDS'' (environ (args_state a)) \<noteq> None \<and>
        (\<exists>s. last_exec_fd opts None = Some s \<and> fd = Some (sint (ucast (fst (dl_strtoul s)) :: 32 word)))
    | Exit _ \<Rightarrow> False
    | Undef e \<Rightarrow>
        e = Uninit_read \<and> env_last ''LIBRARY_PATH_FDS'' (environ (args_state a)) = None \<or>
        e = Null_deref \<and> env_last ''LIBRARY_PATH_FDS'' (environ (args_state a)) \<noteq> None \<and> last_exec_fd opts None = None"
proof -
  let ?st = "upd_main dl_main_state_init (args_state a)"
  have st: "environ ?st = environ (args_state a)" "capsicum (main_state ?st) = None" "mode (main_state ?st) = rtld_mode_normal"
      "exec_fd (main_state ?st) = None" "main_audit_list (main_state ?st) = audit_list_init"
    using start by (simp_all add: upd_main_def dl_main_state_init_def)
  have fresh: "audit_fresh (main_audit_list (main_state ?st))" unfolding st by (simp add: audit_fresh_def audit_list_init_def)
  have "''AUDIT'' \<notin> fst ` set (ld_vars (environ (args_state a)))"
    using vars(2) by (simp add: env_last_None map_of_eq_None_iff)
  then have none: "audit_values (ld_vars (environ (args_state a))) = []"
    by (auto simp: audit_values_def filter_empty_conv rev_image_eqI)
  have "list_all nul_free (environ ?st)" using env st(1) by simp
  note cases = process_envvars_cases [OF this pid fresh]
  have "\<exists>st'. process_envvars k ?st = Done st' \<and> mode (main_state st') = rtld_mode_normal \<and> exec_fd (main_state st') = None \<and>
      capsicum (main_state st') = (if env_last ''LIBRARY_PATH_FDS'' (environ (args_state a)) = None then None else Some True)"
  proof (cases "process_envvars k ?st")
    case (Done st')
    with cases vars(3) show ?thesis unfolding st by auto
  next
    case (Exit x)
    with cases vars none show ?thesis unfolding st by (simp add: audit_list_init_def)
  next
    case (Undef e)
    with cases show ?thesis by simp
  qed
  then obtain st' where st': "process_envvars k ?st = Done st'" "mode (main_state st') = rtld_mode_normal"
      "exec_fd (main_state st') = None"
      "capsicum (main_state st') = (if env_last ''LIBRARY_PATH_FDS'' (environ (args_state a)) = None then None else Some True)"
    by blast
  obtain a' where a': "apply_options opts (a\<lparr>args_state := st'\<rparr>) = Done a'"
      "mode (main_state (args_state a')) = rtld_mode_normal" "exec_fd (main_state (args_state a')) = last_exec_fd opts None"
      "capsicum (main_state (args_state a')) = capsicum (main_state st')"
    using apply_options_plain [OF args(2), of "a\<lparr>args_state := st'\<rparr>"] st' by auto
  let ?argv = "last (p # concat (map render opts)) # prog # rest"
  have "dl_main_start mem_ok k (p # concat (map render opts) @ prog # rest) a =
      run_bind (args_end ?argv a') (\<lambda>(argv, a). run_bind (exec_fd_step mem_ok (main_state (args_state a))) (\<lambda>fd. Done (argv, a, fd)))"
    by (simp only: dl_main_start_def st'(1) a'(1) args_loop_rendered [OF args(1)] run_bind_simps prod.case)
  also have "\<dots> = run_bind (exec_fd_step mem_ok (main_state (args_state a'))) (\<lambda>fd. Done (prog # rest, skipped 1 a', fd))"
    using a'(2) by (simp add: args_end_def skipped_def)
  finally show ?thesis using a' st' mem by (cases "env_last ''LIBRARY_PATH_FDS'' (environ (args_state a))"; cases "last_exec_fd opts None") (simp_all add: exec_fd_step_def)
qed

section \<open>Instances of the command line\<close>

definition demo_args :: "string list \<Rightarrow> rtld_args" where
  "demo_args env = \<lparr>args_state = demo_rtld\<lparr>environ := env\<rparr>, skip_args = 0, argv0 = None, inhibit_cache = False,
     inhibit_rpath = None\<rparr>"

theorem args_loop_roundtrip_witness:
  "args_loop [''ld.so'', ''--inhibit-cache'', ''--'', ''7'', ''prog'', ''--list''] (demo_args []) =
     run_bind (apply_options [Opt_inhibit_cache, Opt_exec_fd ''7''] (demo_args []))
       (\<lambda>a. Done ([''7'', ''prog'', ''--list''], a))"
  using args_loop_roundtrip [of "''prog''" "''ld.so''" "[Opt_inhibit_cache, Opt_exec_fd ''7'']" "[''--list'']" "demo_args []"]
  by (simp add: program_name_def)

lemma demo_args_ok:
  "list_all nul_free (environ (args_state (demo_args [''LD_LIBRARY_PATH_FDS=3:4''])))"
  "env_last ''DEBUG'' (environ (args_state (demo_args [''LD_LIBRARY_PATH_FDS=3:4'']))) = None"
  "env_last ''AUDIT'' (environ (args_state (demo_args [''LD_LIBRARY_PATH_FDS=3:4'']))) = None"
  "\<forall>n \<in> set trace_vars. env_last n (environ (args_state (demo_args [''LD_LIBRARY_PATH_FDS=3:4'']))) = None"
  "env_last ''LIBRARY_PATH_FDS'' (environ (args_state (demo_args [''LD_LIBRARY_PATH_FDS=3:4'']))) = Some ''3:4''"
  by code_simp+

lemma demo_args_fd: "fst (dl_strtoul ''7'') = 7"
  by code_simp

theorem dl_main_exec_fd_witness:
  "(case dl_main_start (\<lambda>_. True) demo_secure [''ld.so'', ''--'', ''7'', ''prog''] (demo_args [''LD_LIBRARY_PATH_FDS=3:4'']) of
      Done (argv, _, fd) \<Rightarrow> argv = [''prog''] \<and> fd = Some 7 | Exit _ \<Rightarrow> False | Undef _ \<Rightarrow> False) \<and>
   (case dl_main_start (\<lambda>_. True) demo_secure [''ld.so'', ''prog''] (demo_args []) of
      Done _ \<Rightarrow> False | Exit _ \<Rightarrow> False | Undef e \<Rightarrow> e = Uninit_read)"
proof
  have c: "capsicum (main_state (args_state (demo_args env))) = None" for env
    by (simp add: demo_args_def demo_rtld_def demo_main_def)
  have fd: "sint (ucast (fst (dl_strtoul ''7'')) :: 32 word) = 7" by (simp add: demo_args_fd)
  show "case dl_main_start (\<lambda>_. True) demo_secure [''ld.so'', ''--'', ''7'', ''prog''] (demo_args [''LD_LIBRARY_PATH_FDS=3:4'']) of
      Done (argv, _, fd) \<Rightarrow> argv = [''prog''] \<and> fd = Some 7 | Exit _ \<Rightarrow> False | Undef _ \<Rightarrow> False"
    using dl_main_exec_fd [OF demo_args_ok(1) demo_rtld_ok(3,4) demo_args_ok(2-4) c, where mem_ok = "\<lambda>_. True" and prog = "''prog''"
        and opts = "[Opt_exec_fd ''7'']" and p = "''ld.so''" and rest = "[]"] demo_args_ok(5) fd
    by (auto simp: program_name_def split: run.splits)
  have e: "environ (args_state (demo_args [])) = []" by (simp add: demo_args_def)
  show "case dl_main_start (\<lambda>_. True) demo_secure [''ld.so'', ''prog''] (demo_args []) of
      Done _ \<Rightarrow> False | Exit _ \<Rightarrow> False | Undef e \<Rightarrow> e = Uninit_read"
    using dl_main_exec_fd [where a = "demo_args []" and k = demo_secure and mem_ok = "\<lambda>_. True" and prog = "''prog''" and opts = "[]"
        and p = "''ld.so''" and rest = "[]"] demo_rtld_ok(3,4) c
    by (auto simp: program_name_def e env_last_def split: run.splits)
qed

end
