(* ===== verification/Cache.thy ===== *)
theory Cache
  imports Numconv ElfFile "HOL-Library.List_Lexorder" "HOL-Library.Product_Lexorder"
begin

text \<open>
  The cache of library names: elf/dl-cache.c with sysdeps/generic/dl-cache.h and the x86-64 variants of its parameters.
  The mapped file is a list of bytes.  \<open>_dl_cache_libcmp\<close>, the binary search, the priorities of the glibc-hwcaps
  subdirectories, and the recognition of the file formats are modelled with the reads the code makes; a read outside the file
  and a signed overflow are faults.
\<close>

section \<open>Comparison of library names\<close>

definition schar :: "char \<Rightarrow> int" where
  "schar c = (if ord c < 128 then int (ord c) else int (ord c) - 256)"

lemma ord_less: "ord c < 256"
  by (metis mod_less_divisor of_char_mod_256 zero_less_numeral)

lemma schar_inj: "schar c = schar d \<longleftrightarrow> c = d"
proof
  assume "schar c = schar d"
  then have "ord c = ord d" using ord_less [of c] ord_less [of d]
    unfolding schar_def by (cases "ord c < 128"; cases "ord d < 128"; simp only: if_True if_False; linarith)
  then show "c = d" by (simp only: of_char_eq_iff)
qed simp

text \<open>The digits of a number, added to \<open>v\<close>.\<close>

fun libcmp_number :: "int \<Rightarrow> string \<Rightarrow> (int \<times> string) res" where
  "libcmp_number v [] = Inr (v, [])"
| "libcmp_number v (c # cs) =
     (if isdigit c then
        if 2 ^ 31 - 1 < v * 10 + int (ord c) then Inl Signed_overflow
        else libcmp_number (v * 10 + int (ord c) - 48) cs
      else Inr (v, c # cs))"

lemma libcmp_number_length: "libcmp_number v s = Inr (w, t) \<Longrightarrow> length t \<le> length s"
  by (induction v s rule: libcmp_number.induct) (auto split: if_splits)

function dl_cache_libcmp :: "string \<Rightarrow> string \<Rightarrow> int res" where
  "dl_cache_libcmp [] p2 = Inr (0 - schar (cget p2 0))"
| "dl_cache_libcmp (c # p1) p2 =
     (if isdigit c then
        if isdigit (cget p2 0) then
          (case libcmp_number (int (ord c) - 48) p1 of
             Inl e \<Rightarrow> Inl e
           | Inr (val1, p1) \<Rightarrow>
               (case libcmp_number (int (ord (cget p2 0)) - 48) (tl p2) of
                  Inl e \<Rightarrow> Inl e
                | Inr (val2, p2) \<Rightarrow> if val1 \<noteq> val2 then Inr (val1 - val2) else dl_cache_libcmp p1 p2))
        else Inr 1
      else if isdigit (cget p2 0) then Inr (- 1)
      else if c \<noteq> cget p2 0 then Inr (schar c - schar (cget p2 0))
      else dl_cache_libcmp p1 (tl p2))"
  by pat_completeness auto
termination
  by (relation "measure (\<lambda>(p1, _). length p1)") (auto dest: libcmp_number_length)

text \<open>
  The order of names: a name is the list of its numbers and other characters, closed by its terminator; numbers come after
  all characters, and lists are ordered lexicographically.
\<close>

function name_key :: "string \<Rightarrow> (int \<times> int) list" where
  "name_key [] = [(0, 0)]"
| "name_key (c # s) =
     (if isdigit c then (1, int (digits_value 10 0 (takeWhile isdigit (c # s)))) # name_key (dropWhile isdigit s)
      else (0, schar c) # name_key s)"
  by pat_completeness auto
termination
  by (relation "measure length") (auto simp: le_imp_less_Suc length_dropWhile_le)

definition small_numbers :: "string \<Rightarrow> bool" where
  "small_numbers s \<longleftrightarrow> (\<forall>k \<in> set (name_key s). snd k < 2 ^ 31 - 48)"

lemma small_numbers_Cons:
  "small_numbers (c # s) \<longleftrightarrow>
     (if isdigit c then digits_value 10 0 (takeWhile isdigit (c # s)) < 2 ^ 31 - 48 \<and> small_numbers (dropWhile isdigit s)
      else small_numbers s)"
proof -
  have "schar c < 128" using ord_less [of c] unfolding schar_def by (cases "ord c < 128"; simp only: if_True if_False; linarith)
  then show ?thesis by (auto simp: small_numbers_def)
qed

lemma isdigit_value: "isdigit c \<Longrightarrow> the (digit_value c) = ord c - 48 \<and> 48 \<le> ord c"
  by (simp add: digit_value_def isdigit_def)

text \<open>A number that is small is read without overflow.\<close>

lemma libcmp_number_value:
  "int (digits_value 10 v (takeWhile isdigit s)) < 2 ^ 31 - 48 \<Longrightarrow>
     libcmp_number (int v) s = Inr (int (digits_value 10 v (takeWhile isdigit s)), dropWhile isdigit s)"
proof (induction s arbitrary: v)
  case (Cons c s)
  show ?case
  proof (cases "isdigit c")
    case True
    let ?v = "v * 10 + (ord c - 48)"
    have d: "the (digit_value c) = ord c - 48" "48 \<le> ord c" using isdigit_value [OF True] by auto
    have small: "int (digits_value 10 ?v (takeWhile isdigit s)) < 2 ^ 31 - 48" using Cons.prems True d by simp
    have "?v \<le> digits_value 10 ?v (takeWhile isdigit s)" by (rule digits_value_ge) simp
    then have "\<not> 2 ^ 31 - 1 < int v * 10 + int (ord c)" using small d by simp
    moreover have "int v * 10 + int (ord c) - 48 = int ?v" using d by simp
    ultimately show ?thesis using Cons.IH [OF small] True d by (simp only: libcmp_number.simps) (simp add: of_nat_diff)
  qed simp
qed simp

lemma number_start:
  assumes "isdigit c" "int (digits_value 10 0 (takeWhile isdigit (c # s))) < 2 ^ 31 - 48"
  shows "libcmp_number (int (ord c) - 48) s = Inr (int (digits_value 10 0 (takeWhile isdigit (c # s))), dropWhile isdigit s)"
proof -
  have v: "digits_value 10 0 (takeWhile isdigit (c # s)) = digits_value 10 (ord c - 48) (takeWhile isdigit s)"
    using assms(1) isdigit_value [OF assms(1)] by simp
  have "int (ord c) - 48 = int (ord c - 48)" using isdigit_value [OF assms(1)] by (simp add: of_nat_diff)
  then show ?thesis unfolding v using assms(2) [unfolded v] by (simp only: libcmp_number_value)
qed

lemma dl_cache_libcmp_order:
  "nul_free a \<Longrightarrow> nul_free b \<Longrightarrow> small_numbers a \<Longrightarrow> small_numbers b \<Longrightarrow>
     \<exists>r. dl_cache_libcmp a b = Inr r \<and> (r < 0 \<longleftrightarrow> name_key a < name_key b) \<and> (r = 0 \<longleftrightarrow> name_key a = name_key b)"
proof (induction a b rule: dl_cache_libcmp.induct)
  case (1 b)
  show ?case
  proof (cases b)
    case (Cons d b')
    then have "schar d \<noteq> 0" using 1(2) schar_inj [of d NUL] by (simp add: schar_def)
    then show ?thesis using Cons isdigit_def [of d] by (auto simp: schar_def split: if_splits)
  qed (simp add: schar_def)
next
  case (2 c a b)
  show ?case
  proof (cases "isdigit c")
    case False
    then have sa: "small_numbers a" using 2(5) by (simp add: small_numbers_Cons)
    show ?thesis
    proof (cases b)
      case Nil
      have "schar c \<noteq> 0" using 2(3) schar_inj [of c NUL] by (simp add: schar_def)
      then show ?thesis using False Nil 2(3) by (auto simp: schar_def isdigit_def)
    next
      case (Cons d b')
      show ?thesis
      proof (cases "isdigit d \<or> c \<noteq> d")
        case True
        then show ?thesis using False Cons schar_inj [of c d] by auto
      next
        case same: False
        then have "small_numbers b'" using 2(6) Cons by (simp add: small_numbers_Cons)
        then obtain r where "dl_cache_libcmp a b' = Inr r" "r < 0 \<longleftrightarrow> name_key a < name_key b'"
            "r = 0 \<longleftrightarrow> name_key a = name_key b'"
          using "2.IH"(2) False same Cons 2(3,4) sa by auto
        then show ?thesis using False same Cons by auto
      qed
    qed
  next
    case True
    note small = 2(5) [unfolded small_numbers_Cons if_P [OF True]]
    show ?thesis
    proof (cases "isdigit (cget b 0)")
      case False
      then show ?thesis using True by (cases b) (auto simp: isdigit_def)
    next
      case digit: True
      then obtain d b' where b: "b = d # b'" "isdigit d" by (cases b) (auto simp: isdigit_def)
      note small' = 2(6) [unfolded b(1) small_numbers_Cons if_P [OF b(2)]]
      let ?v = "int (digits_value 10 0 (takeWhile isdigit (c # a)))" and ?w = "int (digits_value 10 0 (takeWhile isdigit (d # b')))"
      have n1: "libcmp_number (int (ord c) - 48) a = Inr (?v, dropWhile isdigit a)"
        and n2: "libcmp_number (int (ord d) - 48) b' = Inr (?w, dropWhile isdigit b')"
        using number_start [OF True, of a] number_start [OF b(2), of b'] small small' by auto
      have unf: "dl_cache_libcmp (c # a) b =
          (if ?v \<noteq> ?w then Inr (?v - ?w) else dl_cache_libcmp (dropWhile isdigit a) (dropWhile isdigit b'))"
        using True b n1 n2 by simp
      have keys: "name_key (c # a) = (1, ?v) # name_key (dropWhile isdigit a)"
          "name_key b = (1, ?w) # name_key (dropWhile isdigit b')"
        using True b by simp_all
      show ?thesis
      proof (cases "?v = ?w")
        case False
        then show ?thesis unfolding unf keys by auto
      next
        case eq: True
        have "nul_free (dropWhile isdigit a)" "nul_free (dropWhile isdigit b')"
          using 2(3,4) b by (auto simp: nul_free_def dest: set_dropWhileD)
        moreover have "small_numbers (dropWhile isdigit a)" "small_numbers (dropWhile isdigit b')"
          using small small' by auto
        ultimately have "\<exists>r. dl_cache_libcmp (dropWhile isdigit a) (dropWhile isdigit b') = Inr r \<and>
            (r < 0 \<longleftrightarrow> name_key (dropWhile isdigit a) < name_key (dropWhile isdigit b')) \<and>
            (r = 0 \<longleftrightarrow> name_key (dropWhile isdigit a) = name_key (dropWhile isdigit b'))"
          using "2.IH"(1) True digit n1 n2 b eq by auto
        then show ?thesis unfolding unf keys using eq by auto
      qed
    qed
  qed
qed

section \<open>The search\<close>

text \<open>\<open>struct file_entry\<close> and \<open>struct file_entry_new\<close>; the last two fields only exist in the latter.\<close>

record cache_entry =
  lib_flags :: nat
  lib_key :: nat
  lib_value :: nat
  lib_osversion :: nat
  lib_hwcap :: "64 word"

text \<open>What the search takes from elsewhere: \<open>_dl_string_platform\<close> of the platform as a bit (all bits when there is none),
  the capabilities of the processor under the mask, the instruction set levels \<open>isa_1\<close>, the version of the kernel, and
  \<open>glibc_hwcaps_priority\<close>.\<close>

record cache_env =
  platform_bit :: "64 word"
  hwcap_masked :: "64 word"
  isa_1 :: "32 word"
  kernel_version :: nat
  hwcaps_priority :: "nat \<Rightarrow> nat res"

text \<open>The string table is the part of the file from there on; strings that run out of the file are a fault.\<close>

definition table_string :: "byte list \<Rightarrow> nat \<Rightarrow> string res" where
  "table_string tab ptr =
     (if 0 \<in> set (drop ptr tab) then Inr (map (\<lambda>b. char_of (unat b)) (takeWhile (\<lambda>b. b \<noteq> 0) (drop ptr tab)))
      else Inl Oob_read)"

definition dl_cache_verify_ptr :: "nat \<Rightarrow> nat \<Rightarrow> bool" where
  "dl_cache_verify_ptr ptr string_table_size \<longleftrightarrow> ptr < string_table_size"

definition DL_HWCAP_PLATFORM :: "64 word" where
  "DL_HWCAP_PLATFORM = push_bit 48 15"

definition DL_HWCAP_TLS_MASK :: "64 word" where
  "DL_HWCAP_TLS_MASK = push_bit 63 1"

definition hwcap_exclude :: "cache_env \<Rightarrow> 64 word" where
  "hwcap_exclude E = NOT (hwcap_masked E OR DL_HWCAP_PLATFORM OR DL_HWCAP_TLS_MASK)"

definition DL_CACHE_DEFAULT_ID :: nat where
  "DL_CACHE_DEFAULT_ID = 0x303"

definition DL_CACHE_HWCAP_ISA_LEVEL_MASK :: "64 word" where
  "DL_CACHE_HWCAP_ISA_LEVEL_MASK = push_bit 10 1 - 1"

definition dl_cache_hwcap_extension :: "cache_entry \<Rightarrow> bool" where
  "dl_cache_hwcap_extension lib \<longleftrightarrow>
     drop_bit 32 (lib_hwcap lib) AND NOT DL_CACHE_HWCAP_ISA_LEVEL_MASK = push_bit 30 1"

definition dl_cache_hwcap_isa_level_compatible :: "cache_env \<Rightarrow> cache_entry \<Rightarrow> bool res" where
  "dl_cache_hwcap_isa_level_compatible E lib =
     (let shift = unat (drop_bit 32 (lib_hwcap lib) AND DL_CACHE_HWCAP_ISA_LEVEL_MASK); isa_level = push_bit shift 1 in
      if 31 \<le> shift then Inl Signed_overflow else Inr (isa_level AND isa_1 E = isa_level))"

text \<open>The comparison of the name with the name of an entry: \<open>None\<close> for a bogus index.\<close>

definition key_cmp :: "byte list \<Rightarrow> nat \<Rightarrow> string \<Rightarrow> cache_entry \<Rightarrow> int option res" where
  "key_cmp tab sz name lib =
     (if \<not> dl_cache_verify_ptr (lib_key lib) sz then Inr None
      else rbind (table_string tab (lib_key lib)) (\<lambda>s. rbind (dl_cache_libcmp name s) (\<lambda>r. Inr (Some r))))"

text \<open>One entry with the right name: the best match so far, with its priority, and whether the search goes on.\<close>

definition consider_entry ::
    "cache_env \<Rightarrow> bool \<Rightarrow> nat \<Rightarrow> cache_entry \<Rightarrow> nat option \<times> nat \<Rightarrow> (bool \<times> (nat option \<times> nat)) res" where
  "consider_entry E new sz lib bp =
     (case bp of (best, best_priority) \<Rightarrow>
      if \<not> (lib_flags lib = DL_CACHE_DEFAULT_ID \<and> dl_cache_verify_ptr (lib_value lib) sz) then Inr (True, bp)
      else if \<not> new then Inr (False, (Some (lib_value lib), best_priority))
      else
        let named_hwcap = dl_cache_hwcap_extension lib in
        rbind (if named_hwcap then dl_cache_hwcap_isa_level_compatible E lib else Inr True) (\<lambda>compatible.
          if \<not> compatible then Inr (True, bp)
          else if \<not> named_hwcap \<and> best \<noteq> None then Inr (False, bp)
          else if lib_hwcap lib AND hwcap_exclude E \<noteq> 0 \<and> \<not> named_hwcap then Inr (True, bp)
          else if kernel_version E \<noteq> 0 \<and> kernel_version E < lib_osversion lib then Inr (True, bp)
          else if lib_hwcap lib AND DL_HWCAP_PLATFORM \<noteq> 0 \<and> lib_hwcap lib AND DL_HWCAP_PLATFORM \<noteq> platform_bit E
          then Inr (True, bp)
          else if named_hwcap then
            rbind (hwcaps_priority E (unat (lib_hwcap lib AND mask 32))) (\<lambda>entry_priority.
              if entry_priority = 0 then Inr (True, bp)
              else if best = None \<or> entry_priority < best_priority then Inr (True, (Some (lib_value lib), entry_priority))
              else Inr (True, bp))
          else Inr (False, (Some (lib_value lib), best_priority))))"

text \<open>The first entry with the name, back from one that has it.\<close>

fun first_match :: "byte list \<Rightarrow> nat \<Rightarrow> string \<Rightarrow> cache_entry list \<Rightarrow> nat \<Rightarrow> nat res" where
  "first_match tab sz name libs 0 = Inr 0"
| "first_match tab sz name libs (Suc m) =
     rbind (key_cmp tab sz name (libs ! m)) (\<lambda>r. if r \<noteq> Some 0 then Inr (Suc m) else first_match tab sz name libs m)"

text \<open>From there on, \<open>n\<close> entries after \<open>middle\<close>; the names up to \<open>left\<close> are known.\<close>

primrec match_loop ::
    "nat \<Rightarrow> cache_env \<Rightarrow> bool \<Rightarrow> byte list \<Rightarrow> nat \<Rightarrow> string \<Rightarrow> cache_entry list \<Rightarrow> nat \<Rightarrow> nat \<Rightarrow> nat option \<times> nat \<Rightarrow> nat option res" where
  "match_loop 0 E new tab sz name libs left middle bp = Inr (fst bp)"
| "match_loop (Suc n) E new tab sz name libs left middle bp =
     (if length libs \<le> middle then Inl Oob_read
      else
        rbind (if left < middle then key_cmp tab sz name (libs ! middle) else Inr (Some 0)) (\<lambda>r.
          if r \<noteq> Some 0 then Inr (fst bp)
          else
            rbind (consider_entry E new sz (libs ! middle) bp) (\<lambda>(go_on, bp).
              if go_on then match_loop n E new tab sz name libs left (middle + 1) bp else Inr (fst bp))))"

function search_loop ::
    "cache_env \<Rightarrow> bool \<Rightarrow> byte list \<Rightarrow> nat \<Rightarrow> string \<Rightarrow> cache_entry list \<Rightarrow> int \<Rightarrow> int \<Rightarrow> nat option res" where
  "search_loop E new tab sz name libs left right =
     (if \<not> left \<le> right then Inr None
      else if 2 ^ 31 - 1 < left + right then Inl Signed_overflow
      else
        let middle = (left + right) div 2 in
        if middle < 0 \<or> int (length libs) \<le> middle then Inl Oob_read
        else
          (case key_cmp tab sz name (libs ! nat middle) of
             Inl e \<Rightarrow> Inl e
           | Inr None \<Rightarrow> Inr None
           | Inr (Some cmpres) \<Rightarrow>
               if cmpres = 0 then
                 rbind (first_match tab sz name libs (nat middle)) (\<lambda>first.
                   match_loop (nat right + 1 - first) E new tab sz name libs (nat middle) first (None, 0))
               else if cmpres < 0 then search_loop E new tab sz name libs (middle + 1) right
               else search_loop E new tab sz name libs left (middle - 1)))"
  by pat_completeness auto
termination
  by (relation "measure (\<lambda>(_, _, _, _, _, _, left, right). nat (right + 1 - left))") auto

declare search_loop.simps [simp del]

definition search_cache :: "cache_env \<Rightarrow> bool \<Rightarrow> byte list \<Rightarrow> nat \<Rightarrow> string \<Rightarrow> cache_entry list \<Rightarrow> nat \<Rightarrow> nat option res" where
  "search_cache E new tab sz name libs nlibs = search_loop E new tab sz name libs 0 (sint (of_nat nlibs - 1 :: 32 word))"

section \<open>The extensions of the file\<close>

definition read_field :: "byte list \<Rightarrow> nat \<Rightarrow> nat \<Rightarrow> nat res" where
  "read_field file off n = (if off + n \<le> length file then Inr (field off n file) else Inl Oob_read)"

text \<open>A loaded section: its place in the file and its size, both 0 when it is missing.\<close>

definition cache_extension_magic :: nat where
  "cache_extension_magic = 2 ^ 32 - 358342284"

definition cache_extension_verify :: "nat \<times> nat \<Rightarrow> nat \<times> nat" where
  "cache_extension_verify hwcaps =
     (case hwcaps of (base, sz) \<Rightarrow> if sz = 0 \<or> base mod 4 \<noteq> 0 \<or> sz mod 4 \<noteq> 0 then (0, 0) else hwcaps)"

text \<open>The directory of sections from \<open>i\<close> on; \<open>None\<close> when a section does not fit.  Only the section of the
  glibc-hwcaps, tag 1, is kept.\<close>

fun section_loop :: "byte list \<Rightarrow> nat \<Rightarrow> nat \<Rightarrow> nat \<times> nat \<Rightarrow> (nat \<times> nat) option res" where
  "section_loop file dir 0 loaded = Inr (Some loaded)"
| "section_loop file dir (Suc n) loaded =
     rbind (read_field file dir 4) (\<lambda>tag.
     rbind (read_field file (dir + 8) 4) (\<lambda>offset.
     rbind (read_field file (dir + 12) 4) (\<lambda>sz.
       if length file < offset + sz then Inr None
       else section_loop file (dir + 16) n (if tag = 1 then (offset, sz) else loaded))))"

definition cache_extension_load :: "byte list \<Rightarrow> nat \<Rightarrow> (nat \<times> nat) option res" where
  "cache_extension_load file cache_new =
     rbind (read_field file (cache_new + 32) 4) (\<lambda>extension_offset.
       if extension_offset = 0 then Inr (Some (0, 0))
       else if extension_offset mod 4 \<noteq> 0 then Inr None
       else if length file < extension_offset + 8 then Inr None
       else
         rbind (read_field file extension_offset 4) (\<lambda>magic.
         rbind (read_field file (extension_offset + 4) 4) (\<lambda>count.
           if magic \<noteq> cache_extension_magic then Inr None
           else if length file < extension_offset + 8 + count * 16 then Inr None
           else
             rbind (section_loop file (extension_offset + 8) count (0, 0)) (\<lambda>r.
               Inr (map_option cache_extension_verify r)))))"

section \<open>Priorities of capability directories\<close>

definition glibc_hwcaps_compare :: "string \<Rightarrow> string \<Rightarrow> int" where
  "glibc_hwcaps_compare left_name right_name =
     (let to_compare = (if length left_name < length right_name then length left_name else length right_name);
          cmp = memcmp left_name right_name to_compare in
      if cmp \<noteq> 0 then cmp
      else if length left_name < length right_name then - 1
      else if length right_name < length left_name then 1
      else 0)"

text \<open>The merge of the names in the cache with \<open>_dl_hwcaps_priorities\<close>, names with their priorities; \<open>room\<close> elements of the
  result are left.\<close>

function merge_priorities :: "byte list \<Rightarrow> nat list \<Rightarrow> (string \<times> nat) list \<Rightarrow> nat \<Rightarrow> nat list res" where
  "merge_priorities file [] right room = Inr []"
| "merge_priorities file (l # left) [] room =
     (if room = 0 then Inl Oob_write else rbind (merge_priorities file left [] (room - 1)) (\<lambda>ps. Inr (0 # ps)))"
| "merge_priorities file (l # left) ((name, priority) # right) room =
     (if l < length file then
        (case table_string file l of
           Inl e \<Rightarrow> Inl e
         | Inr left_name \<Rightarrow>
             let cmp = glibc_hwcaps_compare left_name name in
             if cmp = 0 then
               if room = 0 then Inl Oob_write
               else rbind (merge_priorities file left right (room - 1)) (\<lambda>ps. Inr (priority # ps))
             else if cmp < 0 then
               if room = 0 then Inl Oob_write
               else rbind (merge_priorities file left ((name, priority) # right) (room - 1)) (\<lambda>ps. Inr (0 # ps))
             else merge_priorities file (l # left) right room)
      else if room = 0 then Inl Oob_write
      else rbind (merge_priorities file (l # left) ((name, priority) # right) (room - 1)) (\<lambda>ps. Inr (0 # ps)))"
  by pat_completeness auto
termination
  by (relation "measure (\<lambda>(_, left, right, room). length right + room)") auto

definition section_words :: "byte list \<Rightarrow> nat \<Rightarrow> nat \<Rightarrow> nat list" where
  "section_words file base n = map (\<lambda>i. field (base + 4 * i) 4 file) [0..<n]"

text \<open>\<open>glibc_hwcaps_priorities\<close>: empty when there is none.  \<open>mem_ok\<close> answers \<open>malloc\<close>.\<close>

definition glibc_hwcaps_priorities_init :: "(nat \<Rightarrow> bool) \<Rightarrow> byte list \<Rightarrow> nat \<Rightarrow> (string \<times> nat) list \<Rightarrow> nat list res" where
  "glibc_hwcaps_priorities_init mem_ok file cache_new priorities =
     rbind (cache_extension_load file cache_new) (\<lambda>ext.
       case ext of
         None \<Rightarrow> Inr []
       | Some (base, sz) \<Rightarrow>
           let n = sz div 4 in
           if 0 < n \<and> \<not> mem_ok (n * 4) then Inr []
           else merge_priorities file (section_words file base n) priorities n)"

definition glibc_hwcaps_priority :: "(nat \<Rightarrow> bool) \<Rightarrow> byte list \<Rightarrow> nat \<Rightarrow> (string \<times> nat) list \<Rightarrow> nat \<Rightarrow> nat res" where
  "glibc_hwcaps_priority mem_ok file cache_new priorities index =
     rbind (glibc_hwcaps_priorities_init mem_ok file cache_new priorities) (\<lambda>ps.
       Inr (if index < length ps then ps ! index else 0))"

section \<open>The file\<close>

text \<open>The state of the cache: not read yet, without success, or the file with the place of the part in the new format.\<close>

datatype cache_state = Unread | Unusable | Loaded "byte list" "nat option"

definition ascii :: "string \<Rightarrow> byte list" where
  "ascii s = map (\<lambda>c. of_nat (ord c)) s"

definition cache_file_new_matches_endian :: "byte list \<Rightarrow> nat \<Rightarrow> bool" where
  "cache_file_new_matches_endian file off =
     (let flags = field (off + 28) 1 file in flags = 0 \<or> flags mod 4 = 2)"

definition ALIGN_CACHE :: "nat \<Rightarrow> nat" where
  "ALIGN_CACHE addr = (addr + 7) div 8 * 8"

definition load_cache :: "byte list option \<Rightarrow> cache_state" where
  "load_cache contents =
     (case contents of
        None \<Rightarrow> Unusable
      | Some file \<Rightarrow>
          if 48 < length file \<and> take 20 file = ascii ''glibc-ld.so.cache1.1'' \<and>
             field 20 4 file \<le> (length file - 48) div 24 then
            if cache_file_new_matches_endian file 0 then Loaded file (Some 0) else Unusable
          else if 16 < length file \<and> take 11 file = ascii ''ld.so-1.7.0'' \<and> field 12 4 file \<le> (length file - 16) div 12 then
            let offset = ALIGN_CACHE (16 + field 12 4 file * 12) in
            if length file < offset + 48 \<or> take 20 (drop offset file) \<noteq> ascii ''glibc-ld.so.cache1.1'' then Loaded file None
            else if cache_file_new_matches_endian file offset then Loaded file (Some offset)
            else Unusable
          else Unusable)"

definition entry_new :: "byte list \<Rightarrow> nat \<Rightarrow> cache_entry" where
  "entry_new file off = \<lparr>lib_flags = field off 4 file, lib_key = field (off + 4) 4 file, lib_value = field (off + 8) 4 file,
     lib_osversion = field (off + 12) 4 file, lib_hwcap = of_nat (field (off + 16) 8 file)\<rparr>"

definition entry_old :: "byte list \<Rightarrow> nat \<Rightarrow> cache_entry" where
  "entry_old file off = \<lparr>lib_flags = field off 4 file, lib_key = field (off + 4) 4 file, lib_value = field (off + 8) 4 file,
     lib_osversion = 0, lib_hwcap = 0\<rparr>"

text \<open>Those of the \<open>n\<close> entries at \<open>base\<close> that lie inside the file.\<close>

definition entries :: "(byte list \<Rightarrow> nat \<Rightarrow> cache_entry) \<Rightarrow> nat \<Rightarrow> byte list \<Rightarrow> nat \<Rightarrow> nat \<Rightarrow> cache_entry list" where
  "entries entry width file base n =
     map (\<lambda>i. entry file (base + width * i)) [0..<min n ((length file - base) div width)]"

text \<open>The processor and the names with their priorities go with the call; \<open>read_file\<close> is what the file system gives.\<close>

definition dl_load_cache_lookup ::
    "(nat \<Rightarrow> bool) \<Rightarrow> cache_env \<Rightarrow> (string \<times> nat) list \<Rightarrow> byte list option \<Rightarrow> string \<Rightarrow> cache_state \<Rightarrow> (string option \<times> cache_state) res" where
  "dl_load_cache_lookup mem_ok E priorities read_file name st =
     (let st = (if st = Unread then load_cache read_file else st) in
      case st of
        Unread \<Rightarrow> Inl Assert_fail
      | Unusable \<Rightarrow> Inr (None, st)
      | Loaded file new \<Rightarrow>
          let tab = (case new of Some off \<Rightarrow> drop off file | None \<Rightarrow> drop (16 + 12 * field 12 4 file) file) in
          rbind
            (case new of
               Some off \<Rightarrow>
                 search_cache (E\<lparr>hwcaps_priority := glibc_hwcaps_priority mem_ok file off priorities\<rparr>) True tab (length file mod 2 ^ 32)
                   name (entries entry_new 24 file (off + 48) (field (off + 20) 4 file)) (field (off + 20) 4 file)
             | None \<Rightarrow> search_cache E False tab (length tab mod 2 ^ 32) name (entries entry_old 12 file 16 (field 12 4 file)) (field 12 4 file))
            (\<lambda>best.
               case best of
                 None \<Rightarrow> Inr (None, st)
               | Some ptr \<Rightarrow>
                   rbind (table_string tab ptr) (\<lambda>s. Inr (if mem_ok (length s + 1) then Some s else None, st))))"

definition dl_unload_cache :: "cache_state \<Rightarrow> cache_state" where
  "dl_unload_cache st = (case st of Loaded _ _ \<Rightarrow> Unread | _ \<Rightarrow> st)"

end
