(* ===== verification/CacheSpec.thy ===== *)
theory CacheSpec
  imports Cache
begin

text \<open>
  Correctness of the search in the cache of library names: the comparison of names is a linear preorder, and on a table
  that is sorted by it the binary search finds what a scan of the whole table finds: among the entries with the name the one
  whose capability directory has the best priority, or else the first that fits.
\<close>

section \<open>Sorted tables\<close>

definition entry_name :: "byte list \<Rightarrow> cache_entry \<Rightarrow> string" where
  "entry_name tab lib = map (\<lambda>b. char_of (unat b)) (takeWhile (\<lambda>b. b \<noteq> 0) (drop (lib_key lib) tab))"

definition entry_ok :: "byte list \<Rightarrow> nat \<Rightarrow> cache_entry \<Rightarrow> bool" where
  "entry_ok tab sz lib \<longleftrightarrow>
     lib_key lib < sz \<and> 0 \<in> set (drop (lib_key lib) tab) \<and> small_numbers (entry_name tab lib)"

definition table_ok :: "byte list \<Rightarrow> nat \<Rightarrow> cache_entry list \<Rightarrow> bool" where
  "table_ok tab sz libs \<longleftrightarrow> length libs \<le> 2 ^ 30 \<and> list_all (entry_ok tab sz) libs \<and>
     sorted_wrt (\<lambda>a b. name_key (entry_name tab b) \<le> name_key (entry_name tab a)) libs"

definition has_name :: "byte list \<Rightarrow> string \<Rightarrow> cache_entry \<Rightarrow> bool" where
  "has_name tab name lib \<longleftrightarrow> name_key (entry_name tab lib) = name_key name"

text \<open>The scan: every entry in order, until one ends it.\<close>

fun select_entries :: "cache_env \<Rightarrow> bool \<Rightarrow> nat \<Rightarrow> cache_entry list \<Rightarrow> nat option \<times> nat \<Rightarrow> nat option res" where
  "select_entries E new sz [] bp = Inr (fst bp)"
| "select_entries E new sz (lib # libs) bp =
     rbind (consider_entry E new sz lib bp) (\<lambda>(go_on, bp). if go_on then select_entries E new sz libs bp else Inr (fst bp))"

lemma nul_free_entry_name: "nul_free (entry_name tab lib)"
proof -
  have "char_of (unat b) \<noteq> NUL" if "b \<noteq> 0" for b :: "8 word"
  proof
    assume "char_of (unat b) = NUL"
    then have "(of_char (char_of (unat b) :: char) :: nat) = 0" by simp
    moreover have "unat b < 256" using unsigned_less [where ?'a = nat and w = b] by simp
    ultimately show False using that by (simp add: unat_eq_zero)
  qed
  note nonzero = this
  have "c \<noteq> NUL" if c: "c \<in> set (entry_name tab lib)" for c
  proof -
    obtain b where "c = char_of (unat b)" "b \<in> set (takeWhile (\<lambda>b. b \<noteq> 0) (drop (lib_key lib) tab))"
      using c unfolding entry_name_def set_map by blast
    then show ?thesis using nonzero set_takeWhileD by fast
  qed
  then show ?thesis by (auto simp: nul_free_def)
qed

lemma key_cmp_order:
  assumes "entry_ok tab sz lib" "nul_free name" "small_numbers name"
  shows "\<exists>r. key_cmp tab sz name lib = Inr (Some r) \<and> (r < 0 \<longleftrightarrow> name_key name < name_key (entry_name tab lib)) \<and>
    (r = 0 \<longleftrightarrow> has_name tab name lib)"
proof -
  have "table_string tab (lib_key lib) = Inr (entry_name tab lib)"
    using assms(1) by (simp add: table_string_def entry_ok_def entry_name_def)
  moreover obtain r where "dl_cache_libcmp name (entry_name tab lib) = Inr r"
      "r < 0 \<longleftrightarrow> name_key name < name_key (entry_name tab lib)" "r = 0 \<longleftrightarrow> name_key name = name_key (entry_name tab lib)"
    using dl_cache_libcmp_order [OF assms(2) nul_free_entry_name assms(3)] assms(1) by (auto simp: entry_ok_def)
  ultimately show ?thesis using assms(1)
    by (auto simp: key_cmp_def dl_cache_verify_ptr_def entry_ok_def has_name_def)
qed

lemma key_cmp_zero:
  assumes "entry_ok tab sz lib" "nul_free name" "small_numbers name"
  shows "\<exists>r. key_cmp tab sz name lib = Inr r \<and> (r = Some 0 \<longleftrightarrow> has_name tab name lib)"
  using key_cmp_order [OF assms] by auto

section \<open>The entries with the name\<close>

lemma match_loop_select:
  assumes "list_all (entry_ok tab sz) libs" "nul_free name" "small_numbers name"
  shows "\<forall>i. middle \<le> i \<longrightarrow> i \<le> left \<longrightarrow> has_name tab name (libs ! i) \<Longrightarrow> middle + n \<le> length libs \<Longrightarrow>
     match_loop n E new tab sz name libs left middle bp =
       select_entries E new sz (takeWhile (has_name tab name) (take n (drop middle libs))) bp"
proof (induction n arbitrary: middle bp)
  case 0
  then show ?case by simp
next
  case (Suc n)
  let ?lib = "libs ! middle"
  have mid: "middle < length libs" using Suc.prems(2) by simp
  then have "entry_ok tab sz ?lib" using assms(1) by (simp add: list_all_length)
  then obtain r where r: "key_cmp tab sz name ?lib = Inr r" "r = Some 0 \<longleftrightarrow> has_name tab name ?lib"
    using key_cmp_zero assms(2,3) by blast
  have split: "take (Suc n) (drop middle libs) = ?lib # take n (drop (middle + 1) libs)"
    using mid by (simp add: Cons_nth_drop_Suc [symmetric])
  have IH: "match_loop n E new tab sz name libs left (middle + 1) bp' =
      select_entries E new sz (takeWhile (has_name tab name) (take n (drop (middle + 1) libs))) bp'" for bp'
    using Suc.IH [of "middle + 1" bp'] Suc.prems by simp
  have known: "(if left < middle then key_cmp tab sz name ?lib else Inr (Some 0)) = Inr (Some 0) \<longleftrightarrow> has_name tab name ?lib"
    using r Suc.prems(1) by auto
  show ?case
  proof (cases "has_name tab name ?lib")
    case True
    then have "(if left < middle then key_cmp tab sz name ?lib else Inr (Some 0)) = Inr (Some 0)" using known by blast
    then show ?thesis using True mid IH unfolding split
      by (simp add: rbind_def split: sum.splits prod.splits)
  next
    case False
    then have "left < middle" using Suc.prems(1) by (meson linorder_not_less order_refl)
    then show ?thesis using False mid r unfolding split by simp
  qed
qed

lemma first_match_start:
  assumes "list_all (entry_ok tab sz) libs" "nul_free name" "small_numbers name"
  shows "m \<le> length libs \<Longrightarrow> \<exists>f \<le> m. first_match tab sz name libs m = Inr f \<and>
     (\<forall>i. f \<le> i \<longrightarrow> i < m \<longrightarrow> has_name tab name (libs ! i)) \<and> (f = 0 \<or> \<not> has_name tab name (libs ! (f - 1)))"
proof (induction m)
  case (Suc m)
  then have "entry_ok tab sz (libs ! m)" using assms(1) by (simp add: list_all_length)
  then obtain r where r: "key_cmp tab sz name (libs ! m) = Inr r" "r = Some 0 \<longleftrightarrow> has_name tab name (libs ! m)"
    using key_cmp_zero assms(2,3) by blast
  show ?case
  proof (cases "has_name tab name (libs ! m)")
    case False
    then show ?thesis using r by (intro exI [of _ "Suc m"]) auto
  next
    case True
    obtain f where "f \<le> m" "first_match tab sz name libs m = Inr f" "\<forall>i. f \<le> i \<longrightarrow> i < m \<longrightarrow> has_name tab name (libs ! i)"
        "f = 0 \<or> \<not> has_name tab name (libs ! (f - 1))"
      using Suc.IH Suc.prems by auto
    then show ?thesis using True r by (intro exI [of _ f]) (auto simp: less_Suc_eq)
  qed
qed simp

lemma takeWhile_filter_sorted:
  fixes key :: "'a \<Rightarrow> 'b :: linorder"
  shows "sorted_wrt (\<lambda>a b. key b \<le> key a) xs \<Longrightarrow> \<forall>x \<in> set xs. key x \<le> K \<Longrightarrow>
     takeWhile (\<lambda>x. key x = K) xs = filter (\<lambda>x. key x = K) xs"
proof (induction xs)
  case (Cons x xs)
  show ?case
  proof (cases "key x = K")
    case False
    then have "key x < K" using Cons.prems(2) by auto
    then have "\<forall>y \<in> set xs. key y \<noteq> K" using Cons.prems(1) by auto
    then show ?thesis using False by (simp add: filter_empty_conv)
  qed (use Cons in auto)
qed simp

text \<open>A slice that holds all entries with the name, from the first of them on.\<close>

lemma slice_filter:
  assumes sorted: "sorted_wrt (\<lambda>a b. name_key (entry_name tab b) \<le> name_key (entry_name tab a)) libs"
    and f: "f \<le> m" "m < length libs" "m \<le> r" "r < length libs" "\<forall>i. f \<le> i \<longrightarrow> i \<le> m \<longrightarrow> has_name tab name (libs ! i)"
    and first: "f = 0 \<or> \<not> has_name tab name (libs ! (f - 1))"
    and above: "\<forall>i. r < i \<longrightarrow> i < length libs \<longrightarrow> \<not> has_name tab name (libs ! i)"
  shows "takeWhile (has_name tab name) (take (r + 1 - f) (drop f libs)) = filter (has_name tab name) libs"
proof -
  let ?k = "\<lambda>i. name_key (entry_name tab (libs ! i))" and ?K = "name_key name"
  have mono: "?k j \<le> ?k i" if "i \<le> j" "j < length libs" for i j
    using sorted that by (cases "i = j") (auto simp: sorted_wrt_iff_nth_less)
  have kf: "?k f = ?K" using f by (simp add: has_name_def)
  have below: "\<not> has_name tab name (libs ! i)" if "i < f" for i
  proof -
    have "f \<noteq> 0" "i \<le> f - 1" "f - 1 < length libs" using that f by auto
    with first have "?k (f - 1) \<noteq> ?K" "?k (f - 1) \<le> ?k i" using mono by (auto simp: has_name_def)
    moreover have "?k f \<le> ?k (f - 1)" using mono f by simp
    ultimately show ?thesis using kf by (auto simp: has_name_def)
  qed
  let ?mid = "take (r + 1 - f) (drop f libs)"
  have parts: "libs = take f libs @ ?mid @ drop (r + 1) libs"
  proof -
    have "drop f libs = ?mid @ drop (r + 1 - f) (drop f libs)" by (simp only: append_take_drop_id)
    also have "drop (r + 1 - f) (drop f libs) = drop (r + 1) libs" using f by simp
    finally show ?thesis by (metis append_take_drop_id)
  qed
  have "filter (has_name tab name) (take f libs) = []"
    using below by (auto simp: filter_empty_conv in_set_conv_nth)
  moreover have "filter (has_name tab name) (drop (r + 1) libs) = []"
    using above by (auto simp: filter_empty_conv in_set_conv_nth)
  ultimately have all: "filter (has_name tab name) libs = filter (has_name tab name) ?mid"
    by (subst parts) (simp only: filter_append append_Nil append_Nil2)
  have "sorted_wrt (\<lambda>a b. name_key (entry_name tab b) \<le> name_key (entry_name tab a)) ?mid"
    using sorted by (intro sorted_wrt_take sorted_wrt_drop)
  moreover have "name_key (entry_name tab x) \<le> ?K" if x: "x \<in> set ?mid" for x
  proof -
    obtain j where j: "j < length ?mid" "?mid ! j = x" using x unfolding in_set_conv_nth by blast
    then have "x = libs ! (f + j)" "f + j < length libs" by auto
    then show ?thesis using mono [of f "f + j"] kf by simp
  qed
  ultimately have "takeWhile (has_name tab name) ?mid = filter (has_name tab name) ?mid"
    unfolding has_name_def by (intro takeWhile_filter_sorted) auto
  then show ?thesis using all by simp
qed

lemma search_loop_select:
  assumes ok: "table_ok tab sz libs" and name: "nul_free name" "small_numbers name"
  shows "0 \<le> left \<Longrightarrow> right < int (length libs) \<Longrightarrow>
     \<forall>i. int i < left \<longrightarrow> i < length libs \<longrightarrow> name_key name < name_key (entry_name tab (libs ! i)) \<Longrightarrow>
     \<forall>i. right < int i \<longrightarrow> i < length libs \<longrightarrow> name_key (entry_name tab (libs ! i)) < name_key name \<Longrightarrow>
     search_loop E new tab sz name libs left right = select_entries E new sz (filter (has_name tab name) libs) (None, 0)"
proof (induction "nat (right + 1 - left)" arbitrary: left right rule: less_induct)
  case less
  let ?k = "\<lambda>i. name_key (entry_name tab (libs ! i))" and ?K = "name_key name"
  have entries: "list_all (entry_ok tab sz) libs"
    and sorted: "sorted_wrt (\<lambda>a b. name_key (entry_name tab b) \<le> name_key (entry_name tab a)) libs"
    and len: "length libs \<le> 2 ^ 30"
    using ok by (auto simp: table_ok_def)
  have mono: "?k j \<le> ?k i" if "i \<le> j" "j < length libs" for i j
    using sorted that by (cases "i = j") (auto simp: sorted_wrt_iff_nth_less)
  show ?case
  proof (cases "left \<le> right")
    case False
    have "\<not> has_name tab name x" if "x \<in> set libs" for x
    proof -
      obtain i where i: "i < length libs" "x = libs ! i" using \<open>x \<in> set libs\<close> by (auto simp: in_set_conv_nth)
      have "int i < left \<or> right < int i" using False by linarith
      then have "?k i \<noteq> ?K" using less.prems(3,4) i(1) by auto
      then show ?thesis by (simp add: has_name_def i)
    qed
    then have "filter (has_name tab name) libs = []" by (simp add: filter_empty_conv)
    then show ?thesis using False by (simp add: search_loop.simps [of _ _ _ _ _ _ left])
  next
    case True
    define middle where "middle = (left + right) div 2"
    have mid: "left \<le> middle" "middle \<le> right" using True by (auto simp: middle_def)
    then have range: "\<not> (middle < 0 \<or> int (length libs) \<le> middle)" using less.prems(1,2) by simp
    define m where "m = nat middle"
    have m: "middle = int m" "m < length libs" using range by (auto simp: m_def)
    have sum: "\<not> 2 ^ 31 - 1 < left + right" using True less.prems(2) len by simp
    obtain r where r: "key_cmp tab sz name (libs ! m) = Inr (Some r)" "r < 0 \<longleftrightarrow> ?K < ?k m" "r = 0 \<longleftrightarrow> has_name tab name (libs ! m)"
      using key_cmp_order [of tab sz "libs ! m" name] entries m(2) name by (auto simp: list_all_length)
    have unf: "search_loop E new tab sz name libs left right =
        (if r = 0 then
           rbind (first_match tab sz name libs m) (\<lambda>first.
             match_loop (nat right + 1 - first) E new tab sz name libs m first (None, 0))
         else if r < 0 then search_loop E new tab sz name libs (middle + 1) right
         else search_loop E new tab sz name libs left (middle - 1))"
      using True sum range r(1) by (subst search_loop.simps) (simp add: middle_def [symmetric] m_def [symmetric] Let_def)
    consider "r = 0" | "r < 0" | "0 < r" by linarith
    then show ?thesis
    proof cases
      case 1
      then have here: "has_name tab name (libs ! m)" using r(3) by simp
      obtain f where f: "f \<le> m" "first_match tab sz name libs m = Inr f"
          "\<forall>i. f \<le> i \<longrightarrow> i < m \<longrightarrow> has_name tab name (libs ! i)" "f = 0 \<or> \<not> has_name tab name (libs ! (f - 1))"
        using first_match_start [OF entries name, of m] m(2) by auto
      then have known: "\<forall>i. f \<le> i \<longrightarrow> i \<le> m \<longrightarrow> has_name tab name (libs ! i)" using here by (auto simp: le_less)
      have rr: "m \<le> nat right" "nat right < length libs" using mid m less.prems(2) by auto
      have above: "\<forall>i. nat right < i \<longrightarrow> i < length libs \<longrightarrow> \<not> has_name tab name (libs ! i)"
      proof (intro allI impI)
        fix i
        assume i: "nat right < i" "i < length libs"
        have "right < int i" using i(1) by linarith
        then show "\<not> has_name tab name (libs ! i)" using less.prems(4) i(2) by (auto simp: has_name_def)
      qed
      have "search_loop E new tab sz name libs left right = match_loop (nat right + 1 - f) E new tab sz name libs m f (None, 0)"
        using unf 1 f(2) by simp
      also have "\<dots> = select_entries E new sz (takeWhile (has_name tab name) (take (nat right + 1 - f) (drop f libs))) (None, 0)"
        using match_loop_select [OF entries name known] f(1) rr by simp
      also have "takeWhile (has_name tab name) (take (nat right + 1 - f) (drop f libs)) = filter (has_name tab name) libs"
        by (rule slice_filter [OF sorted f(1) m(2) rr known f(4) above])
      finally show ?thesis .
    next
      case 2
      have "?K < ?k i" if "int i < middle + 1" "i < length libs" for i
        using less_le_trans [of ?K "?k m" "?k i"] mono [of i m] that m r(2) 2 by simp
      then show ?thesis using unf 2 less.hyps [of right "middle + 1"] less.prems mid True by simp
    next
      case 3
      then have "?k m < ?K" using r by (auto simp: has_name_def)
      then have "?k i < ?K" if "middle - 1 < int i" "i < length libs" for i
        using le_less_trans [of "?k i" "?k m" ?K] mono [of m i] that m by simp
      then show ?thesis using unf 3 less.hyps [of "middle - 1" left] less.prems mid True by simp
    qed
  qed
qed

lemma sint_of_nat32: "v < 2 ^ 31 \<Longrightarrow> sint (of_nat v :: 32 word) = int v"
  by (simp add: signed_of_nat signed_take_bit_int_eq_self_iff)

lemma search_cache_select:
  assumes "table_ok tab sz libs" "nul_free name" "small_numbers name"
  shows "search_cache E new tab sz name libs (length libs) =
    select_entries E new sz (filter (has_name tab name) libs) (None, 0)"
proof -
  have "length libs \<le> 2 ^ 30" using assms(1) by (simp add: table_ok_def)
  then have "sint (of_nat (length libs) - 1 :: 32 word) = int (length libs) - 1"
    using sint_of_nat32 [of "length libs - 1"] by (cases "length libs") simp_all
  then show ?thesis using search_loop_select [OF assms, of 0 "int (length libs) - 1"] by (simp add: search_cache_def)
qed

section \<open>The best entry\<close>

text \<open>An entry without a named capability that fits, and the priority of an entry with one.\<close>

definition runs_here :: "cache_env \<Rightarrow> nat \<Rightarrow> cache_entry \<Rightarrow> bool" where
  "runs_here E sz lib \<longleftrightarrow>
     lib_flags lib = DL_CACHE_DEFAULT_ID \<and> lib_value lib < sz \<and>
     (kernel_version E = 0 \<or> lib_osversion lib \<le> kernel_version E) \<and>
     (lib_hwcap lib AND DL_HWCAP_PLATFORM = 0 \<or> lib_hwcap lib AND DL_HWCAP_PLATFORM = platform_bit E)"

definition plain_fits :: "cache_env \<Rightarrow> nat \<Rightarrow> cache_entry \<Rightarrow> bool" where
  "plain_fits E sz lib \<longleftrightarrow> runs_here E sz lib \<and> lib_hwcap lib AND hwcap_exclude E = 0"

definition named_priority :: "cache_env \<Rightarrow> nat \<Rightarrow> cache_entry \<Rightarrow> nat option" where
  "named_priority E sz lib =
     (if runs_here E sz lib \<and> dl_cache_hwcap_isa_level_compatible E lib = Inr True then
        (case hwcaps_priority E (unat (lib_hwcap lib AND mask 32)) of Inr p \<Rightarrow> if p = 0 then None else Some p | Inl _ \<Rightarrow> None)
      else None)"

text \<open>Entries whose level and priority can be evaluated.\<close>

definition named_ok :: "cache_env \<Rightarrow> cache_entry \<Rightarrow> bool" where
  "named_ok E lib \<longleftrightarrow> dl_cache_hwcap_extension lib \<and>
     (\<exists>b. dl_cache_hwcap_isa_level_compatible E lib = Inr b) \<and> (\<exists>p. hwcaps_priority E (unat (lib_hwcap lib AND mask 32)) = Inr p)"

lemma consider_named:
  assumes "named_ok E lib"
  shows "consider_entry E True sz lib (best, bp) =
     Inr (True, (case named_priority E sz lib of
       None \<Rightarrow> (best, bp)
     | Some p \<Rightarrow> if best = None \<or> p < bp then (Some (lib_value lib), p) else (best, bp)))"
  using assms
  by (auto simp: consider_entry_def named_ok_def named_priority_def runs_here_def dl_cache_verify_ptr_def Let_def rbind_def not_le)

lemma consider_plain:
  assumes "\<not> dl_cache_hwcap_extension lib"
  shows "consider_entry E True sz lib (None, bp) = Inr (if plain_fits E sz lib then (False, (Some (lib_value lib), bp)) else (True, (None, bp)))"
    "consider_entry E True sz lib (Some v, bp) =
       Inr (\<not> (lib_flags lib = DL_CACHE_DEFAULT_ID \<and> lib_value lib < sz), (Some v, bp))"
  using assms by (auto simp: consider_entry_def plain_fits_def runs_here_def dl_cache_verify_ptr_def Let_def not_le)

lemma select_plain:
  "list_all (\<lambda>lib. \<not> dl_cache_hwcap_extension lib) us \<Longrightarrow>
     select_entries E True sz us (None, bp) = Inr (map_option lib_value (find (plain_fits E sz) us))"
  "list_all (\<lambda>lib. \<not> dl_cache_hwcap_extension lib) us \<Longrightarrow> select_entries E True sz us (Some v, bp) = Inr (Some v)"
  by (induction us) (simp_all add: consider_plain)

text \<open>The best named entry of a list, if there is one, otherwise what was there before.\<close>

fun best_named :: "cache_env \<Rightarrow> nat \<Rightarrow> cache_entry list \<Rightarrow> nat option \<times> nat \<Rightarrow> nat option \<times> nat" where
  "best_named E sz [] b = b"
| "best_named E sz (lib # libs) b =
     best_named E sz libs (case named_priority E sz lib of
       None \<Rightarrow> b
     | Some p \<Rightarrow> if fst b = None \<or> p < snd b then (Some (lib_value lib), p) else b)"

lemma select_named:
  "list_all (named_ok E) ns \<Longrightarrow> select_entries E True sz (ns @ us) b = select_entries E True sz us (best_named E sz ns b)"
proof (induction ns arbitrary: b)
  case (Cons lib ns)
  then show ?case by (cases b) (auto simp: consider_named split: option.splits)
qed simp

lemma best_named_result:
  "case best_named E sz ns (best, bp) of
     (None, _) \<Rightarrow> best = None \<and> (\<forall>lib \<in> set ns. named_priority E sz lib = None)
   | (Some v, p) \<Rightarrow>
       (\<forall>lib \<in> set ns. \<forall>q. named_priority E sz lib = Some q \<longrightarrow> p \<le> q) \<and> (best \<noteq> None \<longrightarrow> p \<le> bp) \<and>
       ((best = Some v \<and> p = bp) \<or> (\<exists>lib \<in> set ns. named_priority E sz lib = Some p \<and> lib_value lib = v))"
proof (induction ns arbitrary: best bp)
  case Nil
  then show ?case by (cases best) auto
next
  case (Cons lib ns)
  show ?case
  proof (cases "named_priority E sz lib")
    case None
    then show ?thesis using Cons [of best bp] by (auto split: prod.splits option.splits)
  next
    case (Some p)
    show ?thesis
    proof (cases "best = None \<or> p < bp")
      case True
      then show ?thesis using Some Cons [of "Some (lib_value lib)" p] by (auto split: prod.splits option.splits)
    next
      case False
      then show ?thesis using Some Cons [of best bp] by (auto split: prod.splits option.splits)
    qed
  qed
qed

section \<open>Priorities\<close>

text \<open>Names are compared as lists of unsigned characters.\<close>

definition ords :: "string \<Rightarrow> nat list" where
  "ords s = map of_char s"

lemma ords_inj: "ords a = ords b \<longleftrightarrow> a = b"
  by (auto simp: ords_def list_eq_iff_nth_eq)

lemma ords_simps [simp]: "ords [] = []" "ords (c # s) = ord c # ords s"
  by (simp_all add: ords_def)

lemma glibc_hwcaps_compare_order:
  "(glibc_hwcaps_compare a b = 0 \<longleftrightarrow> a = b) \<and> (glibc_hwcaps_compare a b < 0 \<longleftrightarrow> ords a < ords b)"
proof (induction a arbitrary: b)
  case Nil
  then show ?case by (cases b) (auto simp: glibc_hwcaps_compare_def)
next
  case (Cons c a)
  show ?case
  proof (cases b)
    case Nil
    then show ?thesis by (simp add: glibc_hwcaps_compare_def)
  next
    case b: (Cons d b')
    show ?thesis
    proof (cases "c = d")
      case True
      have "glibc_hwcaps_compare (c # a) b = glibc_hwcaps_compare a b'"
        using True b by (simp add: glibc_hwcaps_compare_def)
      then show ?thesis using Cons.IH [of b'] b True by simp
    next
      case False
      then have "ord c \<noteq> ord d" by (simp only: of_char_eq_iff not_False_eq_True)
      then show ?thesis using b False by (auto simp: glibc_hwcaps_compare_def Let_def)
    qed
  qed
qed

text \<open>The names of the section, as the code reads them.\<close>

definition string_at :: "byte list \<Rightarrow> nat \<Rightarrow> string" where
  "string_at file l = map (\<lambda>b. char_of (unat b)) (takeWhile (\<lambda>b. b \<noteq> 0) (drop l file))"

definition names_in_file :: "byte list \<Rightarrow> nat list \<Rightarrow> bool" where
  "names_in_file file left \<longleftrightarrow> (\<forall>l \<in> set left. 0 \<in> set (drop l file))"

lemma names_in_fileD:
  "names_in_file file (l # left) \<Longrightarrow> l < length file \<and> table_string file l = Inr (string_at file l) \<and> names_in_file file left"
proof -
  assume *: "names_in_file file (l # left)"
  then have zero: "0 \<in> set (drop l file)" by (simp add: names_in_file_def)
  then have "l < length file" by (metis drop_all empty_iff empty_set linorder_not_less)
  with * zero show ?thesis by (simp add: names_in_file_def table_string_def string_at_def)
qed

lemma merge_priorities_lookup:
  "names_in_file file left \<Longrightarrow> sorted_wrt (\<lambda>a b. ords (string_at file a) < ords (string_at file b)) left \<Longrightarrow>
     sorted (map (\<lambda>r. ords (fst r)) right) \<Longrightarrow> length left \<le> room \<Longrightarrow>
     merge_priorities file left right room =
       Inr (map (\<lambda>l. case map_of right (string_at file l) of None \<Rightarrow> 0 | Some p \<Rightarrow> p) left)"
proof (induction "file" left right room rule: merge_priorities.induct)
  case (1 "file" right room)
  then show ?case by simp
next
  case (2 "file" l left room)
  then show ?case using names_in_fileD [OF "2.prems"(1)] by simp
next
  case (3 "file" l left name priority right room)
  let ?n = "string_at file l" and ?val = "\<lambda>right l. case map_of right (string_at file l) of None \<Rightarrow> 0 | Some p \<Rightarrow> p"
  have l: "l < length file" "table_string file l = Inr ?n" "names_in_file file left"
    using names_in_fileD [OF "3.prems"(1)] by auto
  have left: "sorted_wrt (\<lambda>a b. ords (string_at file a) < ords (string_at file b)) left"
      "\<forall>a \<in> set left. ords ?n < ords (string_at file a)"
    using "3.prems"(2) by auto
  have right: "sorted (map (\<lambda>r. ords (fst r)) right)" "\<forall>r \<in> set right. ords name \<le> ords (fst r)"
    using "3.prems"(3) by auto
  have room: "room \<noteq> 0" "length left \<le> room - 1" using "3.prems"(4) by auto
  consider "?n = name" | "ords ?n < ords name" | "ords name < ords ?n"
    using ords_inj [of ?n name] by (metis linorder_less_linear)
  then show ?case
  proof cases
    case 1
    then have cmp: "glibc_hwcaps_compare ?n name = 0" using glibc_hwcaps_compare_order by blast
    have "merge_priorities file left right (room - 1) = Inr (map (?val right) left)"
      using "3.IH"(1) l cmp room left right by simp
    moreover have "?val right a = ?val ((name, priority) # right) a" if "a \<in> set left" for a
      using left(2) that 1 by auto
    ultimately show ?thesis using l cmp room 1 by simp
  next
    case 2
    then have cmp: "glibc_hwcaps_compare ?n name < 0" "glibc_hwcaps_compare ?n name \<noteq> 0"
      using glibc_hwcaps_compare_order [of ?n name] by auto
    have "merge_priorities file left ((name, priority) # right) (room - 1) = Inr (map (?val ((name, priority) # right)) left)"
      using "3.IH"(2) l cmp room left "3.prems"(3) by simp
    moreover have "map_of ((name, priority) # right) ?n = None"
    proof -
      have "ords ?n < ords (fst r)" if "r \<in> set right" for r using right(2) that 2 by (meson less_le_trans)
      then show ?thesis using 2 by (force simp: map_of_eq_None_iff)
    qed
    ultimately show ?thesis using l cmp room by simp
  next
    case 3
    then have cmp: "\<not> glibc_hwcaps_compare ?n name < 0" "glibc_hwcaps_compare ?n name \<noteq> 0"
      using glibc_hwcaps_compare_order [of ?n name] by auto
    have "merge_priorities file (l # left) right room = Inr (map (?val right) (l # left))"
      using "3.IH"(3) l cmp "3.prems" right by simp
    moreover have "?val right a = ?val ((name, priority) # right) a" if "a \<in> set (l # left)" for a
    proof -
      have "ords name < ords (string_at file a)" using that left(2) 3 by (auto intro: less_trans)
      then show ?thesis by auto
    qed
    ultimately show ?thesis using l cmp by simp
  qed
qed

lemma merge_priorities_bogus:
  "length file \<le> l \<Longrightarrow> merge_priorities file (l # left) (r # right) room = Inl Oob_write"
proof (induction room)
  case 0
  then show ?case by (cases r) simp
next
  case (Suc room)
  then show ?case by (cases r) simp
qed

lemma entries_new_complete:
  "load_cache (Some file) = Loaded file (Some 0) \<Longrightarrow> take 11 file \<noteq> ascii ''ld.so-1.7.0'' \<Longrightarrow>
     length (entries entry_new 24 file 48 (field 20 4 file)) = field 20 4 file"
  by (simp add: load_cache_def entries_def Let_def split: if_splits)

section \<open>Properties of the cache\<close>

text \<open>C13: the comparison of library names is a linear preorder: names are compared as lists of their numbers and other
  characters, with numbers by value and after all characters, lexicographically; it only fails on numbers of 31 bits and more.\<close>

theorem dl_cache_libcmp_lexicographic:
  assumes "nul_free a" "nul_free b" "small_numbers a" "small_numbers b"
  shows "\<exists>r. dl_cache_libcmp a b = Inr r \<and> (r < 0 \<longleftrightarrow> name_key a < name_key b) \<and> (r = 0 \<longleftrightarrow> name_key a = name_key b)"
  using assms by (rule dl_cache_libcmp_order)

text \<open>C12: on a table sorted by that order, in which the entries for named capabilities come first among those of a name, the
  binary search returns the entry of the name with the best priority, or without such an entry the first one that fits, or
  nothing if there is none; it always returns.\<close>

theorem search_cache_best:
  assumes "table_ok tab sz libs" "nul_free name" "small_numbers name"
    and "filter (has_name tab name) libs = ns @ us" "list_all (named_ok E) ns"
    and "list_all (\<lambda>lib. \<not> dl_cache_hwcap_extension lib) us"
  shows "case search_cache E True tab sz name libs (length libs) of
      Inr None \<Rightarrow> (\<forall>lib \<in> set ns. named_priority E sz lib = None) \<and> \<not> (\<exists>lib \<in> set us. plain_fits E sz lib)
    | Inr (Some v) \<Rightarrow>
        (\<exists>lib \<in> set ns. \<exists>p. named_priority E sz lib = Some p \<and> lib_value lib = v \<and>
           (\<forall>lib' \<in> set ns. \<forall>q. named_priority E sz lib' = Some q \<longrightarrow> p \<le> q)) \<or>
        (\<forall>lib \<in> set ns. named_priority E sz lib = None) \<and> (\<exists>lib. find (plain_fits E sz) us = Some lib \<and> lib_value lib = v)
    | Inl _ \<Rightarrow> False"
proof -
  have "search_cache E True tab sz name libs (length libs) = select_entries E True sz us (best_named E sz ns (None, 0))"
    using search_cache_select [OF assms(1-3)] assms(4) select_named [OF assms(5)] by simp
  moreover note best_named_result [where E = E and sz = sz and ns = ns and best = None and bp = 0]
  ultimately show ?thesis
    using select_plain [OF assms(6)]
    by (cases "best_named E sz ns (None, 0)"; cases "fst (best_named E sz ns (None, 0))")
      (auto simp: find_None_iff split: option.splits)
qed

text \<open>C14: when the section of the capability names in the file is sorted, each name has the priority that the loader computed
  for it, and 0 if the loader does not know it.\<close>

theorem glibc_hwcaps_priority_lookup:
  assumes "cache_extension_load file off = Inr (Some (base, sz))" "mem_ok (sz div 4 * 4)"
    and "names_in_file file (section_words file base (sz div 4))"
    and "sorted_wrt (\<lambda>a b. ords (string_at file a) < ords (string_at file b)) (section_words file base (sz div 4))"
    and "sorted (map (\<lambda>r. ords (fst r)) priorities)"
  shows "glibc_hwcaps_priority mem_ok file off priorities index =
    Inr (if index < sz div 4
         then (case map_of priorities (string_at file (section_words file base (sz div 4) ! index)) of None \<Rightarrow> 0 | Some p \<Rightarrow> p)
         else 0)"
  using assms merge_priorities_lookup [OF assms(3-5), of "sz div 4"]
  by (auto simp: glibc_hwcaps_priority_def glibc_hwcaps_priorities_init_def Let_def section_words_def)

lemma merge_priorities_overflow:
  "names_in_file file before \<Longrightarrow> length file \<le> l \<Longrightarrow> right \<noteq> [] \<Longrightarrow>
     \<forall>a \<in> set before. ords (string_at file a) < ords (fst (last right)) \<Longrightarrow>
     merge_priorities file (before @ l # behind) right room = Inl Oob_write"
proof (induction "file" "before @ l # behind" right room arbitrary: before rule: merge_priorities.induct)
  case (3 "file" l0 left name priority right room)
  show ?case
  proof (cases before)
    case Nil
    then show ?thesis using "3.hyps" "3.prems" merge_priorities_bogus [of "file" l behind "(name, priority)" right room] by simp
  next
    case (Cons a before')
    let ?n = "string_at file a"
    have eq: "l0 # left = before @ l # behind" using "3.hyps" by simp
    then have l0: "l0 = a" "left = before' @ l # behind" using Cons by simp_all
    have a: "a < length file" "table_string file a = Inr ?n" "names_in_file file before'"
      using names_in_fileD [of "file" a before'] "3.prems"(1) Cons by auto
    have less: "ords ?n < ords (fst (last ((name, priority) # right)))" using "3.prems"(4) Cons by simp
    note cmp = glibc_hwcaps_compare_order [of ?n name]
    consider "?n = name" | "ords ?n < ords name" | "ords name < ords ?n"
      using ords_inj [of ?n name] by (metis linorder_less_linear)
    then show ?thesis
    proof cases
      case 1
      then have "right \<noteq> []" using less by auto
      then have "merge_priorities file left right (room - 1) = Inl Oob_write" if "room \<noteq> 0"
        using "3.hyps" "3.prems" that a Cons l0 cmp 1 by auto
      then show ?thesis using a cmp 1 l0 Cons by (auto simp: Let_def)
    next
      case 2
      then have "merge_priorities file left ((name, priority) # right) (room - 1) = Inl Oob_write" if "room \<noteq> 0"
        using "3.hyps" "3.prems" that a Cons l0 cmp 2 by auto
      then show ?thesis using a cmp 2 l0 Cons by (auto simp: Let_def)
    next
      case 3
      then have "right \<noteq> []" using less by auto
      then have "merge_priorities file (before @ l # behind) right room = Inl Oob_write"
        using "3.hyps"(3) [of ?n _ before] eq "3.prems" a(1,2) less l0(1) cmp 3 by auto
      then show ?thesis using a cmp 3 l0 Cons by (auto simp: Let_def)
    qed
  qed
qed simp_all

text \<open>C15: an index in that section that points outside the file makes the loader write behind the array of priorities if the
  names before it are smaller than the last name that the loader knows; in particular if it is the first index.  The names are
  then not used up when the index is reached, and the loop does not get past it.\<close>

theorem glibc_hwcaps_priority_overflow:
  assumes "cache_extension_load file off = Inr (Some (base, sz))" "mem_ok (sz div 4 * 4)"
    and "section_words file base (sz div 4) = before @ l # behind" "names_in_file file before" "length file \<le> l"
    and "priorities \<noteq> []" "\<forall>a \<in> set before. ords (string_at file a) < ords (fst (last priorities))"
  shows "glibc_hwcaps_priority mem_ok file off priorities index = Inl Oob_write"
  using assms merge_priorities_overflow [OF assms(4-7), of behind "sz div 4"]
  by (auto simp: glibc_hwcaps_priority_def glibc_hwcaps_priorities_init_def Let_def)

section \<open>A small cache\<close>

theorem dl_cache_libcmp_lexicographic_witness: "\<exists>r. dl_cache_libcmp ''libc.so.6'' ''libc.so.10'' = Inr r \<and> r < 0"
proof -
  have "small_numbers ''libc.so.6''" "small_numbers ''libc.so.10''" "name_key ''libc.so.6'' < name_key ''libc.so.10''"
    by code_simp+
  moreover have "nul_free ''libc.so.6''" "nul_free ''libc.so.10''" by simp_all
  ultimately show ?thesis using dl_cache_libcmp_lexicographic by blast
qed

definition demo_table :: "byte list" where
  "demo_table = ascii ''a.so.10'' @ [0] @ ascii ''a.so.9'' @ [0] @ ascii ''/lib/a.so.9'' @ [0]"

definition demo_entry :: "nat \<Rightarrow> cache_entry" where
  "demo_entry key = \<lparr>lib_flags = 0x303, lib_key = key, lib_value = 15, lib_osversion = 0, lib_hwcap = 0\<rparr>"

definition demo_cache_env :: cache_env where
  "demo_cache_env = \<lparr>platform_bit = - 1, hwcap_masked = 0, isa_1 = 1, kernel_version = 0, hwcaps_priority = (\<lambda>_. Inr 0)\<rparr>"

theorem search_cache_best_witness:
  "search_cache demo_cache_env True demo_table 27 ''a.so.9'' [demo_entry 0, demo_entry 8] 2 = Inr (Some 15)"
proof -
  let ?libs = "[demo_entry 0, demo_entry 8]"
  have "list_all (entry_ok demo_table 27) ?libs"
      "sorted_wrt (\<lambda>a b. name_key (entry_name demo_table b) \<le> name_key (entry_name demo_table a)) ?libs"
    by code_simp+
  then have ok: "table_ok demo_table 27 ?libs" by (simp add: table_ok_def)
  have name: "nul_free ''a.so.9''" "small_numbers ''a.so.9''" by code_simp+
  have here: "filter (has_name demo_table ''a.so.9'') ?libs = [] @ [demo_entry 8]" by code_simp
  have plain: "list_all (\<lambda>lib. \<not> dl_cache_hwcap_extension lib) [demo_entry 8]" by code_simp
  have fits: "plain_fits demo_cache_env 27 (demo_entry 8)" by code_simp
  have found: "find (plain_fits demo_cache_env 27) [demo_entry 8] = Some (demo_entry 8)" using fits by simp
  have val: "lib_value (demo_entry 8) = 15" by (simp add: demo_entry_def)
  have len: "length ?libs = 2" by simp
  show ?thesis
    using search_cache_best [OF ok name here _ plain, of demo_cache_env, unfolded len found] val fits
    by (auto split: sum.splits option.splits)
qed

text \<open>A file with one section, whose only name is at \<open>ptr\<close>.\<close>

definition demo_cache_file :: "byte \<Rightarrow> byte list" where
  "demo_cache_file ptr =
     replicate 32 0 @ [48, 0, 0, 0] @ replicate 12 0 @ [0x74, 0x21, 0xA4, 0xEA, 1, 0, 0, 0] @
     [1, 0, 0, 0, 0, 0, 0, 0, 72, 0, 0, 0, 4, 0, 0, 0] @ [ptr, 0, 0, 0] @ ascii ''x86-64-v2'' @ [0]"

lemma demo_cache_file_length: "length (demo_cache_file ptr) = 86"
  by (simp add: demo_cache_file_def ascii_def)

lemma demo_cache_file_fields:
  "field 32 4 (demo_cache_file ptr) = 48" "field 48 4 (demo_cache_file ptr) = cache_extension_magic"
  "field 52 4 (demo_cache_file ptr) = 1" "field 56 4 (demo_cache_file ptr) = 1" "field 64 4 (demo_cache_file ptr) = 72"
  "field 68 4 (demo_cache_file ptr) = 4" "field 72 4 (demo_cache_file ptr) = unat ptr"
  by (simp_all add: demo_cache_file_def field_def cache_extension_magic_def ascii_def)

lemma demo_cache_file_ext: "cache_extension_load (demo_cache_file ptr) 0 = Inr (Some (72, 4))"
  by (simp add: cache_extension_load_def read_field_def demo_cache_file_length demo_cache_file_fields cache_extension_verify_def)

lemma demo_cache_file_words: "section_words (demo_cache_file ptr) 72 (Suc 0) = [unat ptr]"
  by (simp add: section_words_def demo_cache_file_fields)

theorem glibc_hwcaps_priority_lookup_witness:
  "glibc_hwcaps_priority (\<lambda>_. True) (demo_cache_file 76) 0 [(''x86-64-v2'', 3)] 0 = Inr 3"
proof -
  have name: "string_at (demo_cache_file 76) 76 = ''x86-64-v2''" by code_simp
  have "0 \<in> set (drop 76 (demo_cache_file 76))" by code_simp
  then have "names_in_file (demo_cache_file 76) (section_words (demo_cache_file 76) 72 (4 div 4))"
    by (simp add: demo_cache_file_words names_in_file_def)
  then show ?thesis
    using glibc_hwcaps_priority_lookup [OF demo_cache_file_ext, of "\<lambda>_. True" 76 "[(''x86-64-v2'', 3)]" 0] name
    by (simp add: demo_cache_file_words)
qed

theorem glibc_hwcaps_priority_overflow_witness:
  "glibc_hwcaps_priority (\<lambda>_. True) (demo_cache_file 255) 0 [(''x86-64-v2'', 3)] 0 = Inl Oob_write"
  using glibc_hwcaps_priority_overflow [OF demo_cache_file_ext, of "\<lambda>_. True" 255 "[]" 255 "[]" "[(''x86-64-v2'', 3)]" 0]
  by (simp add: demo_cache_file_words demo_cache_file_length names_in_file_def)

end
