(* ===== verification/Spec2Isabelle.thy ===== *)
theory Spec2Isabelle
  imports Preopen SortMaps TunablesInit SearchPathQuery OpenPathSpec RtldArgs CacheSpec
begin

text \<open>
  A verification development for await-glibc.
\<close>

end
